(* ===== verification/Pulse_Prelude.thy ===== *)
theory Pulse_Prelude
  imports Main "HOL-Library.Word" "HOL-Library.List_Lexorder" "HOL-Library.Char_ord"
    "HOL-Library.AList" "HOL-Library.Multiset"
begin

text \<open>
  Shared vocabulary of the development: machine integers as words together with the
  checked and saturating operations of Rust's standard library, the result type with its
  bind (the \<open>?\<close> operator), little- and big-endian byte strings, the ordered set of
  \<open>std::collections::BTreeSet\<close> as a sorted list, and hash maps as association lists (the list
  order stands for the unspecified iteration order).

  Widths: \<open>u8\<close>, \<open>u16\<close>, \<open>u32\<close>, \<open>u64\<close> and \<open>u128\<close> are words, so that an operator
  written without a check wraps; \<open>usize\<close> values, which only count elements held in memory,
  are natural numbers. A Rust \<open>String\<close> is the list of its bytes; its order is the
  lexicographic order of the bytes.
\<close>

unbundle bit_operations_syntax

named_theorems mach \<open>characterisations of the machine arithmetic through \<open>unat\<close>\<close>
named_theorems result_simps \<open>inversion of computations that may fail\<close>

section \<open>Machine integers\<close>

type_synonym u8 = "8 word"
type_synonym u16 = "16 word"
type_synonym u32 = "32 word"
type_synonym u64 = "64 word"
type_synonym u128 = "128 word"

definition checked_add :: "'a::len word \<Rightarrow> 'a word \<Rightarrow> 'a word option" where
  "checked_add a b = (if unat a + unat b < 2 ^ LENGTH('a) then Some (a + b) else None)"

definition checked_sub :: "'a::len word \<Rightarrow> 'a word \<Rightarrow> 'a word option" where
  "checked_sub a b = (if b \<le> a then Some (a - b) else None)"

definition checked_mul :: "'a::len word \<Rightarrow> 'a word \<Rightarrow> 'a word option" where
  "checked_mul a b = (if unat a * unat b < 2 ^ LENGTH('a) then Some (a * b) else None)"

definition checked_div :: "'a::len word \<Rightarrow> 'a word \<Rightarrow> 'a word option" where
  "checked_div a b = (if b = 0 then None else Some (a div b))"

definition saturating_add :: "'a::len word \<Rightarrow> 'a word \<Rightarrow> 'a word" where
  "saturating_add a b = (if unat a + unat b < 2 ^ LENGTH('a) then a + b else - 1)"

definition saturating_sub :: "'a::len word \<Rightarrow> 'a word \<Rightarrow> 'a word" where
  "saturating_sub a b = (if b \<le> a then a - b else 0)"

definition saturating_mul :: "'a::len word \<Rightarrow> 'a word \<Rightarrow> 'a word" where
  "saturating_mul a b = (if unat a * unat b < 2 ^ LENGTH('a) then a * b else - 1)"

text \<open>\<open>try_from\<close> between widths: \<open>None\<close> when the value does not fit.\<close>

definition try_from :: "'a::len word \<Rightarrow> 'b::len word option" where
  "try_from a = (if unat a < 2 ^ LENGTH('b) then Some (ucast a) else None)"

definition try_from_nat :: "nat \<Rightarrow> 'b::len word option" where
  "try_from_nat n = (if n < 2 ^ LENGTH('b) then Some (word_of_nat n) else None)"

lemma unat_lt_len: "unat (a :: 'a::len word) < 2 ^ LENGTH('a)"
  by (rule unsigned_less)

lemma unat_u8_bound: "unat (x :: u8) < 256"
  using unat_lt_len [of x] by simp

lemma unat_u32_bound: "unat (x :: u32) < 4294967296"
  using unat_lt_len [of x] by simp

lemma unat_u64_bound: "unat (x :: u64) < 18446744073709551616"
  using unat_lt_len [of x] by simp

lemma unat_add_small:
  "unat a + unat b < 2 ^ LENGTH('a) \<Longrightarrow> unat (a + b) = unat a + unat (b :: 'a::len word)"
  by (simp add: unat_add_lem)

lemma unat_mul_small:
  "unat a * unat b < 2 ^ LENGTH('a) \<Longrightarrow> unat (a * b) = unat a * unat (b :: 'a::len word)"
  by (simp add: unat_mult_lem)

lemma unat_sub_le: "b \<le> a \<Longrightarrow> unat (a - b) = unat a - unat (b :: 'a::len word)"
  by (simp add: unat_sub)

lemma word_eqI_unat: "unat a = unat b \<Longrightarrow> a = (b :: 'a::len word)"
  by (simp add: word_unat_eq_iff)

lemma checked_add_eq_Some [mach]:
  "checked_add a b = Some c \<longleftrightarrow> unat c = unat a + unat b"
proof -
  have "unat c = unat a + unat b \<Longrightarrow> unat a + unat b < 2 ^ LENGTH('a)"
    using unat_lt_len [of c] by simp
  then show ?thesis
    by (auto simp: checked_add_def unat_add_small intro: word_eqI_unat)
qed

lemma checked_add_eq_None [mach]:
  "checked_add (a :: 'a::len word) b = None \<longleftrightarrow> 2 ^ LENGTH('a) \<le> unat a + unat b"
  by (auto simp: checked_add_def)

lemma checked_sub_eq_Some [mach]:
  "checked_sub a b = Some c \<longleftrightarrow> unat b \<le> unat a \<and> unat c = unat a - unat b"
  by (auto simp: checked_sub_def word_le_nat_alt unat_sub_le intro: word_eqI_unat)

lemma checked_sub_eq_None [mach]: "checked_sub a b = None \<longleftrightarrow> unat a < unat b"
  by (auto simp: checked_sub_def word_le_nat_alt)

lemma checked_mul_eq_Some [mach]:
  "checked_mul a b = Some c \<longleftrightarrow> unat c = unat a * unat b"
proof -
  have "unat c = unat a * unat b \<Longrightarrow> unat a * unat b < 2 ^ LENGTH('a)"
    using unat_lt_len [of c] by simp
  then show ?thesis
    by (auto simp: checked_mul_def unat_mul_small intro: word_eqI_unat)
qed

lemma checked_mul_eq_None [mach]:
  "checked_mul (a :: 'a::len word) b = None \<longleftrightarrow> 2 ^ LENGTH('a) \<le> unat a * unat b"
  by (auto simp: checked_mul_def)

lemma try_from_eq_Some [mach]: "try_from a = Some b \<longleftrightarrow> unat b = unat a"
  for a :: "'a::len word" and b :: "'b::len word"
proof -
  have "unat b = unat a \<Longrightarrow> unat a < 2 ^ LENGTH('b)"
    using unat_lt_len [of b] by simp
  then show ?thesis
    by (auto simp: try_from_def unsigned_ucast_eq take_bit_nat_eq_self intro: word_eqI_unat)
qed

lemma try_from_nat_eq_Some [mach]:
  "try_from_nat n = Some (b :: 'b::len word) \<longleftrightarrow> unat b = n"
proof -
  have "unat b = n \<Longrightarrow> n < 2 ^ LENGTH('b)"
    using unat_lt_len [of b] by simp
  then show ?thesis
    by (auto simp: try_from_nat_def unat_of_nat take_bit_nat_eq_self
        intro: word_eqI_unat)
qed

text \<open>Success of the checked operations, in the form the component proofs eliminate.\<close>

lemma checked_add_ok:
  fixes a b :: "'a::len word"
  assumes "unat a + unat b < 2 ^ LENGTH('a)"
  obtains c where "checked_add a b = Some c" "unat c = unat a + unat b"
  using assms by (simp add: checked_add_def unat_add_small)

lemma checked_sub_ok:
  fixes a b :: "'a::len word"
  assumes "unat b \<le> unat a"
  obtains c where "checked_sub a b = Some c" "unat c = unat a - unat b"
  using assms by (simp add: checked_sub_def unat_sub_le word_le_nat_alt)

lemma checked_mul_ok:
  fixes a b :: "'a::len word"
  assumes "unat a * unat b < 2 ^ LENGTH('a)"
  obtains c where "checked_mul a b = Some c" "unat c = unat a * unat b"
  using assms by (simp add: checked_mul_def unat_mul_small)

lemma try_from_ok:
  fixes a :: "'a::len word"
  assumes "unat a < 2 ^ LENGTH('b::len)"
  obtains c where "try_from a = Some (c :: 'b word)" "unat c = unat a"
  using assms by (simp add: try_from_def unsigned_ucast_eq take_bit_nat_eq_self)

lemma unat_word_of_nat_small:
  "n < 2 ^ LENGTH('a) \<Longrightarrow> unat (word_of_nat n :: 'a::len word) = n"
  by (simp add: unat_of_nat take_bit_nat_eq_self)

lemma unat_drop_bit_div [mach]: "unat (drop_bit n w) = unat (w :: 'a::len word) div 2 ^ n"
  by (simp only: unat_drop_bit_eq) (simp only: drop_bit_eq_div)

lemma unat_minus_one_word: "unat (- 1 :: 'a::len word) = 2 ^ LENGTH('a) - 1"
  by (simp add: unsigned_minus_1_eq_mask mask_eq_exp_minus_1)

lemma unat_saturating_add [mach]:
  "unat (saturating_add a b) = min (unat a + unat b) (2 ^ LENGTH('a) - 1)"
  for a b :: "'a::len word"
  by (auto simp: saturating_add_def unat_add_small unat_minus_one_word min_def)

lemma unat_saturating_sub [mach]: "unat (saturating_sub a b) = unat a - unat b"
  by (auto simp: saturating_sub_def unat_sub_le word_le_nat_alt)

lemma unat_saturating_mul [mach]:
  "unat (saturating_mul a b) = min (unat a * unat b) (2 ^ LENGTH('a) - 1)"
  for a b :: "'a::len word"
proof (cases "unat a * unat b < 2 ^ LENGTH('a)")
  case True
  then show ?thesis by (simp add: saturating_mul_def unat_mul_small)
next
  case False
  then have "2 ^ LENGTH('a) - 1 \<le> unat a * unat b" by simp
  with False show ?thesis by (simp add: saturating_mul_def unat_minus_one_word)
qed

lemma unat_ucast_up [mach]:
  "LENGTH('a) \<le> LENGTH('b) \<Longrightarrow> unat (ucast (a :: 'a::len word) :: 'b::len word) = unat a"
proof -
  assume "LENGTH('a) \<le> LENGTH('b)"
  then have "(2::nat) ^ LENGTH('a) \<le> 2 ^ LENGTH('b)" by simp
  with unat_lt_len [of a] have "unat a < 2 ^ LENGTH('b)" by linarith
  then show ?thesis by (simp add: unsigned_ucast_eq take_bit_nat_eq_self)
qed

section \<open>Results\<close>

text \<open>\<open>Result<A, E>\<close> is \<open>'e + 'a\<close> with \<open>Inl\<close> for \<open>Err\<close>; \<open>rbind\<close> is \<open>?\<close>.\<close>

definition rbind :: "'e + 'a \<Rightarrow> ('a \<Rightarrow> 'e + 'b) \<Rightarrow> 'e + 'b" where
  "rbind r f = (case r of Inl e \<Rightarrow> Inl e | Inr x \<Rightarrow> f x)"

definition ok_or :: "'e \<Rightarrow> 'a option \<Rightarrow> 'e + 'a" where
  "ok_or e v = (case v of None \<Rightarrow> Inl e | Some x \<Rightarrow> Inr x)"

definition map_err :: "('e \<Rightarrow> 'f) \<Rightarrow> 'e + 'a \<Rightarrow> 'f + 'a" where
  "map_err f r = (case r of Inl e \<Rightarrow> Inl (f e) | Inr x \<Rightarrow> Inr x)"

lemma rbind_simps [simp]: "rbind (Inl e) f = Inl e" "rbind (Inr x) f = f x"
  by (simp_all add: rbind_def)

lemma ok_or_simps [simp]: "ok_or e None = Inl e" "ok_or e (Some x) = Inr x"
  by (simp_all add: ok_or_def)

lemma map_err_simps [simp]: "map_err f (Inl e) = Inl (f e)" "map_err f (Inr x) = Inr x"
  by (simp_all add: map_err_def)

lemma rbind_eq_Inr [result_simps]: "rbind r f = Inr y \<longleftrightarrow> (\<exists>x. r = Inr x \<and> f x = Inr y)"
  by (cases r) auto

lemma rbind_eq_Inl [result_simps]:
  "rbind r f = Inl e \<longleftrightarrow> r = Inl e \<or> (\<exists>x. r = Inr x \<and> f x = Inl e)"
  by (cases r) auto

lemma ok_or_eq_Inr [result_simps]: "ok_or e v = Inr x \<longleftrightarrow> v = Some x"
  by (cases v) auto

lemma ok_or_eq_Inl [result_simps]: "ok_or e v = Inl e' \<longleftrightarrow> v = None \<and> e' = e"
  by (cases v) auto

lemma map_err_eq_Inr [result_simps]: "map_err f r = Inr x \<longleftrightarrow> r = Inr x"
  by (cases r) auto

lemma map_err_eq_Inl [result_simps]: "map_err f r = Inl e \<longleftrightarrow> (\<exists>d. r = Inl d \<and> e = f d)"
  by (cases r) auto

lemma if_err_eq_Inr [result_simps]:
  "(if c then Inl e else r) = Inr x \<longleftrightarrow> \<not> c \<and> r = Inr x"
  by simp

lemma rbind_cong [fundef_cong]:
  "r = r' \<Longrightarrow> (\<And>x. r' = Inr x \<Longrightarrow> f x = f' x) \<Longrightarrow> rbind r f = rbind r' f'"
  by (cases r') auto

section \<open>Formatting and maps\<close>

text \<open>\<open>{n}\<close> of \<open>format!\<close> for an unsigned integer.\<close>

definition digit_char :: "nat \<Rightarrow> char" where
  "digit_char d = char_of (48 + d)"

fun format_nat :: "nat \<Rightarrow> string" where
  "format_nat n = (if n < 10 then [digit_char n] else format_nat (n div 10) @ [digit_char (n mod 10)])"

declare format_nat.simps [simp del]

text \<open>\<open>str::starts_with\<close>, \<open>str::contains\<close> and \<open>str::split_once\<close> for a nonempty pattern.\<close>

definition starts_with :: "'a list \<Rightarrow> 'a list \<Rightarrow> bool" where
  "starts_with s pat \<longleftrightarrow> take (length pat) s = pat"

fun str_contains :: "string \<Rightarrow> string \<Rightarrow> bool" where
  "str_contains [] pat \<longleftrightarrow> pat = []"
| "str_contains (c # s) pat \<longleftrightarrow> starts_with (c # s) pat \<or> str_contains s pat"

fun split_once :: "string \<Rightarrow> string \<Rightarrow> (string \<times> string) option" where
  "split_once [] pat = (if pat = [] then Some ([], []) else None)"
| "split_once (c # s) pat =
    (if starts_with (c # s) pat then Some ([], drop (length pat) (c # s))
     else case split_once s pat of None \<Rightarrow> None | Some (before, after) \<Rightarrow> Some (c # before, after))"

text \<open>
  Hash maps as association lists. Every map the code builds has distinct keys; \<open>AList.update\<close>
  replaces the entry of a key or appends one, \<open>AList.delete\<close> removes it.
\<close>

abbreviation lookup :: "('k \<times> 'v) list \<Rightarrow> 'k \<Rightarrow> 'v option" where
  "lookup m k \<equiv> map_of m k"

abbreviation contains_key :: "('k \<times> 'v) list \<Rightarrow> 'k \<Rightarrow> bool" where
  "contains_key m k \<equiv> map_of m k \<noteq> None"

definition distinct_keys :: "('k \<times> 'v) list \<Rightarrow> bool" where
  "distinct_keys m \<longleftrightarrow> distinct (map fst m)"

lemma distinct_keys_update [simp]: "distinct_keys m \<Longrightarrow> distinct_keys (AList.update k v m)"
  by (simp add: distinct_keys_def distinct_update)

lemma distinct_keys_delete [simp]: "distinct_keys m \<Longrightarrow> distinct_keys (AList.delete k m)"
  by (simp add: distinct_keys_def distinct_delete)

lemma lookup_delete: "lookup (AList.delete k m) k' = (if k' = k then None else lookup m k')"
  by (simp add: delete_conv')

lemma lookup_update: "lookup (AList.update k v m) k' = (if k' = k then Some v else lookup m k')"
  by (simp add: update_conv')

lemma lookup_in_set: "distinct_keys m \<Longrightarrow> (k, v) \<in> set m \<longleftrightarrow> lookup m k = Some v"
  by (auto simp: distinct_keys_def)

text \<open>Ordered sets (\<open>BTreeSet\<close>) as sorted lists without duplicates.\<close>

definition btree :: "'a::linorder list \<Rightarrow> bool" where
  "btree xs \<longleftrightarrow> sorted xs \<and> distinct xs"

lemma btree_insert [simp]: "btree xs \<Longrightarrow> btree (insort_insert x xs)"
  by (simp add: btree_def sorted_insort_insert distinct_insort_insert)

lemma set_fold_insort_insert: "set (fold insort_insert xs acc) = set xs \<union> set acc"
  by (induction xs arbitrary: acc) (auto simp: set_insort_insert)

lemma btree_tl [simp]: "btree xs \<Longrightarrow> btree (tl xs)"
  by (simp add: btree_def sorted_tl distinct_tl)

text \<open>\<open>Iterator::filter_map\<close> is \<open>List.map_filter\<close>.\<close>

lemma in_set_map_filter: "y \<in> set (List.map_filter f xs) \<longleftrightarrow> (\<exists>x \<in> set xs. f x = Some y)"
  by (induction xs) (auto simp: map_filter_simps split: option.splits)

text \<open>\<open>char::is_ascii_digit\<close> and \<open>str::split\<close> on a character, which yields at least one part.\<close>

definition is_ascii_digit :: "char \<Rightarrow> bool" where
  "is_ascii_digit c \<longleftrightarrow> (48 :: nat) \<le> of_char c \<and> of_char c \<le> (57 :: nat)"

fun split_on :: "char \<Rightarrow> string \<Rightarrow> string list" where
  "split_on c [] = [[]]"
| "split_on c (x # xs) =
    (if x = c then [] # split_on c xs
     else case split_on c xs of [] \<Rightarrow> [[x]] | p # ps \<Rightarrow> (x # p) # ps)"

lemma split_on_none: "c \<notin> set s \<Longrightarrow> split_on c s = [s]"
  by (induction s) auto

lemma split_on_one: "c \<notin> set s \<Longrightarrow> c \<notin> set t \<Longrightarrow> split_on c (s @ c # t) = [s, t]"
  by (induction s) (auto simp: split_on_none)

lemma split_on_nonempty: "split_on c s \<noteq> []"
  by (induction s) (auto split: list.splits)

lemma split_on_join: "split_on c s = p # ps \<Longrightarrow> s = p @ concat (map (\<lambda>q. c # q) ps)"
proof (induction s arbitrary: p ps)
  case (Cons x s)
  obtain q qs where q: "split_on c s = q # qs" using split_on_nonempty by (metis neq_Nil_conv)
  show ?case
  proof (cases "x = c")
    case True
    with Cons.prems q have "p = []" "ps = q # qs" by auto
    then show ?thesis using Cons.IH [OF q] True by simp
  next
    case False
    with Cons.prems q have "p = x # q" "ps = qs" by auto
    then show ?thesis using Cons.IH [OF q] by simp
  qed
qed simp

end
