(* ===== verification/Pulse_Monetary.thy ===== *)
theory Pulse_Monetary
  imports Pulse_Prelude Complex_Main
begin

text \<open>
  The v3 monetary policy (\<open>monetary_v3.rs\<close>): the cadence schedule that maps a canonical score to
  economic time, the Q64 fixed-point decay, the cumulative issuance curve, and the subsidy of one
  score. All arithmetic is kept at the widths of the source.
\<close>

section \<open>Constants and data\<close>

definition MAX_SUPPLY_ATOMS :: u64 where "MAX_SUPPLY_ATOMS = 100000000000000000"
definition HALF_LIFE_NS :: u128 where "HALF_LIFE_NS = 94608000 * 1000000000"
definition EMISSION_QUANTUM_NS :: u128 where "EMISSION_QUANTUM_NS = 21600 * 1000000000"
definition HALF_LIFE_QUANTA :: u64 where "HALF_LIFE_QUANTA = 94608000 div 21600"
definition Q64_ONE :: u128 where "Q64_ONE = push_bit 64 1"
definition DECAY_FACTOR_Q64 :: u128 where "DECAY_FACTOR_Q64 = 18443825056137834748"
definition HALF_LIFE_END_FACTOR_Q64 :: u128 where
  "HALF_LIFE_END_FACTOR_Q64 = 9223372036854774856"
definition TERMINAL_HALF_LIVES :: u32 where "TERMINAL_HALF_LIVES = 57"
definition COINBASE_MATURITY_NS :: u128 where "COINBASE_MATURITY_NS = 3600 * 1000000000"

record MonetaryCadenceSegment =
  activation_score :: u64
  target_interval_ns :: u64

definition PRODUCTION_CADENCE_V3 :: "MonetaryCadenceSegment list" where
  "PRODUCTION_CADENCE_V3 = [\<lparr>activation_score = 0, target_interval_ns = 500000000\<rparr>]"

datatype MonetaryV3Error =
    EmptyCadenceSchedule
  | FirstCadenceMustStartAtZero
  | ZeroCadenceInterval
  | NonIncreasingCadenceActivation
  | NonMonotonicScoreRange
  | ArithmeticOverflow

section \<open>Operations\<close>

fun validate_cadence_windows :: "MonetaryCadenceSegment list \<Rightarrow> MonetaryV3Error + unit" where
  "validate_cadence_windows (a # b # rest) =
    (if activation_score b \<le> activation_score a then Inl NonIncreasingCadenceActivation
     else if target_interval_ns b = 0 then Inl ZeroCadenceInterval
     else validate_cadence_windows (b # rest))"
| "validate_cadence_windows _ = Inr ()"

definition validate_cadence_segments ::
  "MonetaryCadenceSegment list \<Rightarrow> MonetaryV3Error + unit" where
  "validate_cadence_segments segments =
    (case segments of
       [] \<Rightarrow> Inl EmptyCadenceSchedule
     | first # _ \<Rightarrow>
         if activation_score first \<noteq> 0 then Inl FirstCadenceMustStartAtZero
         else if target_interval_ns first = 0 then Inl ZeroCadenceInterval
         else validate_cadence_windows segments)"

fun economic_time_loop ::
  "u64 \<Rightarrow> MonetaryCadenceSegment list \<Rightarrow> u128 \<Rightarrow> MonetaryV3Error + u128" where
  "economic_time_loop score [] economic_time_ns = Inr economic_time_ns"
| "economic_time_loop score (segment # rest) economic_time_ns =
    (if score \<le> activation_score segment then Inr economic_time_ns
     else
       let next_activation = (case rest of [] \<Rightarrow> score | nxt # _ \<Rightarrow> activation_score nxt);
           end_score = min score next_activation
       in if end_score \<le> activation_score segment
          then economic_time_loop score rest economic_time_ns
          else rbind (ok_or ArithmeticOverflow
                 (checked_mul (ucast (end_score - activation_score segment) :: u128)
                              (ucast (target_interval_ns segment))))
               (\<lambda>contribution. rbind (ok_or ArithmeticOverflow
                 (checked_add economic_time_ns contribution))
               (\<lambda>economic_time_ns.
                 if end_score = score then Inr economic_time_ns
                 else economic_time_loop score rest economic_time_ns)))"

definition economic_time_ns_for_score ::
  "u64 \<Rightarrow> MonetaryCadenceSegment list \<Rightarrow> MonetaryV3Error + u128" where
  "economic_time_ns_for_score score segments =
    rbind (validate_cadence_segments segments) (\<lambda>_. economic_time_loop score segments 0)"

definition ceil_div_u128 :: "u128 \<Rightarrow> u128 \<Rightarrow> u128" where
  "ceil_div_u128 numerator denominator =
    numerator div denominator + (if numerator mod denominator \<noteq> 0 then 1 else 0)"

definition q64_mul :: "u128 \<Rightarrow> u128 \<Rightarrow> MonetaryV3Error + u128" where
  "q64_mul lhs rhs =
    ok_or ArithmeticOverflow (map_option (\<lambda>product. drop_bit 64 product) (checked_mul lhs rhs))"

function q64_pow_loop :: "u64 \<Rightarrow> u128 \<Rightarrow> u128 \<Rightarrow> MonetaryV3Error + u128" where
  "q64_pow_loop exponent result base =
    (if exponent = 0 then Inr result
     else
       rbind (if exponent AND 1 = 1 then q64_mul result base else Inr result)
       (\<lambda>result.
         let exponent' = drop_bit 1 exponent
         in if exponent' \<noteq> 0
            then rbind (q64_mul base base) (\<lambda>base. q64_pow_loop exponent' result base)
            else Inr result))"
  by auto
termination
proof (relation "measure (\<lambda>(exponent, _, _). unat exponent)", goal_cases)
  case (2 exponent result base x xa xb)
  then have "unat exponent \<noteq> 0" by (simp add: unat_eq_0)
  with 2 show ?case by (simp add: unat_drop_bit_div)
qed simp

declare q64_pow_loop.simps [simp del]

definition q64_pow :: "u64 \<Rightarrow> MonetaryV3Error + u128" where
  "q64_pow exponent = q64_pow_loop exponent Q64_ONE DECAY_FACTOR_Q64"

definition remaining_atoms_at_half_life_boundary :: "u32 \<Rightarrow> MonetaryV3Error + u64" where
  "remaining_atoms_at_half_life_boundary completed_half_lives =
    (if TERMINAL_HALF_LIVES \<le> completed_half_lives then Inr 0
     else
       rbind (ok_or ArithmeticOverflow
         (if completed_half_lives < 128 then Some (push_bit (unat completed_half_lives) (1 :: u128))
          else None))
       (\<lambda>denominator.
         ok_or ArithmeticOverflow
           (try_from (ceil_div_u128 (ucast MAX_SUPPLY_ATOMS) denominator))))"

definition issuance_within_half_life_at_quantum :: "u64 \<Rightarrow> u64 \<Rightarrow> MonetaryV3Error + u64" where
  "issuance_within_half_life_at_quantum half_life_budget_atoms quantum =
    (if HALF_LIFE_QUANTA < quantum then Inl ArithmeticOverflow
     else
       rbind (q64_pow quantum) (\<lambda>factor.
       rbind (ok_or ArithmeticOverflow (checked_sub Q64_ONE factor)) (\<lambda>progress.
       rbind (ok_or ArithmeticOverflow (checked_sub Q64_ONE HALF_LIFE_END_FACTOR_Q64))
         (\<lambda>normalization.
       rbind (ok_or ArithmeticOverflow
         (checked_mul (ucast half_life_budget_atoms) progress)) (\<lambda>scaled.
       ok_or ArithmeticOverflow (try_from (scaled div normalization)))))))"

definition target_issuance_atoms :: "u128 \<Rightarrow> MonetaryV3Error + u64" where
  "target_issuance_atoms economic_time_ns =
    (let completed_half_lives = economic_time_ns div HALF_LIFE_NS in
     if ucast TERMINAL_HALF_LIVES \<le> completed_half_lives then Inr MAX_SUPPLY_ATOMS
     else
       rbind (ok_or ArithmeticOverflow (try_from completed_half_lives :: u32 option))
         (\<lambda>completed_half_lives.
       let within_half_life_ns = economic_time_ns mod HALF_LIFE_NS in
       rbind (remaining_atoms_at_half_life_boundary completed_half_lives) (\<lambda>start_remaining.
       rbind (remaining_atoms_at_half_life_boundary (completed_half_lives + 1))
         (\<lambda>end_remaining.
       rbind (ok_or ArithmeticOverflow (checked_sub start_remaining end_remaining))
         (\<lambda>half_life_budget_atoms.
       rbind (ok_or ArithmeticOverflow (checked_sub MAX_SUPPLY_ATOMS start_remaining))
         (\<lambda>base_issued_atoms.
       rbind (ok_or ArithmeticOverflow
         (try_from (within_half_life_ns div EMISSION_QUANTUM_NS) :: u64 option)) (\<lambda>quantum.
       let within_quantum_ns = within_half_life_ns mod EMISSION_QUANTUM_NS in
       rbind (issuance_within_half_life_at_quantum half_life_budget_atoms quantum)
         (\<lambda>issued_at_quantum.
       rbind (issuance_within_half_life_at_quantum half_life_budget_atoms (quantum + 1))
         (\<lambda>issued_at_next.
       rbind (ok_or ArithmeticOverflow (checked_sub issued_at_next issued_at_quantum))
         (\<lambda>quantum_delta.
       rbind (ok_or ArithmeticOverflow (checked_mul (ucast quantum_delta) within_quantum_ns))
         (\<lambda>scaled.
       rbind (ok_or ArithmeticOverflow (try_from (scaled div EMISSION_QUANTUM_NS) :: u64 option))
         (\<lambda>partial.
       ok_or ArithmeticOverflow
         (Option.bind (checked_add base_issued_atoms issued_at_quantum)
           (\<lambda>v. checked_add v partial))))))))))))))"

definition total_supply_atoms_for_score ::
  "u64 \<Rightarrow> MonetaryCadenceSegment list \<Rightarrow> MonetaryV3Error + u64" where
  "total_supply_atoms_for_score score segments =
    rbind (economic_time_ns_for_score score segments) target_issuance_atoms"

definition subsidy_atoms_for_score ::
  "u64 \<Rightarrow> MonetaryCadenceSegment list \<Rightarrow> MonetaryV3Error + u64" where
  "subsidy_atoms_for_score score segments =
    (if score = 0 then Inr 0
     else
       rbind (total_supply_atoms_for_score (score - 1) segments) (\<lambda>previous.
       rbind (total_supply_atoms_for_score score segments) (\<lambda>current.
       ok_or ArithmeticOverflow (checked_sub current previous))))"

definition authorized_issuance_atoms ::
  "u64 \<Rightarrow> u64 \<Rightarrow> MonetaryCadenceSegment list \<Rightarrow> MonetaryV3Error + u64" where
  "authorized_issuance_atoms from_score to_score segments =
    (if to_score < from_score then Inl NonMonotonicScoreRange
     else
       rbind (total_supply_atoms_for_score from_score segments) (\<lambda>from_supply.
       rbind (total_supply_atoms_for_score to_score segments) (\<lambda>to_supply.
       ok_or ArithmeticOverflow (checked_sub to_supply from_supply))))"

definition max_coinbase_claim_atoms ::
  "u64 \<Rightarrow> u64 \<Rightarrow> MonetaryCadenceSegment list \<Rightarrow> MonetaryV3Error + u64" where
  "max_coinbase_claim_atoms score eligible_fees_atoms segments =
    rbind (subsidy_atoms_for_score score segments) (\<lambda>subsidy.
      ok_or ArithmeticOverflow (checked_add subsidy eligible_fees_atoms))"

definition economic_maturity_reached ::
  "u64 \<Rightarrow> u64 \<Rightarrow> MonetaryCadenceSegment list \<Rightarrow> MonetaryV3Error + bool" where
  "economic_maturity_reached reward_score current_score segments =
    (if current_score < reward_score then Inr False
     else
       rbind (economic_time_ns_for_score reward_score segments) (\<lambda>reward_time.
       rbind (economic_time_ns_for_score current_score segments) (\<lambda>current_time.
       Inr (COINBASE_MATURITY_NS \<le> saturating_sub current_time reward_time))))"

section \<open>The decay and the issuance curve over the natural numbers\<close>

lemmas monetary_consts = MAX_SUPPLY_ATOMS_def HALF_LIFE_NS_def EMISSION_QUANTUM_NS_def
  HALF_LIFE_QUANTA_def Q64_ONE_def DECAY_FACTOR_Q64_def HALF_LIFE_END_FACTOR_Q64_def
  TERMINAL_HALF_LIVES_def COINBASE_MATURITY_NS_def

lemma unat_Q64_ONE: "unat Q64_ONE = 2 ^ 64"
  by (simp add: Q64_ONE_def)

lemma q64_mul_ok:
  assumes "unat a \<le> 2 ^ 64" "unat b \<le> 2 ^ 64 - 1"
  shows "\<exists>c. q64_mul a b = Inr c \<and> unat c = unat a * unat b div 2 ^ 64"
proof -
  have "unat a * unat b \<le> 2 ^ 64 * (2 ^ 64 - 1)"
    by (rule mult_mono) (use assms in auto)
  also have "\<dots> < 2 ^ 128" by simp
  finally have lt: "unat a * unat b < 2 ^ LENGTH(128)" by simp
  then have "checked_mul a b = Some (a * b)" by (simp add: checked_mul_def)
  moreover have "unat (drop_bit 64 (a * b)) = unat a * unat b div 2 ^ 64"
    using lt by (simp add: unat_drop_bit_div unat_mul_small)
  ultimately show ?thesis by (simp add: q64_mul_def)
qed

text \<open>\<open>q64_near x e c v\<close>: \<open>v\<close> is below the exact power \<open>2^64 * x^e\<close> by at most \<open>c\<close>.\<close>
definition q64_near :: "real \<Rightarrow> nat \<Rightarrow> nat \<Rightarrow> nat \<Rightarrow> bool" where
  "q64_near x e c v \<longleftrightarrow> real v \<le> 2 ^ 64 * x ^ e \<and> 2 ^ 64 * x ^ e - real c \<le> real v"

lemma q64_near_mul:
  assumes x: "0 \<le> x" "x \<le> 1"
    and u: "q64_near x e c u" and v: "q64_near x f d v"
  shows "q64_near x (e + f) (c + d + 1) (u * v div 2 ^ 64)"
proof -
  let ?Q = "2 ^ 64 :: real"
  let ?U = "?Q * x ^ e" and ?V = "?Q * x ^ f"
  have U: "0 \<le> ?U" "?U \<le> ?Q" "0 \<le> ?V" "?V \<le> ?Q"
    using x by (simp_all add: power_le_one)
  have uv: "real u \<le> ?U" "?U - real c \<le> real u" "real v \<le> ?V" "?V - real d \<le> real v"
    using u v by (simp_all add: q64_near_def)
  have up: "real u * real v \<le> ?U * ?V"
    by (rule mult_mono) (use uv U in auto)
  have "?U * ?V - real u * real v = ?U * (?V - real v) + (?U - real u) * real v"
    by (simp add: algebra_simps)
  also have "\<dots> \<le> ?Q * real d + real c * ?Q"
  proof (rule add_mono)
    show "?U * (?V - real v) \<le> ?Q * real d"
      by (rule mult_mono) (use uv U in auto)
    have "real v \<le> ?Q" using uv U by linarith
    then show "(?U - real u) * real v \<le> real c * ?Q"
      by (intro mult_mono) (use uv U in auto)
  qed
  finally have lo: "?U * ?V - ?Q * (real c + real d) \<le> real u * real v"
    by (simp add: algebra_simps)
  have "real (u * v div 2 ^ 64) = real_of_int \<lfloor>real u * real v / ?Q\<rfloor>"
    using floor_divide_of_nat_eq [of "u * v" "2 ^ 64", where ?'a = real] by simp
  then have div_hi: "real (u * v div 2 ^ 64) \<le> real u * real v / ?Q"
    and div_lo: "real u * real v / ?Q - 1 \<le> real (u * v div 2 ^ 64)"
    by linarith+
  have prod: "?U * ?V / ?Q = ?Q * x ^ (e + f)"
    by (simp add: power_add)
  have "real u * real v / ?Q \<le> ?U * ?V / ?Q"
    by (rule divide_right_mono) (use up in auto)
  moreover have "(?U * ?V - ?Q * (real c + real d)) / ?Q \<le> real u * real v / ?Q"
    by (rule divide_right_mono) (use lo in auto)
  moreover have "(?U * ?V - ?Q * (real c + real d)) / ?Q = ?U * ?V / ?Q - (real c + real d)"
    by (simp add: field_simps)
  ultimately show ?thesis
    unfolding q64_near_def using div_hi div_lo prod by simp
qed

definition q64_x :: real where "q64_x = real (unat DECAY_FACTOR_Q64) / 2 ^ 64"

lemma q64_x_bounds: "0 \<le> q64_x" "q64_x < 1"
  by (simp_all add: q64_x_def DECAY_FACTOR_Q64_def)

lemma q64_near_le:
  assumes "0 \<le> x" "x < 1" "q64_near x e c v"
  shows "v \<le> 2 ^ 64" and "0 < e \<Longrightarrow> v \<le> 2 ^ 64 - 1"
proof -
  have v: "real v \<le> 2 ^ 64 * x ^ e" using assms by (simp add: q64_near_def)
  have "x ^ e \<le> 1" using assms by (simp add: power_le_one)
  then have "2 ^ 64 * x ^ e \<le> (2 ^ 64 :: real)" by simp
  with v have "real v \<le> 2 ^ 64" by linarith
  then show "v \<le> 2 ^ 64" by simp
  show "v \<le> 2 ^ 64 - 1" if "0 < e"
  proof -
    have "x ^ e < 1" using assms that by (simp add: power_less_one_iff)
    then have "2 ^ 64 * x ^ e < (2 ^ 64 :: real)" by simp
    with v have "real v < 2 ^ 64" by linarith
    then show ?thesis by simp
  qed
qed

lemma q64_pow_loop_near:
  assumes "q64_near q64_x a a (unat result)" "q64_near q64_x m (m - 1) (unat base)" "0 < m"
  shows "\<exists>v. q64_pow_loop exponent result base = Inr v
    \<and> q64_near q64_x (a + m * unat exponent) (a + m * unat exponent) (unat v)"
  using assms
proof (induction exponent result base arbitrary: a m rule: q64_pow_loop.induct)
  case (1 exponent result base)
  note x = q64_x_bounds
  show ?case
  proof (cases "exponent = 0")
    case True
    then show ?thesis using "1.prems"(1) by (simp add: q64_pow_loop.simps)
  next
    case False
    let ?h = "drop_bit 1 exponent"
    define r where "r = unat exponent mod 2"
    have b: "unat base \<le> 2 ^ 64 - 1" by (rule q64_near_le(2)) (use 1 x in auto)
    have res: "unat result \<le> 2 ^ 64" by (rule q64_near_le(1)) (use 1 x in auto)
    have h: "unat ?h = unat exponent div 2" by (simp add: unat_drop_bit_div)
    have e: "unat exponent = 2 * unat ?h + r" unfolding h r_def by simp
    have odd: "exponent AND 1 = 1 \<longleftrightarrow> r = 1"
      by (simp add: r_def and_one_eq word_unat_eq_iff unat_mod)
    obtain result' where r':
      "(if exponent AND 1 = 1 then q64_mul result base else Inr result) = Inr result'"
      "q64_near q64_x (a + m * r) (a + m * r) (unat result')"
    proof (cases "r = 1")
      case True
      obtain c where "q64_mul result base = Inr c" "unat c = unat result * unat base div 2 ^ 64"
        using q64_mul_ok [OF res b] by blast
      moreover have "a + (m - 1) + 1 = a + m" using "1.prems"(3) by simp
      ultimately show ?thesis
        using q64_near_mul [OF x(1) less_imp_le [OF x(2)] "1.prems"(1) "1.prems"(2)] True odd
        by (intro that [of c]) auto
    next
      case False
      then have "r = 0" by (simp add: r_def)
      then show ?thesis using "1.prems"(1) odd by (intro that [of result]) auto
    qed
    show ?thesis
    proof (cases "?h = 0")
      case True
      then have "unat exponent = r" using e by simp
      then show ?thesis
        using False True r' by (subst q64_pow_loop.simps) (simp add: Let_def)
    next
      case nz: False
      obtain c where c: "q64_mul base base = Inr c" "unat c = unat base * unat base div 2 ^ 64"
        using q64_mul_ok [of base base] b by auto
      have err: "m - 1 + (m - 1) + 1 = m + m - 1" using "1.prems"(3) by simp
      have "q64_near q64_x (m + m) (m + m - 1) (unat c)"
        using q64_near_mul [OF x(1) less_imp_le [OF x(2)] "1.prems"(2) "1.prems"(2)]
        unfolding err c(2) .
      from "1.IH" [OF False r'(1) refl nz c(1) r'(2) this]
      obtain v where "q64_pow_loop ?h result' c = Inr v"
        "q64_near q64_x (a + m * r + (m + m) * unat ?h) (a + m * r + (m + m) * unat ?h) (unat v)"
        using "1.prems"(3) by auto
      moreover have tot: "a + m * r + (m + m) * unat ?h = a + m * unat exponent"
        by (simp add: e algebra_simps)
      moreover have "q64_pow_loop exponent result base = q64_pow_loop ?h result' c"
        using False nz r' c by (subst q64_pow_loop.simps) (simp add: Let_def)
      ultimately show ?thesis unfolding tot by auto
    qed
  qed
qed

lemma q64_pow_near:
  "\<exists>v. q64_pow e = Inr v \<and> q64_near q64_x (unat e) (unat e) (unat v)"
proof -
  have "q64_near q64_x 0 0 (unat Q64_ONE)" by (simp add: q64_near_def unat_Q64_ONE)
  moreover have "q64_near q64_x 1 (1 - 1) (unat DECAY_FACTOR_Q64)"
    by (simp add: q64_near_def q64_x_def)
  ultimately show ?thesis
    using q64_pow_loop_near [of 0 Q64_ONE 1 DECAY_FACTOR_Q64 e] by (simp add: q64_pow_def)
qed

lemma q64_pow_half_life: "q64_pow 4380 = Inr HALF_LIFE_END_FACTOR_Q64"
  by (simp add: q64_pow_def q64_pow_loop.simps Q64_ONE_def DECAY_FACTOR_Q64_def
      HALF_LIFE_END_FACTOR_Q64_def q64_mul_def checked_mul_def drop_bit_eq_div)

lemma q64_pow_decreasing_step:
  assumes "unat e < 4380" "q64_pow e = Inr u" "q64_pow (e + 1) = Inr v"
  shows "unat v < unat u"
proof -
  have e1: "unat (e + 1) = unat e + 1" using assms(1) by (intro unat_add_small [THEN trans]) auto
  have near: "q64_near q64_x (unat e) (unat e) (unat u)"
    "q64_near q64_x (unat e + 1) (unat e + 1) (unat v)"
    using q64_pow_near [of e] q64_pow_near [of "e + 1"] assms(2,3) e1 by auto
  have "q64_near q64_x 4380 4380 (unat HALF_LIFE_END_FACTOR_Q64)"
    using q64_pow_near [of 4380] q64_pow_half_life by auto
  then have half: "1 / 4 \<le> q64_x ^ 4380"
    by (simp add: q64_near_def HALF_LIFE_END_FACTOR_Q64_def)
  have "q64_x ^ 4380 \<le> q64_x ^ unat e"
    by (rule power_decreasing) (use assms(1) q64_x_bounds in auto)
  with half have xe: "1 / 4 \<le> q64_x ^ unat e" by linarith
  have gap: "2 ^ 64 * (1 - q64_x) = 2919017571716868"
    by (simp add: q64_x_def DECAY_FACTOR_Q64_def)
  have "1 / 4 * 2919017571716868 \<le> q64_x ^ unat e * (2 ^ 64 * (1 - q64_x))"
    unfolding gap by (rule mult_right_mono [OF xe]) simp
  also have "\<dots> = 2 ^ 64 * q64_x ^ unat e - 2 ^ 64 * q64_x ^ (unat e + 1)"
    by (simp add: algebra_simps)
  finally have "4380 < 2 ^ 64 * q64_x ^ unat e - 2 ^ 64 * q64_x ^ (unat e + 1)"
    by linarith
  moreover have "real (unat e) < 4380" using assms(1) of_nat_less_iff [of "unat e" 4380] by simp
  ultimately have "real (unat v) < real (unat u)"
    using near unfolding q64_near_def by linarith
  then show ?thesis by (simp only: of_nat_less_iff)
qed

text \<open>The decay factor after \<open>q\<close> quanta, as a natural number.\<close>

definition decay :: "nat \<Rightarrow> nat" where
  "decay q = (case q64_pow (word_of_nat q) of Inr v \<Rightarrow> unat v | Inl _ \<Rightarrow> 0)"

lemma q64_pow_decay: "\<exists>v. q64_pow e = Inr v \<and> unat v = decay (unat e)"
  using q64_pow_near [of e] by (auto simp: decay_def)

lemma decay_le_one: "decay q \<le> 2 ^ 64"
proof -
  obtain v where "q64_pow (word_of_nat q) = Inr v"
    "q64_near q64_x (unat (word_of_nat q :: u64)) (unat (word_of_nat q :: u64)) (unat v)"
    using q64_pow_near by blast
  then show ?thesis
    using q64_near_le(1) [OF q64_x_bounds] by (simp add: decay_def)
qed

lemma decay_half_life: "decay 4380 = 9223372036854774856"
  using q64_pow_half_life by (simp add: decay_def HALF_LIFE_END_FACTOR_Q64_def)

lemma decay_antimono:
  assumes "q \<le> q'" "q' \<le> 4380"
  shows "decay q' \<le> decay q"
  using assms
proof (induction rule: dec_induct)
  case (step n)
  let ?n = "word_of_nat n :: u64"
  have n: "unat ?n = n" using step by (simp add: unat_of_nat take_bit_nat_eq_self)
  obtain u v where uv: "q64_pow ?n = Inr u" "q64_pow (?n + 1) = Inr v"
    using q64_pow_near by blast
  have Suc: "word_of_nat (Suc n) = ?n + (1 :: u64)" by simp
  have "unat v < unat u" using q64_pow_decreasing_step [OF _ uv] n step by simp
  then have "decay (Suc n) < decay n" unfolding decay_def Suc uv by simp
  then show ?case using step by simp
qed simp

lemma decay_0: "decay 0 = 2 ^ 64"
  by (simp add: decay_def q64_pow_def q64_pow_loop.simps Q64_ONE_def)

text \<open>Issuance inside a half-life with budget \<open>b\<close>, over the natural numbers.\<close>

definition within_atoms :: "nat \<Rightarrow> nat \<Rightarrow> nat" where
  "within_atoms b q = b * (2 ^ 64 - decay q) div 9223372036854776760"

lemma within_atoms_mono: "q \<le> q' \<Longrightarrow> q' \<le> 4380 \<Longrightarrow> within_atoms b q \<le> within_atoms b q'"
  unfolding within_atoms_def
  by (intro div_le_mono mult_le_mono2 diff_le_mono2 decay_antimono)

lemma within_atoms_0: "within_atoms b 0 = 0"
  by (simp add: within_atoms_def decay_0)

lemma within_atoms_end: "within_atoms b 4380 = b"
  by (simp add: within_atoms_def decay_half_life)

lemma within_atoms_le: "q \<le> 4380 \<Longrightarrow> within_atoms b q \<le> b"
  using within_atoms_mono [of q 4380 b] by (simp add: within_atoms_end)

lemma issuance_within_half_life_ok:
  assumes "unat q \<le> 4380"
  shows "\<exists>v. issuance_within_half_life_at_quantum b q = Inr v
    \<and> unat v = within_atoms (unat b) (unat q)"
proof -
  obtain f where f: "q64_pow q = Inr f" "unat f = decay (unat q)"
    using q64_pow_decay by blast
  have fle: "unat f \<le> 2 ^ 64" using f decay_le_one by simp
  obtain p where p: "checked_sub Q64_ONE f = Some p" "unat p = 2 ^ 64 - decay (unat q)"
    using fle f by (metis checked_sub_ok unat_Q64_ONE)
  have "unat HALF_LIFE_END_FACTOR_Q64 \<le> unat Q64_ONE"
    by (simp add: Q64_ONE_def HALF_LIFE_END_FACTOR_Q64_def)
  then obtain n where n: "checked_sub Q64_ONE HALF_LIFE_END_FACTOR_Q64 = Some n"
    "unat n = 9223372036854776760"
    by (rule checked_sub_ok) (simp add: Q64_ONE_def HALF_LIFE_END_FACTOR_Q64_def)
  have ub: "unat (ucast b :: u128) = unat b" by (simp add: mach)
  have "unat b * unat p \<le> (2 ^ 64 - 1) * 2 ^ 64"
    using unat_u64_bound [of b] p by (intro mult_mono) auto
  also have "\<dots> < 2 ^ LENGTH(128)" by simp
  finally obtain s where s: "checked_mul (ucast b) p = Some s"
    "unat s = unat b * (2 ^ 64 - decay (unat q))"
    by (metis checked_mul_ok ub p(2))
  have sd: "unat (s div n) = within_atoms (unat b) (unat q)"
    by (simp add: unat_div_distrib within_atoms_def s n)
  have "within_atoms (unat b) (unat q) < 2 ^ LENGTH(64)"
    using within_atoms_le [OF assms, of "unat b"] unat_u64_bound [of b] by simp
  then obtain v :: u64 where v: "try_from (s div n) = Some v"
    "unat v = within_atoms (unat b) (unat q)"
    by (metis try_from_ok sd)
  have "\<not> HALF_LIFE_QUANTA < q"
    using assms by (simp add: HALF_LIFE_QUANTA_def word_less_nat_alt)
  then show ?thesis
    using f p n s v by (simp add: issuance_within_half_life_at_quantum_def)
qed


text \<open>Atoms remaining after \<open>k\<close> half-lives: the ceiling of \<open>10^17 / 2^k\<close>, and nothing at the end.\<close>

definition remaining_atoms :: "nat \<Rightarrow> nat" where
  "remaining_atoms k =
    (if 57 \<le> k then 0
     else 10 ^ 17 div 2 ^ k + (if 10 ^ 17 mod 2 ^ k = (0::nat) then 0 else 1))"

lemma ceil_div_antimono:
  assumes "0 < d" "d \<le> (d' :: nat)"
  shows "n div d' + (if n mod d' = 0 then 0 else 1) \<le> n div d + (if n mod d = 0 then 0 else 1)"
proof -
  have "n div d' \<le> n div d" using assms by (simp add: div_le_mono2)
  moreover have "n mod d' = 0" if "n mod d = 0" "n div d' = n div d"
  proof -
    have "n = d * (n div d)" using that by auto
    also have "\<dots> \<le> d' * (n div d')" using assms that by simp
    finally show ?thesis
      by (simp add: minus_mult_div_eq_mod [symmetric])
  qed
  ultimately show ?thesis by (cases "n div d' = n div d") auto
qed

lemma remaining_atoms_antimono: "k \<le> k' \<Longrightarrow> remaining_atoms k' \<le> remaining_atoms k"
proof (cases "57 \<le> k'")
  case False
  assume "k \<le> k'"
  then have "(2::nat) ^ k \<le> 2 ^ k'" by simp
  then show ?thesis
    using ceil_div_antimono [of "2 ^ k" "2 ^ k'" "10 ^ 17"] False \<open>k \<le> k'\<close>
    unfolding remaining_atoms_def by simp
qed (simp add: remaining_atoms_def)

lemma remaining_atoms_0: "remaining_atoms 0 = 10 ^ 17"
  by (simp add: remaining_atoms_def)

lemma remaining_atoms_le: "remaining_atoms k \<le> 10 ^ 17"
  using remaining_atoms_antimono [of 0 k] remaining_atoms_0 by simp

lemma remaining_atoms_end: "57 \<le> k \<Longrightarrow> remaining_atoms k = 0"
  by (simp add: remaining_atoms_def)

lemma remaining_atoms_at_boundary_ok:
  "\<exists>v. remaining_atoms_at_half_life_boundary k = Inr v \<and> unat v = remaining_atoms (unat k)"
proof (cases "57 \<le> k")
  case True
  then show ?thesis
    by (simp add: remaining_atoms_at_half_life_boundary_def remaining_atoms_def
        TERMINAL_HALF_LIVES_def word_le_nat_alt)
next
  case False
  then have k: "unat k < 57" by (simp add: word_le_nat_alt)
  define d where "d = push_bit (unat k) (1 :: u128)"
  have "(2::nat) ^ unat k < 2 ^ LENGTH(128)"
    by (rule power_strict_increasing) (use k in auto)
  moreover have "d = word_of_nat (2 ^ unat k)" by (simp add: d_def push_bit_eq_mult)
  ultimately have d: "unat d = 2 ^ unat k" by (simp only: unat_word_of_nat_small)
  define m where "m = (ucast MAX_SUPPLY_ATOMS :: u128)"
  have m: "unat m = 10 ^ 17" by (simp add: m_def mach MAX_SUPPLY_ATOMS_def)
  have q: "unat (m div d) = 10 ^ 17 div 2 ^ unat k" "unat (m mod d) = 10 ^ 17 mod 2 ^ unat k"
    by (simp_all add: unat_div_distrib unat_mod_distrib m d)
  have c: "unat (ceil_div_u128 m d) = remaining_atoms (unat k)"
  proof -
    have "10 ^ 17 div 2 ^ unat k < (10 ^ 17 + 1 :: nat)"
      by (rule le_less_trans [OF div_le_dividend]) simp
    then have "unat (m div d) + unat (1 :: u128) < 2 ^ LENGTH(128)" unfolding q by simp
    then have "unat (m div d + 1) = unat (m div d) + 1" by (simp add: unat_add_small)
    moreover have "m mod d = 0 \<longleftrightarrow> 10 ^ 17 mod 2 ^ unat k = (0::nat)"
      using q(2) by (metis unat_eq_zero)
    ultimately show ?thesis
      using k by (simp add: ceil_div_u128_def remaining_atoms_def q)
  qed
  have "unat (ceil_div_u128 m d) < 2 ^ LENGTH(64)"
    unfolding c using remaining_atoms_le [of "unat k"] by simp
  then obtain v :: u64 where "try_from (ceil_div_u128 m d) = Some v" "unat v = remaining_atoms (unat k)"
    using try_from_ok c by metis
  moreover have "\<not> TERMINAL_HALF_LIVES \<le> k" "k < 128"
    using k by (simp_all add: TERMINAL_HALF_LIVES_def word_le_nat_alt word_less_nat_alt)
  ultimately show ?thesis
    by (simp add: remaining_atoms_at_half_life_boundary_def d_def m_def)
qed

text \<open>Linear interpolation of \<open>f\<close> inside steps of width \<open>n\<close>, rounded down.\<close>

definition interp :: "(nat \<Rightarrow> nat) \<Rightarrow> nat \<Rightarrow> nat \<Rightarrow> nat" where
  "interp f n w = f (w div n) + (f (w div n + 1) - f (w div n)) * (w mod n) div n"

lemma interp_le:
  assumes "f (w div n) \<le> f (w div n + 1)"
  shows "interp f n w \<le> f (w div n + 1)"
proof (cases "n = 0")
  case False
  let ?d = "f (w div n + 1) - f (w div n)"
  have "?d * (w mod n) div n \<le> ?d * n div n"
    using False by (intro div_le_mono mult_le_mono2) simp
  then show ?thesis using False assms by (simp add: interp_def)
qed (use assms in \<open>simp add: interp_def\<close>)

lemma interp_mono:
  assumes mono: "\<And>i j. i \<le> j \<Longrightarrow> j \<le> N \<Longrightarrow> f i \<le> f j"
    and "w \<le> w'" "w' < N * n"
  shows "interp f n w \<le> interp f n w'"
proof (cases "w div n = w' div n")
  case True
  have "w mod n \<le> w' mod n"
    using assms(2) True by (metis div_mult_mod_eq nat_add_left_cancel_le)
  then show ?thesis
    unfolding interp_def True by (intro add_left_mono div_le_mono mult_le_mono2)
next
  case False
  have lt: "w div n < w' div n" using False assms(2) by (simp add: div_le_mono le_neq_implies_less)
  have N: "w' div n < N" using assms(3) by (rule less_mult_imp_div_less)
  have "interp f n w \<le> f (w div n + 1)" by (rule interp_le, rule mono) (use lt N in auto)
  also have "\<dots> \<le> f (w' div n)" by (rule mono) (use lt N in auto)
  also have "\<dots> \<le> interp f n w'" by (simp add: interp_def)
  finally show ?thesis .
qed

text \<open>The cumulative issuance curve over the natural numbers (time in nanoseconds).\<close>

definition half_life_budget :: "nat \<Rightarrow> nat" where
  "half_life_budget k = remaining_atoms k - remaining_atoms (k + 1)"

definition issuance_atoms :: "nat \<Rightarrow> nat" where
  "issuance_atoms t =
    (let k = t div 94608000000000000; w = t mod 94608000000000000
     in if 57 \<le> k then 10 ^ 17
        else 10 ^ 17 - remaining_atoms k + interp (within_atoms (half_life_budget k)) 21600000000000 w)"

lemma quantum_lt: "t mod 94608000000000000 div 21600000000000 < (4380 :: nat)"
  by (rule less_mult_imp_div_less) simp

lemma target_issuance_ok:
  "\<exists>v. target_issuance_atoms t = Inr v \<and> unat v = issuance_atoms (unat t)"
proof -
  define k w where "k = t div HALF_LIFE_NS" and "w = t mod HALF_LIFE_NS"
  have kw: "unat k = unat t div 94608000000000000" "unat w = unat t mod 94608000000000000"
    by (simp_all add: k_def w_def HALF_LIFE_NS_def unat_div_distrib unat_mod_distrib)
  show ?thesis
  proof (cases "57 \<le> unat k")
    case True
    then have "ucast TERMINAL_HALF_LIVES \<le> k"
      by (simp add: word_le_nat_alt TERMINAL_HALF_LIVES_def)
    with True show ?thesis
      by (simp add: target_issuance_atoms_def issuance_atoms_def Let_def k_def [symmetric] kw
          MAX_SUPPLY_ATOMS_def)
  next
    case False
    then have notend: "\<not> ucast TERMINAL_HALF_LIVES \<le> k"
      by (simp add: word_le_nat_alt TERMINAL_HALF_LIVES_def)
    define Q where "Q = EMISSION_QUANTUM_NS"
    have Q: "unat Q = 21600000000000" by (simp add: Q_def EMISSION_QUANTUM_NS_def)
    obtain k' :: u32 where k': "try_from k = Some k'" "unat k' = unat k"
      using False try_from_ok [of k, where ?'b = 32] by auto
    have k1: "unat (k' + 1) = unat k + 1"
      using False k' by (simp add: unat_add_small)
    obtain sr er where r: "remaining_atoms_at_half_life_boundary k' = Inr sr"
      "unat sr = remaining_atoms (unat k)"
      "remaining_atoms_at_half_life_boundary (k' + 1) = Inr er"
      "unat er = remaining_atoms (unat k + 1)"
      using remaining_atoms_at_boundary_ok [of k'] remaining_atoms_at_boundary_ok [of "k' + 1"]
      by (auto simp: k' k1)
    have anti: "unat er \<le> unat sr" unfolding r by (rule remaining_atoms_antimono) simp
    then obtain b where b: "checked_sub sr er = Some b"
      "unat b = half_life_budget (unat k)"
      using r unfolding half_life_budget_def by (metis checked_sub_ok)
    have max: "unat MAX_SUPPLY_ATOMS = 10 ^ 17" by (simp add: MAX_SUPPLY_ATOMS_def)
    then obtain base where base: "checked_sub MAX_SUPPLY_ATOMS sr = Some base"
      "unat base = 10 ^ 17 - remaining_atoms (unat k)"
      using remaining_atoms_le [of "unat k"] r by (metis checked_sub_ok)
    define q where "q = unat w div 21600000000000"
    have q: "q < 4380" unfolding q_def kw by (rule quantum_lt)
    have "unat (w div Q) = q" by (simp add: unat_div_distrib Q q_def)
    then obtain qw :: u64 where qw: "try_from (w div Q) = Some qw" "unat qw = q"
      using q try_from_ok [of "w div Q", where ?'b = 64] by auto
    have q1: "unat (qw + 1) = q + 1" using q qw by (simp add: unat_add_small)
    obtain i0 i1 where i: "issuance_within_half_life_at_quantum b qw = Inr i0"
      "unat i0 = within_atoms (unat b) q"
      "issuance_within_half_life_at_quantum b (qw + 1) = Inr i1"
      "unat i1 = within_atoms (unat b) (q + 1)"
      using issuance_within_half_life_ok [of qw b] issuance_within_half_life_ok [of "qw + 1" b] q
      by (auto simp: qw q1)
    have i01: "unat i0 \<le> unat i1" and i1b: "unat i1 \<le> unat b"
      unfolding i using q by (auto intro: within_atoms_mono within_atoms_le)
    then obtain dq where dq: "checked_sub i1 i0 = Some dq" "unat dq = unat i1 - unat i0"
      by (metis checked_sub_ok)
    define wq where "wq = w mod Q"
    have wq: "unat wq = unat w mod 21600000000000" by (simp add: wq_def unat_mod_distrib Q)
    have udq: "unat (ucast dq :: u128) = unat dq" by (simp add: mach)
    have "unat dq * unat wq \<le> 2 ^ 64 * 21600000000000"
      using unat_u64_bound [of dq] by (intro mult_mono) (auto simp: wq intro: less_imp_le)
    also have "\<dots> < 2 ^ LENGTH(128)" by simp
    finally obtain sc where sc: "checked_mul (ucast dq) wq = Some sc" "unat sc = unat dq * unat wq"
      by (metis checked_mul_ok udq)
    have scq: "unat (sc div Q) = (unat i1 - unat i0) * (unat w mod 21600000000000) div 21600000000000"
      by (simp add: unat_div_distrib Q sc dq wq)
    have intp: "unat i0 + unat (sc div Q) = interp (within_atoms (unat b)) 21600000000000 (unat w)"
      unfolding scq interp_def q_def [symmetric] i by (rule refl)
    have part: "unat i0 + unat (sc div Q) \<le> unat i1"
      unfolding intp unfolding i(4) q_def
      by (rule interp_le) (use i01 in \<open>simp only: i q_def\<close>)
    then have "unat (sc div Q) < 2 ^ LENGTH(64)" using unat_u64_bound [of i1] by simp
    then obtain pt :: u64 where pt: "try_from (sc div Q) = Some pt" "unat pt = unat (sc div Q)"
      by (rule try_from_ok)
    have tot: "unat base + unat i0 + unat pt \<le> 10 ^ 17"
    proof -
      have "unat b \<le> remaining_atoms (unat k)" using b by (simp add: half_life_budget_def)
      with part i1b base remaining_atoms_le [of "unat k"] show ?thesis
        unfolding pt(2) by linarith
    qed
    then have "unat base + unat i0 < 2 ^ LENGTH(64)" by simp
    then obtain s0 where s0: "checked_add base i0 = Some s0" "unat s0 = unat base + unat i0"
      by (rule checked_add_ok)
    have "unat s0 + unat pt < 2 ^ LENGTH(64)" using tot s0 by simp
    then obtain s1 where s1: "checked_add s0 pt = Some s1" "unat s1 = unat s0 + unat pt"
      by (rule checked_add_ok)
    have "target_issuance_atoms t = Inr s1"
      unfolding target_issuance_atoms_def Let_def k_def [symmetric] w_def [symmetric]
        Q_def [symmetric] wq_def [symmetric]
      by (simp only: notend k'(1) r(1,3) b(1) base(1) qw(1) i(1,3) dq(1) sc(1) pt(1) s0(1) s1(1)
          rbind_simps ok_or_simps if_False Option.bind.bind_lunit)
    moreover have "unat s1 = issuance_atoms (unat t)"
      using False intp
      by (simp add: issuance_atoms_def Let_def kw [symmetric] s1 s0 pt b base)
    ultimately show ?thesis by blast
  qed
qed

lemma issuance_atoms_lower:
  "t div 94608000000000000 = k \<Longrightarrow> k < 57 \<Longrightarrow> 10 ^ 17 - remaining_atoms k \<le> issuance_atoms t"
  by (simp add: issuance_atoms_def Let_def)

lemma issuance_atoms_upper:
  assumes "t div 94608000000000000 = k" "k < 57"
  shows "issuance_atoms t \<le> 10 ^ 17 - remaining_atoms (k + 1)"
proof -
  define w where "w = t mod 94608000000000000"
  have q: "w div 21600000000000 < 4380" unfolding w_def by (rule quantum_lt)
  have "interp (within_atoms (half_life_budget k)) 21600000000000 w
      \<le> within_atoms (half_life_budget k) (w div 21600000000000 + 1)"
    by (rule interp_le, rule within_atoms_mono) (use q in auto)
  also have "\<dots> \<le> half_life_budget k" by (rule within_atoms_le) (use q in auto)
  finally have "issuance_atoms t \<le> 10 ^ 17 - remaining_atoms k + half_life_budget k"
    using assms by (simp add: issuance_atoms_def Let_def w_def)
  moreover have "remaining_atoms (k + 1) \<le> remaining_atoms k"
    by (rule remaining_atoms_antimono) simp
  ultimately show ?thesis
    using remaining_atoms_le [of k] unfolding half_life_budget_def by linarith
qed

lemma issuance_atoms_terminal: "57 \<le> t div 94608000000000000 \<Longrightarrow> issuance_atoms t = 10 ^ 17"
  by (simp add: issuance_atoms_def)

lemma issuance_atoms_le: "issuance_atoms t \<le> 10 ^ 17"
  using issuance_atoms_upper [OF refl, of t] issuance_atoms_terminal [of t]
  by (cases "57 \<le> t div 94608000000000000") auto

lemma issuance_atoms_boundary:
  "k \<le> 57 \<Longrightarrow> issuance_atoms (k * 94608000000000000) = 10 ^ 17 - remaining_atoms k"
  by (simp add: issuance_atoms_def interp_def within_atoms_0 remaining_atoms_end)

lemma issuance_atoms_mono: "t \<le> t' \<Longrightarrow> issuance_atoms t \<le> issuance_atoms t'"
proof -
  assume le: "t \<le> t'"
  define k k' where "k = t div 94608000000000000" and "k' = t' div 94608000000000000"
  have kk: "k \<le> k'" unfolding k_def k'_def using le by (rule div_le_mono)
  consider "57 \<le> k'" | "k < k'" "k' < 57" | "k = k'" "k' < 57" using kk by linarith
  then show ?thesis
  proof cases
    case 1
    then show ?thesis using issuance_atoms_le issuance_atoms_terminal k'_def by simp
  next
    case 2
    have "issuance_atoms t \<le> 10 ^ 17 - remaining_atoms (k + 1)"
      by (rule issuance_atoms_upper) (use 2 k_def in auto)
    also have "\<dots> \<le> 10 ^ 17 - remaining_atoms k'"
      by (rule diff_le_mono2, rule remaining_atoms_antimono) (use 2 in simp)
    also have "\<dots> \<le> issuance_atoms t'"
      by (rule issuance_atoms_lower) (use 2 k'_def in auto)
    finally show ?thesis .
  next
    case 3
    have "t mod 94608000000000000 \<le> t' mod 94608000000000000"
      using le 3 unfolding k_def k'_def by (metis div_mult_mod_eq nat_add_left_cancel_le)
    then have "interp (within_atoms (half_life_budget k)) 21600000000000 (t mod 94608000000000000)
      \<le> interp (within_atoms (half_life_budget k)) 21600000000000 (t' mod 94608000000000000)"
      by (intro interp_mono [where N = 4380] within_atoms_mono) auto
    then show ?thesis
      using 3 by (simp add: issuance_atoms_def Let_def k_def [symmetric] k'_def [symmetric])
  qed
qed

section \<open>Economic time\<close>

text \<open>
  Reference meaning of a cadence: the interval in force for the transition from score \<open>i\<close> to
  \<open>i + 1\<close> is that of the last segment activated at or before \<open>i\<close>.
\<close>

definition active_interval :: "MonetaryCadenceSegment list \<Rightarrow> nat \<Rightarrow> nat" where
  "active_interval segments i =
    unat (target_interval_ns (last (filter (\<lambda>g. unat (activation_score g) \<le> i) segments)))"

lemma validate_windows_sorted:
  "validate_cadence_windows segments = Inr () \<Longrightarrow>
    sorted_wrt (\<lambda>a b. activation_score a < activation_score b) segments"
proof (induction segments rule: validate_cadence_windows.induct)
  case (1 a b rest)
  then have ab: "activation_score a < activation_score b"
    and rest: "sorted_wrt (\<lambda>a b. activation_score a < activation_score b) (b # rest)"
    by (auto split: if_splits)
  have "activation_score a < activation_score c" if "c \<in> set rest" for c
    using ab rest that by (auto intro: less_trans)
  with ab rest show ?case by simp
qed auto

lemma active_interval_head:
  assumes "sorted_wrt (\<lambda>a b. activation_score a < activation_score b) (segment # nxt # rest)"
    and "unat (activation_score segment) \<le> i" "i < unat (activation_score nxt)"
  shows "active_interval (segment # nxt # rest) i = unat (target_interval_ns segment)"
proof -
  have "filter (\<lambda>g. unat (activation_score g) \<le> i) (nxt # rest) = []"
    using assms by (fastforce simp: filter_empty_conv word_less_nat_alt)
  then show ?thesis using assms(2) by (simp add: active_interval_def)
qed

lemma active_interval_tail:
  assumes "unat (activation_score nxt) \<le> i"
  shows "active_interval (segment # nxt # rest) i = active_interval (nxt # rest) i"
  using assms by (simp add: active_interval_def)

lemma active_interval_bound: "active_interval segments i \<le> 2 ^ 64 - 1"
  unfolding active_interval_def
  using unat_u64_bound [of "target_interval_ns (last (filter (\<lambda>g. unat (activation_score g) \<le> i) segments))"]
  by simp

lemma sum_active_bound: "(\<Sum>i = m..<n. active_interval segments i) \<le> (n - m) * (2 ^ 64 - 1)"
  using sum_bounded_above [of "{m..<n}" "active_interval segments" "2 ^ 64 - 1"]
    active_interval_bound by simp

lemma segment_step_ok:
  fixes a e d :: u64
  assumes "unat a < unat e" "unat t \<le> unat a * (2 ^ 64 - 1)"
  obtains c t' where
    "checked_mul (ucast (e - a) :: u128) (ucast d) = Some c"
    "checked_add t c = Some t'"
    "unat t' = unat t + (unat e - unat a) * unat d"
    "unat t' \<le> unat e * (2 ^ 64 - 1)"
proof -
  have le: "(unat e - unat a) * unat d \<le> (unat e - unat a) * (2 ^ 64 - 1)"
    using unat_u64_bound [of d] by (intro mult_le_mono2) simp
  have sum: "unat t + (unat e - unat a) * unat d \<le> unat e * (2 ^ 64 - 1)"
  proof -
    have "unat a * (2 ^ 64 - 1) + (unat e - unat a) * (2 ^ 64 - 1) = unat e * (2 ^ 64 - 1)"
      using assms(1) by (simp add: add_mult_distrib [symmetric])
    then show ?thesis using le assms(2) by linarith
  qed
  have "unat e * (2 ^ 64 - 1) \<le> (2 ^ 64 - 1) * (2 ^ 64 - 1)"
    using unat_u64_bound [of e] by (intro mult_le_mono1) simp
  also have "\<dots> < (2::nat) ^ 128" by simp
  finally have lt: "unat e * (2 ^ 64 - 1) < 2 ^ 128" .
  have ea: "unat (ucast (e - a) :: u128) = unat e - unat a"
    using assms(1) by (simp add: mach unat_sub_le word_le_nat_alt)
  have ud: "unat (ucast d :: u128) = unat d" by (simp add: mach)
  have "unat (ucast (e - a) :: u128) * unat (ucast d :: u128) < 2 ^ LENGTH(128)"
    unfolding ea ud using sum lt by simp
  then obtain c where c: "checked_mul (ucast (e - a) :: u128) (ucast d) = Some c"
    "unat c = (unat e - unat a) * unat d"
    by (rule checked_mul_ok) (simp only: ea ud)
  have "unat t + unat c < 2 ^ LENGTH(128)" using c sum lt by simp
  then obtain t' where "checked_add t c = Some t'" "unat t' = unat t + unat c"
    by (rule checked_add_ok)
  with c sum show ?thesis by (intro that [of c t']) auto
qed

lemma economic_time_loop_ok:
  assumes "sorted_wrt (\<lambda>a b. activation_score a < activation_score b) (segment # rest)"
    and "unat t \<le> unat (activation_score segment) * (2 ^ 64 - 1)"
  shows "\<exists>t'. economic_time_loop score (segment # rest) t = Inr t' \<and>
    unat t' = unat t + (\<Sum>i = unat (activation_score segment)..<unat score.
      active_interval (segment # rest) i)"
  using assms
proof (induction rest arbitrary: segment t)
  case Nil
  show ?case
  proof (cases "score \<le> activation_score segment")
    case False
    then have "unat (activation_score segment) < unat score" by (simp add: word_le_nat_alt)
    then obtain c t' where "checked_mul (ucast (score - activation_score segment) :: u128)
        (ucast (target_interval_ns segment)) = Some c"
      "checked_add t c = Some t'"
      "unat t' = unat t + (unat score - unat (activation_score segment)) * unat (target_interval_ns segment)"
      by (rule segment_step_ok [OF _ Nil.prems(2), of score "target_interval_ns segment"])
    moreover have "(\<Sum>i = unat (activation_score segment)..<unat score. active_interval [segment] i)
      = (unat score - unat (activation_score segment)) * unat (target_interval_ns segment)"
      by (subst sum.cong [OF refl, where h = "\<lambda>_. unat (target_interval_ns segment)"])
        (auto simp: active_interval_def)
    ultimately show ?thesis using False by (simp add: not_le)
  qed (simp add: word_le_nat_alt)
next
  case (Cons nxt rest)
  define a where "a = activation_score segment"
  define b where "b = activation_score nxt"
  show ?case
  proof (cases "score \<le> a")
    case True
    then show ?thesis by (simp add: a_def word_le_nat_alt)
  next
    case False
    define e where "e = min score b"
    have ab: "unat a < unat b" using Cons.prems(1) by (simp add: a_def b_def word_less_nat_alt)
    have as: "unat a < unat score" using False by (simp add: word_le_nat_alt)
    have ue: "unat e = min (unat score) (unat b)"
      by (simp add: e_def min_def word_le_nat_alt)
    have ae: "unat a < unat e" using ab as by (simp add: ue)
    obtain c t' where step: "checked_mul (ucast (e - a) :: u128)
        (ucast (target_interval_ns segment)) = Some c"
      "checked_add t c = Some t'"
      "unat t' = unat t + (unat e - unat a) * unat (target_interval_ns segment)"
      "unat t' \<le> unat e * (2 ^ 64 - 1)"
      by (rule segment_step_ok [OF ae Cons.prems(2) [folded a_def], of "target_interval_ns segment"])
    have first: "(\<Sum>i = unat a..<unat e. active_interval (segment # nxt # rest) i)
      = (unat e - unat a) * unat (target_interval_ns segment)"
      by (subst sum.cong [OF refl, where h = "\<lambda>_. unat (target_interval_ns segment)"])
        (use Cons.prems(1) in \<open>auto simp: ue a_def b_def intro!: active_interval_head\<close>)
    have loop: "economic_time_loop score (segment # nxt # rest) t =
      (if e = score then Inr t' else economic_time_loop score (nxt # rest) t')"
    proof -
      have "\<not> e \<le> a" using ae by (simp add: word_le_nat_alt)
      then show ?thesis
        using False step
        by (simp only: economic_time_loop.simps(2) [of score segment] list.case Let_def
            a_def [symmetric] b_def [symmetric] e_def [symmetric] if_False rbind_simps ok_or_simps)
    qed
    show ?thesis
    proof (cases "e = score")
      case True
      then show ?thesis using loop step(3) first by (simp add: a_def)
    next
      case False
      then have eb: "e = b" "unat b \<le> unat score"
        by (auto simp: e_def min_def word_le_nat_alt split: if_splits)
      have "\<exists>t''. economic_time_loop score (nxt # rest) t' = Inr t'' \<and>
        unat t'' = unat t' + (\<Sum>i = unat b..<unat score. active_interval (nxt # rest) i)"
        unfolding b_def
        by (rule Cons.IH) (use Cons.prems(1) step(4) eb(1) b_def in auto)
      moreover have "(\<Sum>i = unat b..<unat score. active_interval (nxt # rest) i)
        = (\<Sum>i = unat b..<unat score. active_interval (segment # nxt # rest) i)"
        by (rule sum.cong) (auto simp: b_def active_interval_tail)
      moreover have "(\<Sum>i = unat a..<unat score. active_interval (segment # nxt # rest) i) =
        (\<Sum>i = unat a..<unat b. active_interval (segment # nxt # rest) i)
        + (\<Sum>i = unat b..<unat score. active_interval (segment # nxt # rest) i)"
        using ab eb by (simp add: sum.atLeastLessThan_concat)
      ultimately show ?thesis
        using loop False first step(3) eb(1) unfolding a_def by auto
    qed
  qed
qed

section \<open>Interfaces\<close>

definition atoms_of :: "'e + u64 \<Rightarrow> nat" where
  "atoms_of r = (case r of Inr v \<Rightarrow> unat v | Inl _ \<Rightarrow> 0)"

lemma atoms_of_Inr [simp]: "atoms_of (Inr v) = unat v"
  by (simp add: atoms_of_def)

text \<open>
  A cumulative supply schedule together with the reward of one score, which is the difference of
  two consecutive cumulative values. Whatever the curve, the rewards telescope.
\<close>

locale supply_schedule =
  fixes cumulative :: "u64 \<Rightarrow> 'e + u64"
    and reward :: "u64 \<Rightarrow> 'e + u64"
    and overflow :: 'e
  assumes cumulative_total: "\<exists>v. cumulative s = Inr v"
    and cumulative_mono: "s \<le> s' \<Longrightarrow> cumulative s = Inr v \<Longrightarrow> cumulative s' = Inr v' \<Longrightarrow> v \<le> v'"
    and cumulative_start: "cumulative 0 = Inr 0"
    and reward_start: "reward 0 = Inr 0"
    and reward_step: "s \<noteq> 0 \<Longrightarrow> reward s =
      rbind (cumulative (s - 1)) (\<lambda>p. rbind (cumulative s) (\<lambda>c. ok_or overflow (checked_sub c p)))"
begin

lemma cumulative_mono_nat: "i \<le> j \<Longrightarrow> atoms_of (cumulative i) \<le> atoms_of (cumulative j)"
  using cumulative_total [of i] cumulative_total [of j] cumulative_mono [of i j]
  by (auto simp: atoms_of_def word_le_nat_alt)

lemma reward_ok:
  "\<exists>v. reward s = Inr v \<and> unat v = atoms_of (cumulative s) - atoms_of (cumulative (s - 1))"
proof (cases "s = 0")
  case True
  then show ?thesis by (simp add: reward_start cumulative_start atoms_of_def)
next
  case False
  obtain p c where pc: "cumulative (s - 1) = Inr p" "cumulative s = Inr c" using cumulative_total by meson
  have "s - 1 \<le> s" using False by (simp add: word_le_nat_alt unat_minus_one)
  then have "p \<le> c" using cumulative_mono pc by blast
  then show ?thesis
    using False pc by (simp add: reward_step atoms_of_def checked_sub_def unat_sub_le)
qed

lemma rewards_between:
  assumes "m \<le> n" "n < 2 ^ 64"
  shows "atoms_of (cumulative (word_of_nat n)) = atoms_of (cumulative (word_of_nat m))
    + (\<Sum>i = Suc m..n. atoms_of (reward (word_of_nat i)))"
  using assms
proof (induction n rule: dec_induct)
  case (step n)
  let ?s = "word_of_nat (Suc n) :: u64"
  have prev: "?s - 1 = word_of_nat n" by simp
  obtain v where v: "reward ?s = Inr v"
    "unat v = atoms_of (cumulative ?s) - atoms_of (cumulative (word_of_nat n))"
    using reward_ok [of ?s] unfolding prev by blast
  have "(word_of_nat n :: u64) \<le> ?s"
    using step.prems by (simp add: word_le_nat_alt unat_word_of_nat_small del: of_nat_Suc)
  then have "atoms_of (cumulative (word_of_nat n)) \<le> atoms_of (cumulative ?s)"
    by (rule cumulative_mono_nat)
  moreover have "atoms_of (reward ?s) = unat v" by (simp add: v atoms_of_def del: of_nat_Suc)
  ultimately have "atoms_of (cumulative ?s)
      = atoms_of (cumulative (word_of_nat n)) + atoms_of (reward ?s)" using v(2) by linarith
  moreover have "(\<Sum>i = Suc m..Suc n. atoms_of (reward (word_of_nat i)))
      = (\<Sum>i = Suc m..n. atoms_of (reward (word_of_nat i))) + atoms_of (reward ?s)"
    using step.hyps by (subst sum.nat_ivl_Suc') (auto simp del: of_nat_Suc)
  ultimately show ?case using step by linarith
qed simp

end

text \<open>A cadence that passed validation.\<close>

locale valid_cadence =
  fixes segments :: "MonetaryCadenceSegment list"
  assumes valid: "validate_cadence_segments segments = Inr ()"
begin

lemma economic_time_ok:
  "\<exists>t. economic_time_ns_for_score score segments = Inr t
    \<and> unat t = (\<Sum>i < unat score. active_interval segments i)"
proof (cases segments)
  case Nil
  then show ?thesis using valid by (simp add: validate_cadence_segments_def)
next
  case (Cons segment rest)
  have a: "activation_score segment = 0" and w: "validate_cadence_windows segments = Inr ()"
    using valid Cons by (auto simp: validate_cadence_segments_def split: if_splits)
  have "\<exists>t'. economic_time_loop score (segment # rest) 0 = Inr t' \<and>
    unat t' = unat (0 :: u128) + (\<Sum>i = unat (activation_score segment)..<unat score.
      active_interval (segment # rest) i)"
    by (rule economic_time_loop_ok) (use validate_windows_sorted [OF w] Cons in auto)
  then show ?thesis
    using valid by (simp add: economic_time_ns_for_score_def Cons a lessThan_atLeast0)
qed

lemma total_supply_ok:
  "\<exists>v. total_supply_atoms_for_score score segments = Inr v
    \<and> unat v = issuance_atoms (\<Sum>i < unat score. active_interval segments i)"
  using economic_time_ok [of score] target_issuance_ok
  by (auto simp: total_supply_atoms_for_score_def) metis

lemma economic_time_mono:
  "unat s \<le> unat s' \<Longrightarrow>
    (\<Sum>i < unat s. active_interval segments i) \<le> (\<Sum>i < unat s'. active_interval segments i)"
  by (rule sum_mono2) auto

end

sublocale valid_cadence \<subseteq> supply_schedule
  "\<lambda>score. total_supply_atoms_for_score score segments"
  "\<lambda>score. subsidy_atoms_for_score score segments" ArithmeticOverflow
proof unfold_locales
  fix s s' v v'
  show "\<exists>v. total_supply_atoms_for_score s segments = Inr v"
    using total_supply_ok by blast
  show "v \<le> v'" if "s \<le> s'" "total_supply_atoms_for_score s segments = Inr v"
    "total_supply_atoms_for_score s' segments = Inr v'"
    using that total_supply_ok [of s] total_supply_ok [of s']
      issuance_atoms_mono [OF economic_time_mono, of s s']
    by (auto simp: word_le_nat_alt)
  have "issuance_atoms 0 = 0" using issuance_atoms_boundary [of 0] by (simp add: remaining_atoms_0)
  then show "total_supply_atoms_for_score 0 segments = Inr 0"
    using total_supply_ok [of 0] by (auto simp: unat_eq_zero)
  show "subsidy_atoms_for_score 0 segments = Inr 0" by (simp add: subsidy_atoms_for_score_def)
  show "subsidy_atoms_for_score s segments = rbind (total_supply_atoms_for_score (s - 1) segments)
    (\<lambda>p. rbind (total_supply_atoms_for_score s segments)
    (\<lambda>c. ok_or ArithmeticOverflow (checked_sub c p)))" if "s \<noteq> 0"
    using that by (simp add: subsidy_atoms_for_score_def)
qed

context valid_cadence begin

lemmas supply_facts = cumulative_start reward_ok rewards_between

end

interpretation production: valid_cadence PRODUCTION_CADENCE_V3
  by unfold_locales (simp add: PRODUCTION_CADENCE_V3_def validate_cadence_segments_def)

section \<open>Properties\<close>

lemma ceil_div_alt:
  assumes "0 < (d :: nat)"
  shows "(n + d - 1) div d = n div d + (if n mod d = 0 then 0 else 1)"
proof -
  have "n + d - 1 = n div d * d + (n mod d + d - 1)" using assms by simp
  then have "(n + d - 1) div d = n div d + (n mod d + d - 1) div d"
    using assms by (simp only: div_mult_self3)
  moreover have "(n mod d + d - 1) div d = (if n mod d = 0 then 0 else 1)"
  proof (cases "n mod d = 0")
    case False
    then have "n mod d + d - 1 = d + (n mod d - 1)" by simp
    moreover have "n mod d - 1 < d" using assms by (simp add: less_imp_diff_less)
    ultimately show ?thesis using False assms by (simp only: div_add_self1) simp
  qed (use assms in simp)
  ultimately show ?thesis by simp
qed

lemma valid_cadenceI: "validate_cadence_segments segments = Inr () \<Longrightarrow> valid_cadence segments"
  by (rule valid_cadence.intro)

lemma max_supply_nat: "unat MAX_SUPPLY_ATOMS = 10 ^ 17"
  by (simp add: MAX_SUPPLY_ATOMS_def)

text \<open>
  C10. Supply cap. For every cadence that passes validation and every score \<open>n\<close>, each subsidy up to
  \<open>n\<close> is computed without an arithmetic error, the subsidies of the scores \<open>1..n\<close> sum exactly to the
  total supply reported for \<open>n\<close>, and that supply never exceeds \<open>MAX_SUPPLY_ATOMS\<close>.
\<close>

theorem subsidies_sum_to_total_supply:
  assumes "validate_cadence_segments segments = Inr ()"
  shows "\<exists>t. total_supply_atoms_for_score n segments = Inr t
    \<and> unat t = (\<Sum>i = 1..unat n. atoms_of (subsidy_atoms_for_score (word_of_nat i) segments))
    \<and> (\<forall>s. \<exists>v. subsidy_atoms_for_score s segments = Inr v)
    \<and> t \<le> MAX_SUPPLY_ATOMS"
proof -
  note cad = valid_cadenceI [OF assms]
  obtain t where t: "total_supply_atoms_for_score n segments = Inr t" "unat t \<le> 10 ^ 17"
    using valid_cadence.total_supply_ok [OF cad, of n] issuance_atoms_le by metis
  have "atoms_of (total_supply_atoms_for_score n segments)
    = (\<Sum>i = 1..unat n. atoms_of (subsidy_atoms_for_score (word_of_nat i) segments))"
    using valid_cadence.supply_facts(3) [OF cad, of 0 "unat n"] unat_u64_bound [of n]
    by (simp add: valid_cadence.supply_facts(1) [OF cad])
  then show ?thesis
    using t valid_cadence.supply_facts(2) [OF cad] by (auto simp: word_le_nat_alt max_supply_nat)
qed

theorem subsidies_sum_to_total_supply_witness:
  "validate_cadence_segments PRODUCTION_CADENCE_V3 = Inr () \<and>
   (\<exists>t. total_supply_atoms_for_score 1000 PRODUCTION_CADENCE_V3 = Inr t
    \<and> unat t = (\<Sum>i = 1..unat (1000 :: u64). atoms_of (subsidy_atoms_for_score (word_of_nat i)
        PRODUCTION_CADENCE_V3))
    \<and> t \<le> MAX_SUPPLY_ATOMS)"
  using subsidies_sum_to_total_supply [OF production.valid, of 1000] production.valid by blast

text \<open>
  C35. The issuance curve is total and monotone in economic time, never exceeds the cap, and meets
  the documented boundary values: after \<open>k < 57\<close> half-lives exactly the ceiling of
  \<open>MAX_SUPPLY_ATOMS / 2^k\<close> atoms remain, and from the 57th half-life on nothing remains.
\<close>

theorem target_issuance_curve:
  "(\<exists>v. target_issuance_atoms t = Inr v \<and> v \<le> MAX_SUPPLY_ATOMS)
   \<and> (t \<le> t' \<longrightarrow> atoms_of (target_issuance_atoms t) \<le> atoms_of (target_issuance_atoms t'))
   \<and> (k < 57 \<longrightarrow> atoms_of (target_issuance_atoms (word_of_nat k * HALF_LIFE_NS))
        = 10 ^ 17 - (10 ^ 17 + 2 ^ k - 1) div 2 ^ k)
   \<and> (57 * HALF_LIFE_NS \<le> t \<longrightarrow> target_issuance_atoms t = Inr MAX_SUPPLY_ATOMS)"
proof (intro conjI impI)
  show "\<exists>v. target_issuance_atoms t = Inr v \<and> v \<le> MAX_SUPPLY_ATOMS"
    using target_issuance_ok [of t] issuance_atoms_le
    by (metis word_le_nat_alt max_supply_nat)
  show "atoms_of (target_issuance_atoms t) \<le> atoms_of (target_issuance_atoms t')" if "t \<le> t'"
    using target_issuance_ok [of t] target_issuance_ok [of t'] issuance_atoms_mono that
    by (auto simp: word_le_nat_alt)
  show "atoms_of (target_issuance_atoms (word_of_nat k * HALF_LIFE_NS))
        = 10 ^ 17 - (10 ^ 17 + 2 ^ k - 1) div 2 ^ k" if k: "k < 57"
  proof -
    have uk: "unat (word_of_nat k :: u128) = k" using k by (simp add: unat_word_of_nat_small)
    have H: "unat HALF_LIFE_NS = 94608000000000000" by (simp add: HALF_LIFE_NS_def)
    have "unat (word_of_nat k * HALF_LIFE_NS) = k * 94608000000000000"
      using k by (subst unat_mul_small) (simp_all add: uk H)
    moreover have "remaining_atoms k = (10 ^ 17 + 2 ^ k - 1) div 2 ^ k"
      using k ceil_div_alt [of "2 ^ k" "10 ^ 17"] by (simp add: remaining_atoms_def)
    ultimately show ?thesis
      using target_issuance_ok [of "word_of_nat k * HALF_LIFE_NS"] issuance_atoms_boundary [of k] k
      by auto
  qed
  show "target_issuance_atoms t = Inr MAX_SUPPLY_ATOMS" if "57 * HALF_LIFE_NS \<le> t"
  proof -
    have "57 * 94608000000000000 \<le> unat t"
      using that by (simp add: word_le_nat_alt HALF_LIFE_NS_def)
    then have "57 \<le> unat t div 94608000000000000"
      using div_le_mono [of "57 * 94608000000000000" "unat t" 94608000000000000] by simp
    then show ?thesis
      using target_issuance_ok [of t] issuance_atoms_terminal [of "unat t"] max_supply_nat
      by (metis word_eqI_unat)
  qed
qed


theorem target_issuance_curve_witness:
  "(0 :: u128) \<le> 1 \<and> (1 :: nat) < 57 \<and> 57 * HALF_LIFE_NS \<le> 57 * HALF_LIFE_NS
   \<and> atoms_of (target_issuance_atoms 0) \<le> atoms_of (target_issuance_atoms 1)
   \<and> atoms_of (target_issuance_atoms (word_of_nat 1 * HALF_LIFE_NS)) = 50000000000000000
   \<and> target_issuance_atoms (57 * HALF_LIFE_NS) = Inr MAX_SUPPLY_ATOMS"
  using target_issuance_curve [of 0 1 1] target_issuance_curve [of "57 * HALF_LIFE_NS" 0 0]
  by simp

text \<open>
  Economic time. Under a validated cadence the conversion of a score to nanoseconds never
  overflows, and it equals the sum, over the transitions \<open>0..<score\<close>, of the interval of the last
  segment activated at or before each transition.
\<close>

theorem economic_time_is_sum_of_intervals:
  assumes "validate_cadence_segments segments = Inr ()"
  shows "\<exists>t. economic_time_ns_for_score score segments = Inr t
    \<and> unat t = (\<Sum>i < unat score. active_interval segments i)"
  by (rule valid_cadence.economic_time_ok [OF valid_cadenceI [OF assms]])

theorem economic_time_is_sum_of_intervals_witness:
  "\<exists>t. economic_time_ns_for_score 5
      [\<lparr>activation_score = 0, target_interval_ns = 10\<rparr>,
       \<lparr>activation_score = 3, target_interval_ns = 7\<rparr>] = Inr t \<and> unat t = 44"
proof -
  let ?s = "[\<lparr>activation_score = 0, target_interval_ns = 10\<rparr>,
    \<lparr>activation_score = 3, target_interval_ns = 7\<rparr>] :: MonetaryCadenceSegment list"
  have "validate_cadence_segments ?s = Inr ()" by (simp add: validate_cadence_segments_def)
  from economic_time_is_sum_of_intervals [OF this, of 5] show ?thesis
    by (simp add: active_interval_def lessThan_nat_numeral lessThan_Suc)
qed

text \<open>
  C36. Fixed-point decay. For every exponent \<open>e\<close> the square-and-multiply loop succeeds and its result
  lies below the exact value \<open>2^64 * (DECAY_FACTOR_Q64 / 2^64)^e\<close> by at most \<open>e\<close>; one half-life of
  quanta gives exactly the frozen constant \<open>HALF_LIFE_END_FACTOR_Q64\<close>.
\<close>

theorem q64_pow_accuracy:
  "(\<exists>v. q64_pow e = Inr v
      \<and> real (unat v) \<le> 2 ^ 64 * (real (unat DECAY_FACTOR_Q64) / 2 ^ 64) ^ unat e
      \<and> 2 ^ 64 * (real (unat DECAY_FACTOR_Q64) / 2 ^ 64) ^ unat e - real (unat e) \<le> real (unat v))
   \<and> q64_pow HALF_LIFE_QUANTA = Inr HALF_LIFE_END_FACTOR_Q64"
proof
  show "\<exists>v. q64_pow e = Inr v
      \<and> real (unat v) \<le> 2 ^ 64 * (real (unat DECAY_FACTOR_Q64) / 2 ^ 64) ^ unat e
      \<and> 2 ^ 64 * (real (unat DECAY_FACTOR_Q64) / 2 ^ 64) ^ unat e - real (unat e) \<le> real (unat v)"
    using q64_pow_near [of e] unfolding q64_near_def q64_x_def .
  show "q64_pow HALF_LIFE_QUANTA = Inr HALF_LIFE_END_FACTOR_Q64"
    using q64_pow_half_life by (simp add: HALF_LIFE_QUANTA_def)
qed

lemma production_time: "(\<Sum>i < n. active_interval PRODUCTION_CADENCE_V3 i) = n * 500000000"
  by (simp add: active_interval_def PRODUCTION_CADENCE_V3_def)

text \<open>
  Coinbase maturity under the production cadence: a reward created at score \<open>r\<close> is mature at
  score \<open>c\<close> exactly when at least 7200 scores (one economic hour) separate them.
\<close>

theorem production_maturity:
  "economic_maturity_reached r c PRODUCTION_CADENCE_V3 = Inr (unat r + 7200 \<le> unat c)"
proof (cases "c < r")
  case True
  then show ?thesis by (simp add: economic_maturity_reached_def word_less_nat_alt)
next
  case False
  obtain tr tc where t: "economic_time_ns_for_score r PRODUCTION_CADENCE_V3 = Inr tr"
    "unat tr = unat r * 500000000"
    "economic_time_ns_for_score c PRODUCTION_CADENCE_V3 = Inr tc"
    "unat tc = unat c * 500000000"
    using production.economic_time_ok [of r] production.economic_time_ok [of c]
    unfolding production_time by blast
  have "COINBASE_MATURITY_NS \<le> saturating_sub tc tr \<longleftrightarrow> unat r + 7200 \<le> unat c"
    by (auto simp: word_le_nat_alt mach t COINBASE_MATURITY_NS_def)
  then show ?thesis using False t by (simp add: economic_maturity_reached_def)
qed

text \<open>
  Issuance over a range of scores: a reversed range is rejected, and otherwise the authorized
  issuance is exactly the sum of the subsidies of the scores in the range.
\<close>

theorem authorized_issuance_is_sum:
  assumes "validate_cadence_segments segments = Inr ()"
  shows "authorized_issuance_atoms m n segments =
    (if n < m then Inl NonMonotonicScoreRange
     else Inr (word_of_nat
       (\<Sum>i = Suc (unat m)..unat n. atoms_of (subsidy_atoms_for_score (word_of_nat i) segments))))"
proof (cases "n < m")
  case True
  then show ?thesis by (simp add: authorized_issuance_atoms_def)
next
  case False
  note cad = valid_cadenceI [OF assms]
  obtain a b where ab: "total_supply_atoms_for_score m segments = Inr a"
    "total_supply_atoms_for_score n segments = Inr b"
    using valid_cadence.total_supply_ok [OF cad] by meson
  have sum: "unat b = unat a
      + (\<Sum>i = Suc (unat m)..unat n. atoms_of (subsidy_atoms_for_score (word_of_nat i) segments))"
    using valid_cadence.supply_facts(3) [OF cad, of "unat m" "unat n"] unat_u64_bound [of n] False ab
    by (simp add: word_less_nat_alt)
  then have "word_of_nat (unat b) = word_of_nat (unat a) + (word_of_nat
      (\<Sum>i = Suc (unat m)..unat n. atoms_of (subsidy_atoms_for_score (word_of_nat i) segments)) :: u64)"
    by (simp only: of_nat_add)
  then have "b - a = word_of_nat
      (\<Sum>i = Suc (unat m)..unat n. atoms_of (subsidy_atoms_for_score (word_of_nat i) segments))"
    by simp
  moreover have "a \<le> b" using sum by (simp add: word_le_nat_alt)
  ultimately show ?thesis
    using False ab by (simp add: authorized_issuance_atoms_def checked_sub_def)
qed

theorem authorized_issuance_is_sum_witness:
  "authorized_issuance_atoms 5 4 PRODUCTION_CADENCE_V3 = Inl NonMonotonicScoreRange
   \<and> authorized_issuance_atoms 4 4 PRODUCTION_CADENCE_V3 = Inr 0"
  using authorized_issuance_is_sum [OF production.valid, of 5 4]
    authorized_issuance_is_sum [OF production.valid, of 4 4] by simp

end
