(* ===== verification/Pulse_Denomination.thy ===== *)
theory Pulse_Denomination
  imports Pulse_Prelude "HOL-Library.Sublist"
begin

text \<open>
  The human-readable denomination (\<open>denomination_v3.rs\<close>): eight-decimal formatting of atoms and the
  fail-closed decimal parser. Strings are lists of UTF-8 bytes; \<open>str::trim\<close> is modelled by the
  encodings of the Unicode \<open>White_Space\<close> characters.
\<close>

section \<open>The standard library functions the code calls\<close>

text \<open>\<open>{n:08}\<close> of \<open>format!\<close>, and \<open>str::parse::<u64>\<close> on a non-empty digit string.\<close>

fun pad_digits :: "nat \<Rightarrow> nat \<Rightarrow> string" where
  "pad_digits 0 n = []"
| "pad_digits (Suc k) n = pad_digits k (n div 10) @ [digit_char (n mod 10)]"

definition digits_value :: "string \<Rightarrow> nat" where
  "digits_value s = foldl (\<lambda>acc c. acc * 10 + (of_char c - 48)) 0 s"

definition parse_u64 :: "string \<Rightarrow> u64 option" where
  "parse_u64 s = try_from_nat (digits_value s)"

definition rust_whitespace :: "string list" where
  "rust_whitespace =
    [[CHR 0x09], [CHR 0x0A], [CHR 0x0B], [CHR 0x0C], [CHR 0x0D], [CHR 0x20],
     [CHR 0xC2, CHR 0x85], [CHR 0xC2, CHR 0xA0], [CHR 0xE1, CHR 0x9A, CHR 0x80],
     [CHR 0xE2, CHR 0x80, CHR 0x80], [CHR 0xE2, CHR 0x80, CHR 0x81],
     [CHR 0xE2, CHR 0x80, CHR 0x82], [CHR 0xE2, CHR 0x80, CHR 0x83],
     [CHR 0xE2, CHR 0x80, CHR 0x84], [CHR 0xE2, CHR 0x80, CHR 0x85],
     [CHR 0xE2, CHR 0x80, CHR 0x86], [CHR 0xE2, CHR 0x80, CHR 0x87],
     [CHR 0xE2, CHR 0x80, CHR 0x88], [CHR 0xE2, CHR 0x80, CHR 0x89],
     [CHR 0xE2, CHR 0x80, CHR 0x8A], [CHR 0xE2, CHR 0x80, CHR 0xA8],
     [CHR 0xE2, CHR 0x80, CHR 0xA9], [CHR 0xE2, CHR 0x80, CHR 0xAF],
     [CHR 0xE2, CHR 0x81, CHR 0x9F], [CHR 0xE3, CHR 0x80, CHR 0x80]]"

definition has_surrounding_whitespace :: "string \<Rightarrow> bool" where
  "has_surrounding_whitespace s \<longleftrightarrow> list_ex (\<lambda>w. prefix w s \<or> suffix w s) rust_whitespace"

section \<open>Operations\<close>

definition ATOMS_PER_COIN :: u64 where "ATOMS_PER_COIN = 100000000"
definition PDG_DECIMALS_V3 :: nat where "PDG_DECIMALS_V3 = 8"

datatype DenominationV3Error = Empty | InvalidSyntax | TooManyDecimalPlaces | Overflow

record PdgAmountV3 =
  atoms :: u64
  pdg :: string

definition format_pdg_atoms_v3 :: "u64 \<Rightarrow> string" where
  "format_pdg_atoms_v3 a =
    (let whole = a div ATOMS_PER_COIN; fraction = a mod ATOMS_PER_COIN
     in format_nat (unat whole) @ CHR ''.'' # pad_digits 8 (unat fraction))"

definition parse_fraction :: "string option \<Rightarrow> DenominationV3Error + u64" where
  "parse_fraction fraction =
    (case fraction of
       None \<Rightarrow> Inr 0
     | Some fraction \<Rightarrow>
         if fraction = [] \<or> \<not> list_all is_ascii_digit fraction then Inl InvalidSyntax
         else if PDG_DECIMALS_V3 < length fraction then Inl TooManyDecimalPlaces
         else
           rbind (ok_or Overflow (parse_u64 fraction)) (\<lambda>raw.
           rbind (ok_or Overflow (try_from_nat (10 ^ (PDG_DECIMALS_V3 - length fraction))))
             (\<lambda>scale. ok_or Overflow (checked_mul raw scale))))"

definition parse_pdg_decimal_v3 :: "string \<Rightarrow> DenominationV3Error + u64" where
  "parse_pdg_decimal_v3 value =
    (if value = [] then Inl Empty
     else if has_surrounding_whitespace value
       \<or> prefix ''+'' value \<or> prefix ''-'' value
       \<or> CHR ''e'' \<in> set value \<or> CHR ''E'' \<in> set value then Inl InvalidSyntax
     else
       let parts = split_on (CHR ''.'') value; whole = hd parts;
           fraction = (case tl parts of [] \<Rightarrow> None | f # _ \<Rightarrow> Some f)
       in if tl (tl parts) \<noteq> [] \<or> whole = [] \<or> \<not> list_all is_ascii_digit whole
          then Inl InvalidSyntax
          else
            rbind (ok_or Overflow (parse_u64 whole)) (\<lambda>whole_value.
            rbind (ok_or Overflow (checked_mul whole_value ATOMS_PER_COIN)) (\<lambda>whole_atoms.
            rbind (parse_fraction fraction) (\<lambda>fraction_atoms.
            ok_or Overflow (checked_add whole_atoms fraction_atoms)))))"

definition from_atoms :: "u64 \<Rightarrow> PdgAmountV3" where
  "from_atoms a = \<lparr>atoms = a, pdg = format_pdg_atoms_v3 a\<rparr>"

definition parse :: "string \<Rightarrow> DenominationV3Error + PdgAmountV3" where
  "parse value = rbind (parse_pdg_decimal_v3 value) (\<lambda>a. Inr (from_atoms a))"

section \<open>Digit strings\<close>

lemma of_char_digit: "d < 10 \<Longrightarrow> of_char (digit_char d) = 48 + d"
  by (simp add: digit_char_def)

lemma is_ascii_digit_digit_char: "d < 10 \<Longrightarrow> is_ascii_digit (digit_char d)"
  by (simp add: is_ascii_digit_def of_char_digit)

lemma digits_value_snoc: "digits_value (s @ [c]) = digits_value s * 10 + (of_char c - 48)"
  by (simp add: digits_value_def)

lemma digits_value_format: "digits_value (format_nat n) = n"
proof (induction n rule: format_nat.induct)
  case (1 n)
  then show ?case
    by (subst format_nat.simps)
      (auto simp: digits_value_snoc of_char_digit, simp add: digits_value_def of_char_digit)
qed

lemma format_nat_digits: "list_all is_ascii_digit (format_nat n) \<and> format_nat n \<noteq> []"
proof (induction n rule: format_nat.induct)
  case (1 n)
  then show ?case
    by (subst (1 2) format_nat.simps) (auto simp: is_ascii_digit_digit_char)
qed

lemma pad_digits_facts:
  "length (pad_digits k n) = k \<and> list_all is_ascii_digit (pad_digits k n)
    \<and> digits_value (pad_digits k n) = n mod 10 ^ k"
proof (induction k arbitrary: n)
  case 0
  then show ?case by (simp add: digits_value_def)
next
  case (Suc k)
  have "n div 10 mod 10 ^ k * 10 + n mod 10 = n mod 10 ^ Suc k"
    by (simp add: mod_mult2_eq)
  then show ?case
    using Suc by (simp add: digits_value_snoc of_char_digit is_ascii_digit_digit_char)
qed

lemma digit_not_special:
  assumes "is_ascii_digit c"
  shows "c \<noteq> CHR ''.''" "c \<noteq> CHR ''e''" "c \<noteq> CHR ''E''" "c \<noteq> CHR ''+''" "c \<noteq> CHR ''-''"
  using assms by (auto simp: is_ascii_digit_def)

lemma whitespace_hd_last:
  assumes "w \<in> set rust_whitespace"
  shows "w \<noteq> [] \<and> \<not> is_ascii_digit (hd w) \<and> \<not> is_ascii_digit (last w)"
  using assms by (auto simp: rust_whitespace_def is_ascii_digit_def)

lemma no_surrounding_whitespace:
  assumes "s \<noteq> []" "is_ascii_digit (hd s)" "is_ascii_digit (last s)"
  shows "\<not> has_surrounding_whitespace s"
proof
  assume "has_surrounding_whitespace s"
  then obtain w where w: "w \<in> set rust_whitespace" "prefix w s \<or> suffix w s"
    by (auto simp: has_surrounding_whitespace_def list_ex_iff)
  note facts = whitespace_hd_last [OF w(1)]
  from w(2) show False
  proof
    assume "prefix w s"
    then show False using facts assms(2) by (auto simp: prefix_def hd_append)
  next
    assume "suffix w s"
    then show False using facts assms(3) by (auto simp: suffix_def)
  qed
qed

text \<open>The parser on \<open>whole.fraction\<close> with digits on both sides of the point.\<close>

lemma parse_pdg_decimal_point:
  assumes w: "whole \<noteq> []" "list_all is_ascii_digit whole"
    and f: "fraction \<noteq> []" "list_all is_ascii_digit fraction"
  shows "parse_pdg_decimal_v3 (whole @ CHR ''.'' # fraction) =
    rbind (ok_or Overflow (parse_u64 whole)) (\<lambda>whole_value.
    rbind (ok_or Overflow (checked_mul whole_value ATOMS_PER_COIN)) (\<lambda>whole_atoms.
    rbind (parse_fraction (Some fraction)) (\<lambda>fraction_atoms.
    ok_or Overflow (checked_add whole_atoms fraction_atoms))))"
proof -
  have dig: "\<And>c. c \<in> set whole \<union> set fraction \<Longrightarrow> is_ascii_digit c"
    using w f by (auto simp: list_all_iff)
  have "\<not> has_surrounding_whitespace (whole @ CHR ''.'' # fraction)"
    by (rule no_surrounding_whitespace) (use w f dig in \<open>auto simp: hd_append\<close>)
  moreover have "\<not> prefix ''+'' (whole @ CHR ''.'' # fraction)"
    "\<not> prefix ''-'' (whole @ CHR ''.'' # fraction)"
    using w dig digit_not_special by (cases whole; fastforce)+
  moreover have "CHR ''.'' \<notin> set whole" "CHR ''.'' \<notin> set fraction"
    "CHR ''e'' \<notin> set whole \<union> set fraction" "CHR ''E'' \<notin> set whole \<union> set fraction"
    using dig digit_not_special by blast+
  ultimately show ?thesis
    using w by (simp add: parse_pdg_decimal_v3_def split_on_one Let_def)
qed

section \<open>Properties\<close>

text \<open>
  C37. Formatting then parsing returns the same atoms, for every 64-bit amount; a parsed amount is
  printed in the canonical eight-decimal form.
\<close>

theorem parse_format_roundtrip:
  "parse_pdg_decimal_v3 (format_pdg_atoms_v3 a) = Inr a
   \<and> parse (pdg (from_atoms a)) = Inr (from_atoms a)"
proof -
  define w f where "w = unat a div 100000000" and "f = unat a mod 100000000"
  have unats: "unat (a div ATOMS_PER_COIN) = w" "unat (a mod ATOMS_PER_COIN) = f"
    by (simp_all add: w_def f_def ATOMS_PER_COIN_def unat_div_distrib unat_mod_distrib)
  have wf: "w * 100000000 + f = unat a" by (simp add: w_def f_def)
  have f: "f < 100000000" by (simp add: f_def)
  have w: "w < 2 ^ 64" using wf unat_u64_bound [of a] by simp
  have W: "unat (word_of_nat w :: u64) = w" "unat (word_of_nat f :: u64) = f"
    using w f by (simp_all add: unat_word_of_nat_small)
  have coin: "unat ATOMS_PER_COIN = 100000000" by (simp add: ATOMS_PER_COIN_def)
  have pw: "parse_u64 (format_nat w) = Some (word_of_nat w)"
    using w by (simp add: parse_u64_def digits_value_format try_from_nat_def)
  have pf: "parse_u64 (pad_digits 8 f) = Some (word_of_nat f)"
    using f pad_digits_facts [of 8 f] by (simp add: parse_u64_def try_from_nat_def)
  have mul: "checked_mul (word_of_nat w) ATOMS_PER_COIN = Some (word_of_nat (w * 100000000))"
    and mulU: "unat (word_of_nat (w * 100000000) :: u64) = w * 100000000"
  proof -
    have lt: "w * 100000000 < 2 ^ 64" using wf unat_u64_bound [of a] by simp
    then show "unat (word_of_nat (w * 100000000) :: u64) = w * 100000000"
      by (intro unat_word_of_nat_small) simp
    then show "checked_mul (word_of_nat w) ATOMS_PER_COIN = Some (word_of_nat (w * 100000000))"
      by (simp only: checked_mul_eq_Some W coin)
  qed
  have one: "checked_mul (word_of_nat f) (1 :: u64) = Some (word_of_nat f)"
    by (simp add: checked_mul_eq_Some W)
  have add: "checked_add (word_of_nat (w * 100000000)) (word_of_nat f) = Some a"
    by (simp only: checked_add_eq_Some mulU W wf)
  have frac: "parse_fraction (Some (pad_digits 8 f)) = Inr (word_of_nat f)"
    using pad_digits_facts [of 8 f] pf one
    by (auto simp: parse_fraction_def PDG_DECIMALS_V3_def try_from_nat_def)
  have "parse_pdg_decimal_v3 (format_nat w @ CHR ''.'' # pad_digits 8 f) = Inr a"
    by (subst parse_pdg_decimal_point)
      (use format_nat_digits [of w] pad_digits_facts [of 8 f] in
        \<open>auto simp: pw mul frac add simp del: of_nat_mult\<close>)
  then show ?thesis
    by (simp add: format_pdg_atoms_v3_def unats Let_def parse_def from_atoms_def)
qed


text \<open>
  The parser is fail-closed. Whatever it accepts is a non-empty digit string, optionally followed
  by a point and one to eight digits, and the returned atoms are the exact decimal value: no rounding
  and no wrap-around.
\<close>

theorem parse_accepts_exact_decimals:
  assumes "parse_pdg_decimal_v3 value = Inr a"
  shows "\<exists>whole fraction.
    (value = whole \<and> fraction = [] \<or> value = whole @ CHR ''.'' # fraction \<and> fraction \<noteq> [])
    \<and> whole \<noteq> [] \<and> list_all is_ascii_digit (whole @ fraction) \<and> length fraction \<le> 8
    \<and> unat a = digits_value whole * 10 ^ 8 + digits_value fraction * 10 ^ (8 - length fraction)"
proof -
  obtain whole ps where ps: "split_on (CHR ''.'') value = whole # ps"
    using split_on_nonempty by (metis neq_Nil_conv)
  define fr where "fr = (case ps of [] \<Rightarrow> None | f # _ \<Rightarrow> Some f)"
  obtain wv wa fa where
    whole: "tl ps = []" "whole \<noteq> []" "list_all is_ascii_digit whole"
    and vals: "parse_u64 whole = Some wv" "checked_mul wv ATOMS_PER_COIN = Some wa"
      "parse_fraction fr = Inr fa" "checked_add wa fa = Some a"
    using assms by (auto simp: parse_pdg_decimal_v3_def ps Let_def result_simps fr_def
        split: if_splits)
  have coin: "unat ATOMS_PER_COIN = 10 ^ 8" by (simp add: ATOMS_PER_COIN_def)
  have val: "unat a = digits_value whole * 10 ^ 8 + unat fa"
    using vals by (simp only: mach parse_u64_def coin)
  show ?thesis
  proof (cases ps)
    case Nil
    then have "value = whole" using split_on_join [OF ps] by simp
    moreover have "fa = 0" using vals(3) Nil by (simp add: fr_def parse_fraction_def)
    ultimately show ?thesis using whole val by (intro exI [of _ whole] exI [of _ "[]"])
      (simp add: digits_value_def)
  next
    case (Cons f qs)
    have "value = whole @ CHR ''.'' # f" using split_on_join [OF ps] Cons whole(1) by simp
    moreover have "f \<noteq> []" "list_all is_ascii_digit f" "length f \<le> 8"
      "unat fa = digits_value f * 10 ^ (8 - length f)"
      using vals(3) Cons
      by (auto simp: fr_def parse_fraction_def result_simps mach parse_u64_def PDG_DECIMALS_V3_def
          split: if_splits)
    ultimately show ?thesis using whole val
      by (intro exI [of _ whole] exI [of _ f]) simp
  qed
qed

theorem parse_accepts_exact_decimals_witness:
  "parse_pdg_decimal_v3 ''1.5'' = Inr 150000000 \<and> (\<exists>whole fraction.
    (''1.5'' = whole \<and> fraction = [] \<or> ''1.5'' = whole @ CHR ''.'' # fraction \<and> fraction \<noteq> [])
    \<and> whole \<noteq> [] \<and> list_all is_ascii_digit (whole @ fraction) \<and> length fraction \<le> 8
    \<and> unat (150000000 :: u64) = digits_value whole * 10 ^ 8
        + digits_value fraction * 10 ^ (8 - length fraction))"
proof -
  have *: "parse_pdg_decimal_v3 ''1.5'' = Inr 150000000"
    by (simp add: parse_pdg_decimal_v3_def has_surrounding_whitespace_def rust_whitespace_def
        suffix_def is_ascii_digit_def parse_u64_def digits_value_def try_from_nat_def
        parse_fraction_def PDG_DECIMALS_V3_def ATOMS_PER_COIN_def checked_mul_def checked_add_def
        Cons_eq_append_conv)
  show ?thesis using * parse_accepts_exact_decimals [OF *] by (rule conjI)
qed

end
