(* ===== verification/Pulse_Bytes.thy ===== *)
theory Pulse_Bytes
  imports Pulse_Prelude "HOL-Library.Sublist"
begin

text \<open>
  Byte strings: \<open>to_le_bytes\<close>, \<open>to_be_bytes\<close> and \<open>from_be_bytes\<close> of the integer types, the numeric
  value of a big-endian string (whose order is the lexicographic order of the bytes), and the
  interface of self-delimiting encoders that the canonical encodings are assembled from.
\<close>

type_synonym bytes = "u8 list"

section \<open>Big- and little-endian integers\<close>

fun be_value :: "bytes \<Rightarrow> nat" where
  "be_value [] = 0"
| "be_value (b # bs) = unat b * 256 ^ length bs + be_value bs"

fun le_bytes_of :: "nat \<Rightarrow> nat \<Rightarrow> bytes" where
  "le_bytes_of 0 n = []"
| "le_bytes_of (Suc k) n = word_of_nat n # le_bytes_of k (n div 256)"

definition to_le_bytes :: "'a::len word \<Rightarrow> bytes" where
  "to_le_bytes w = le_bytes_of (LENGTH('a) div 8) (unat w)"

definition to_be_bytes :: "'a::len word \<Rightarrow> bytes" where
  "to_be_bytes w = rev (to_le_bytes w)"

definition from_be_bytes :: "bytes \<Rightarrow> 'a::len word" where
  "from_be_bytes bs = word_of_nat (be_value bs)"

lemma be_value_append: "be_value (xs @ ys) = be_value xs * 256 ^ length ys + be_value ys"
  by (induction xs) (simp_all add: algebra_simps power_add)

lemma be_value_bound: "be_value xs < 256 ^ length xs"
proof (induction xs)
  case (Cons b xs)
  have "unat b * 256 ^ length xs + be_value xs < (unat b + 1) * 256 ^ length xs"
    using Cons by simp
  also have "\<dots> \<le> 256 * 256 ^ length xs"
    using unat_u8_bound [of b] by (intro mult_le_mono1) simp
  finally show ?case by simp
qed simp

lemma be_value_replicate_0 [simp]: "be_value (replicate n 0) = 0"
  by (induction n) auto

lemma length_le_bytes_of [simp]: "length (le_bytes_of k n) = k"
  by (induction k arbitrary: n) auto

lemma le_bytes_of_numeral [simp]:
  "le_bytes_of (numeral k) n = word_of_nat n # le_bytes_of (pred_numeral k) (n div 256)"
  by (simp only: numeral_eq_Suc [of k] le_bytes_of.simps)

lemma be_value_rev_le_bytes: "be_value (rev (le_bytes_of k n)) = n mod 256 ^ k"
proof (induction k arbitrary: n)
  case (Suc k)
  have "unat (word_of_nat n :: u8) = n mod 256"
    by (simp add: unat_of_nat take_bit_eq_mod)
  moreover have "n div 256 mod 256 ^ k * 256 + n mod 256 = n mod 256 ^ Suc k"
    by (simp add: mod_mult2_eq)
  ultimately show ?case using Suc by (simp add: be_value_append)
qed simp

lemma length_to_bytes [simp]:
  "length (to_le_bytes (w :: 'a::len word)) = LENGTH('a) div 8"
  "length (to_be_bytes (w :: 'a::len word)) = LENGTH('a) div 8"
  by (simp_all add: to_le_bytes_def to_be_bytes_def)

lemma be_value_to_be_bytes:
  assumes "8 dvd LENGTH('a)"
  shows "be_value (to_be_bytes (w :: 'a::len word)) = unat w"
proof -
  have "(256 :: nat) ^ (LENGTH('a) div 8) = 2 ^ (8 * (LENGTH('a) div 8))"
    by (simp add: power_mult)
  also have "\<dots> = 2 ^ LENGTH('a)" using assms by simp
  finally have "unat w < 256 ^ (LENGTH('a) div 8)" using unat_lt_len [of w] by simp
  then show ?thesis by (simp add: to_be_bytes_def to_le_bytes_def be_value_rev_le_bytes)
qed

lemma to_le_bytes_inj:
  assumes "8 dvd LENGTH('a)"
  shows "to_le_bytes (v :: 'a::len word) = to_le_bytes w \<longleftrightarrow> v = w"
  using be_value_to_be_bytes [OF assms, of v] be_value_to_be_bytes [OF assms, of w]
  by (auto simp: to_be_bytes_def intro: word_eqI_unat)

lemma to_be_bytes_inj:
  assumes "8 dvd LENGTH('a)"
  shows "to_be_bytes (v :: 'a::len word) = to_be_bytes w \<longleftrightarrow> v = w"
  using to_le_bytes_inj [OF assms, of v w] by (auto simp: to_be_bytes_def)

text \<open>Lexicographic order of byte strings of one length is numeric order.\<close>

lemma be_value_less_iff:
  "length xs = length ys \<Longrightarrow> xs < ys \<longleftrightarrow> be_value xs < be_value ys"
proof (induction xs ys rule: list_induct2)
  case (Cons x xs y ys)
  let ?B = "256 ^ length ys"
  have bx: "be_value xs < ?B" and by': "be_value ys < ?B"
    using be_value_bound [of xs] be_value_bound [of ys] Cons.hyps by simp_all
  consider "unat x < unat y" | "unat x = unat y" | "unat y < unat x" by linarith
  then show ?case
  proof cases
    case 1
    have "unat x * ?B + be_value xs < (unat x + 1) * ?B" using bx by simp
    also have "\<dots> \<le> unat y * ?B" using 1 by (intro mult_le_mono1) simp
    finally show ?thesis using 1 Cons.hyps by (simp add: word_less_nat_alt)
  next
    case 2
    then show ?thesis using Cons by (simp add: word_less_nat_alt word_eqI_unat)
  next
    case 3
    have "unat y * ?B + be_value ys < (unat y + 1) * ?B" using by' by simp
    also have "\<dots> \<le> unat x * ?B" using 3 by (intro mult_le_mono1) simp
    finally show ?thesis using 3 Cons.hyps by (auto simp: word_less_nat_alt)
  qed
qed simp

lemma be_value_le_iff:
  assumes "length xs = length ys"
  shows "xs \<le> ys \<longleftrightarrow> be_value xs \<le> be_value ys"
  using be_value_less_iff [of ys xs] assms by (metis not_le)

lemma be_value_inj:
  assumes "length xs = length ys" "be_value xs = be_value ys"
  shows "xs = ys"
  using be_value_le_iff [OF assms(1)] be_value_le_iff [OF assms(1) [symmetric]] assms(2)
  by (metis antisym le_refl)

section \<open>Self-delimiting encoders\<close>

text \<open>
  An encoder is self-delimiting on a set of values when no two of its outputs can be confused even
  if more bytes follow. Concatenations of such encoders are self-delimiting, which is what makes
  the canonical transaction and header encodings injective.
\<close>

locale codec =
  fixes enc :: "'a \<Rightarrow> bytes"
    and ok :: "'a \<Rightarrow> bool"
  assumes self_delimiting:
    "ok x \<Longrightarrow> ok y \<Longrightarrow> enc x @ r = enc y @ s \<Longrightarrow> x = y"
begin

lemma enc_append_eq:
  "ok x \<Longrightarrow> ok y \<Longrightarrow> enc x @ r = enc y @ s \<longleftrightarrow> x = y \<and> r = s"
  using self_delimiting by blast

lemma enc_inj: "ok x \<Longrightarrow> ok y \<Longrightarrow> enc x = enc y \<Longrightarrow> x = y"
  using self_delimiting [of x y "[]" "[]"] by simp

lemma concat_same_length:
  "list_all ok xs \<Longrightarrow> list_all ok ys \<Longrightarrow> length xs = length ys \<Longrightarrow>
    concat (map enc xs) @ r = concat (map enc ys) @ s \<Longrightarrow> xs = ys \<and> r = s"
proof (induction xs arbitrary: ys)
  case (Cons x xs)
  then obtain y zs where ys: "ys = y # zs" by (cases ys) auto
  with Cons.prems have "enc x @ (concat (map enc xs) @ r) = enc y @ (concat (map enc zs) @ s)"
    by simp
  with Cons.prems ys have xy: "x = y" and rest: "concat (map enc xs) @ r = concat (map enc zs) @ s"
    using enc_append_eq by auto
  from Cons.IH [OF _ _ _ rest] Cons.prems ys xy show ?case by simp
qed simp

end

definition fixed_width :: "('a \<Rightarrow> bytes) \<Rightarrow> nat \<Rightarrow> bool" where
  "fixed_width enc n \<longleftrightarrow> (\<forall>x. length (enc x) = n)"

lemma codec_fixed_width:
  assumes "fixed_width enc n" "\<And>x y. enc x = enc y \<Longrightarrow> x = y"
  shows "codec enc ok"
proof
  show "x = y" if "enc x @ r = enc y @ s" for x y r s
    using that assms by (auto simp: fixed_width_def)
qed

interpretation le8: codec "to_le_bytes :: u8 \<Rightarrow> bytes" "\<lambda>_. True"
  by (rule codec_fixed_width [where n = 1]) (auto simp: fixed_width_def to_le_bytes_inj)

interpretation le16: codec "to_le_bytes :: u16 \<Rightarrow> bytes" "\<lambda>_. True"
  by (rule codec_fixed_width [where n = 2]) (auto simp: fixed_width_def to_le_bytes_inj)

interpretation le32: codec "to_le_bytes :: u32 \<Rightarrow> bytes" "\<lambda>_. True"
  by (rule codec_fixed_width [where n = 4]) (auto simp: fixed_width_def to_le_bytes_inj)

interpretation le64: codec "to_le_bytes :: u64 \<Rightarrow> bytes" "\<lambda>_. True"
  by (rule codec_fixed_width [where n = 8]) (auto simp: fixed_width_def to_le_bytes_inj)

interpretation le128: codec "to_le_bytes :: u128 \<Rightarrow> bytes" "\<lambda>_. True"
  by (rule codec_fixed_width [where n = 16]) (auto simp: fixed_width_def to_le_bytes_inj)

lemmas le_append_eq [simp] =
  le8.enc_append_eq [OF TrueI TrueI] le16.enc_append_eq [OF TrueI TrueI]
  le32.enc_append_eq [OF TrueI TrueI] le64.enc_append_eq [OF TrueI TrueI]
  le128.enc_append_eq [OF TrueI TrueI]

lemma le_eq [simp]:
  "to_le_bytes (a :: u32) = to_le_bytes a' \<longleftrightarrow> a = a'"
  "to_le_bytes (b :: u64) = to_le_bytes b' \<longleftrightarrow> b = b'"
  "to_le_bytes (c :: u128) = to_le_bytes c' \<longleftrightarrow> c = c'"
  by (simp_all add: to_le_bytes_inj)

text \<open>
  Length-prefixed byte strings and strings. The source calls \<open>expect\<close> on the conversion of the length
  to \<open>u32\<close>; a panic is \<open>None\<close>.
\<close>

definition prefixed :: "bytes \<Rightarrow> bytes" where
  "prefixed bs = to_le_bytes (word_of_nat (length bs) :: u32) @ bs"

definition as_bytes :: "string \<Rightarrow> bytes" where
  "as_bytes s = map (\<lambda>c. word_of_nat (of_char c)) s"

lemma length_as_bytes [simp]: "length (as_bytes s) = length s"
  by (simp add: as_bytes_def)

lemma as_bytes_append: "as_bytes (s @ t) = as_bytes s @ as_bytes t"
  by (simp add: as_bytes_def)

lemma as_bytes_inj [simp]: "as_bytes s = as_bytes t \<longleftrightarrow> s = t"
proof -
  have "inj (\<lambda>c. word_of_nat (of_char c) :: u8)"
  proof (rule injI)
    fix x y :: char
    assume eq: "(word_of_nat (of_char x) :: u8) = word_of_nat (of_char y)"
    have "of_char c < (256 :: nat)" for c by (rule nat_of_char_less_256)
    then have "unat (word_of_nat (of_char c) :: u8) = of_char c" for c
      by (simp add: unat_word_of_nat_small)
    with eq have "of_char x = (of_char y :: nat)" by metis
    then show "x = y" by simp
  qed
  then show ?thesis by (simp add: as_bytes_def inj_map_eq_map)
qed

lemma word_of_length_eq:
  assumes "m < 2 ^ LENGTH('a)" "n < 2 ^ LENGTH('a)"
  shows "(word_of_nat m :: 'a::len word) = word_of_nat n \<longleftrightarrow> m = n"
  using assms by (metis unat_word_of_nat_small)

definition len32 :: "'a list \<Rightarrow> bool" where
  "len32 xs \<longleftrightarrow> length xs < 2 ^ 32"

interpretation prefixed: codec prefixed len32
proof
  fix x y r s
  assume ok: "len32 x" "len32 y" and eq: "prefixed x @ r = prefixed y @ s"
  from eq have "(word_of_nat (length x) :: u32) = word_of_nat (length y)" "x @ r = y @ s"
    by (simp_all add: prefixed_def)
  with ok show "x = y" by (simp add: len32_def word_of_length_eq)
qed

interpretation prefixed_str: codec "\<lambda>s. prefixed (as_bytes s)" len32
proof
  fix x y r s
  assume "len32 x" "len32 y" "prefixed (as_bytes x) @ r = prefixed (as_bytes y) @ s"
  then show "x = y" using prefixed.self_delimiting [of "as_bytes x" "as_bytes y" r s]
    by (simp add: len32_def)
qed

text \<open>A counted sequence of self-delimiting elements is self-delimiting.\<close>

definition counted :: "('a \<Rightarrow> bytes) \<Rightarrow> 'a list \<Rightarrow> bytes" where
  "counted enc xs = to_le_bytes (word_of_nat (length xs) :: u32) @ concat (map enc xs)"

definition counted_ok :: "('a \<Rightarrow> bool) \<Rightarrow> 'a list \<Rightarrow> bool" where
  "counted_ok ok xs \<longleftrightarrow> len32 xs \<and> list_all ok xs"

lemma codec_counted:
  assumes "codec enc ok"
  shows "codec (counted enc) (counted_ok ok)"
proof
  fix x y r s
  assume ok: "counted_ok ok x" "counted_ok ok y" and eq: "counted enc x @ r = counted enc y @ s"
  from eq have len: "(word_of_nat (length x) :: u32) = word_of_nat (length y)"
    and body: "concat (map enc x) @ r = concat (map enc y) @ s"
    by (simp_all add: counted_def)
  have "length x = length y" using len ok by (simp add: counted_ok_def len32_def word_of_length_eq)
  with codec.concat_same_length [OF assms, of x y r s] body ok show "x = y"
    by (simp add: counted_ok_def)
qed

interpretation counted_str: codec "counted (\<lambda>s. prefixed (as_bytes s))" "counted_ok len32"
  by (rule codec_counted) (rule prefixed_str.codec_axioms)

definition encode_len_prefixed_bytes :: "bytes \<Rightarrow> bytes option" where
  "encode_len_prefixed_bytes bs =
    Option.bind (try_from_nat (length bs) :: u32 option) (\<lambda>len. Some (to_le_bytes len @ bs))"

definition encode_len_prefixed_str :: "string \<Rightarrow> bytes option" where
  "encode_len_prefixed_str s = encode_len_prefixed_bytes (as_bytes s)"

text \<open>The counted loop of the source: the count, then each element in order.\<close>

definition encode_counted :: "('a \<Rightarrow> bytes option) \<Rightarrow> 'a list \<Rightarrow> bytes option" where
  "encode_counted enc xs =
    Option.bind (try_from_nat (length xs) :: u32 option) (\<lambda>len.
    Option.bind (those (map enc xs)) (\<lambda>parts. Some (to_le_bytes len @ concat parts)))"

lemma encode_len_prefixed_bytes_eq:
  "encode_len_prefixed_bytes bs = (if len32 bs then Some (prefixed bs) else None)"
  by (simp add: encode_len_prefixed_bytes_def try_from_nat_def len32_def prefixed_def)

lemma encode_len_prefixed_str_eq:
  "encode_len_prefixed_str s = (if len32 s then Some (prefixed (as_bytes s)) else None)"
  by (simp add: encode_len_prefixed_str_def encode_len_prefixed_bytes_eq len32_def)

lemma those_map_if:
  "those (map (\<lambda>x. if ok x then Some (f x) else None) xs) =
    (if list_all ok xs then Some (map f xs) else None)"
  by (induction xs) auto

lemma encode_counted_eq:
  assumes "\<And>x. enc x = (if ok x then Some (f x) else None)"
  shows "encode_counted enc xs = (if counted_ok ok xs then Some (counted f xs) else None)"
proof -
  have "enc = (\<lambda>x. if ok x then Some (f x) else None)" using assms by auto
  then show ?thesis
    by (auto simp: encode_counted_def try_from_nat_def counted_ok_def len32_def counted_def
        those_map_if)
qed

end
