(* ===== verification/Pulse_Types.thy ===== *)
theory Pulse_Types
  imports Pulse_Bytes "HOL-Library.Monad_Syntax"
begin

text \<open>
  The consensus data types (\<open>types.rs\<close>, \<open>errors.rs\<close>): outpoints with their derived order, transactions,
  unspent outputs, headers and blocks, with the canonical header encoding, the mining preimage and
  the Merkle root. SHA-256, hexadecimal coding and signature verification come from other crates; they
  are the fields of a \<open>crypto\<close> record that the functions using them take as an argument.
\<close>

section \<open>Data\<close>

type_synonym Hash = string
type_synonym Address = string

record crypto =
  sha256 :: "bytes \<Rightarrow> bytes"
  hex_encode :: "bytes \<Rightarrow> string"
  hex_decode :: "string \<Rightarrow> bytes option"
  ed25519_verify :: "bytes \<Rightarrow> bytes \<Rightarrow> bytes \<Rightarrow> bool"

text \<open>What the code relies on from the hexadecimal crate.\<close>

definition hex_roundtrip :: "crypto \<Rightarrow> bool" where
  "hex_roundtrip C \<longleftrightarrow> (\<forall>b. hex_decode C (hex_encode C b) = Some b)"

datatype OutPoint = OutPoint (op_txid: string) (op_index: u32)

record TxInput =
  in_previous_output :: OutPoint
  in_public_key :: string
  in_signature :: string

record TxOutput =
  out_address :: Address
  out_amount :: u64

record Transaction =
  tx_txid :: Hash
  tx_version :: u32
  tx_inputs :: "TxInput list"
  tx_outputs :: "TxOutput list"
  tx_fee :: u64
  tx_nonce :: u64

record Utxo =
  u_outpoint :: OutPoint
  u_address :: Address
  u_amount :: u64
  u_coinbase :: bool
  u_height :: u64

record BlockHeader =
  h_version :: u32
  h_parents :: "Hash list"
  h_timestamp :: u64
  h_difficulty :: u32
  h_nonce :: u64
  h_merkle_root :: Hash
  h_state_root :: Hash
  h_blue_score :: u64
  h_height :: u64

record Block =
  b_hash :: Hash
  b_header :: BlockHeader
  b_transactions :: "Transaction list"

text \<open>
  The error type. Messages are the text the code formats, except that the debug rendering of a nested
  error is left out of them. \<open>Panic\<close> is not a variant of the source: it is the outcome of a failed
  \<open>expect\<close>, which unwinds through every caller.
\<close>

datatype InvalidStateRootClassification =
    StaleTemplate
  | TrueInvalid
  | UnknownContext
  | ParentContextUnavailable

record InvalidStateRootDiagnostics =
  d_block_hash :: Hash
  d_height :: u64
  d_parent_hashes :: "Hash list"
  d_supplied_state_root :: string
  d_computed_state_root :: string
  d_tx_count :: nat
  d_coinbase_miner_address :: "string option"
  d_selected_tip :: "Hash option"
  d_selected_tip_height :: "u64 option"
  d_current_tips :: "Hash list"
  d_stale_template :: bool
  d_unknown_context :: bool
  d_classification :: InvalidStateRootClassification
  d_state_validation_context_tip :: "Hash option"
  d_state_validation_context_height :: "u64 option"
  d_state_validation_context_source :: "string option"

datatype PulseError =
    InvalidSignature
  | InsufficientFunds
  | UtxoNotFound
  | DoubleSpend
  | TxAlreadyExists
  | BlockAlreadyExists
  | InvalidBlock string
  | InvalidTransaction string
  | InvalidTxid
  | ParentStateContextUnavailable Hash Hash
  | InvalidStateRoot InvalidStateRootDiagnostics
  | MissingCoinbase
  | MultipleCoinbase
  | CoinbaseNotFirst
  | ExcessiveCoinbaseReward
  | DuplicateUtxoOutpoint string
  | RewardOverflow
  | DuplicateOutpoint string
  | NonDeterministicState string
  | ChainIdMismatch
  | StorageError string
  | P2pDisabled
  | NotFound string
  | Internal string
  | Panic string

text \<open>The order derived for \<open>OutPoint\<close>: by transaction id, then by index.\<close>

instantiation OutPoint :: linorder
begin

definition less_eq_OutPoint :: "OutPoint \<Rightarrow> OutPoint \<Rightarrow> bool" where
  "a \<le> b \<longleftrightarrow> op_txid a < op_txid b \<or> op_txid a = op_txid b \<and> op_index a \<le> op_index b"

definition less_OutPoint :: "OutPoint \<Rightarrow> OutPoint \<Rightarrow> bool" where
  "a < b \<longleftrightarrow> op_txid a < op_txid b \<or> op_txid a = op_txid b \<and> op_index a < op_index b"

instance
  by standard (auto simp: less_eq_OutPoint_def less_OutPoint_def OutPoint.expand)

end

section \<open>Operations\<close>

definition BLOCK_HEADER_DOMAIN :: bytes where
  "BLOCK_HEADER_DOMAIN = as_bytes ''PulseDAG:block-header:v1''"
definition MERKLE_EMPTY_DOMAIN :: bytes where
  "MERKLE_EMPTY_DOMAIN = as_bytes ''PulseDAG:merkle-empty:v1''"
definition MERKLE_LEAF_DOMAIN :: bytes where
  "MERKLE_LEAF_DOMAIN = as_bytes ''PulseDAG:merkle-leaf:v1''"
definition MERKLE_NODE_DOMAIN :: bytes where
  "MERKLE_NODE_DOMAIN = as_bytes ''PulseDAG:merkle-node:v1''"
definition MINING_PREIMAGE_VERSION :: u8 where "MINING_PREIMAGE_VERSION = 1"

definition encode_string_vec :: "string list \<Rightarrow> bytes option" where
  "encode_string_vec values = encode_counted encode_len_prefixed_str values"

definition canonical_block_header_bytes :: "BlockHeader \<Rightarrow> bytes option" where
  "canonical_block_header_bytes header = do {
    dom \<leftarrow> encode_len_prefixed_bytes BLOCK_HEADER_DOMAIN;
    parents \<leftarrow> encode_string_vec (h_parents header);
    merkle_root \<leftarrow> encode_len_prefixed_str (h_merkle_root header);
    state_root \<leftarrow> encode_len_prefixed_str (h_state_root header);
    Some (dom @ to_le_bytes (h_version header) @ parents @ to_le_bytes (h_timestamp header)
      @ to_le_bytes (h_difficulty header) @ to_le_bytes (h_nonce header)
      @ merkle_root @ state_root
      @ to_le_bytes (h_blue_score header) @ to_le_bytes (h_height header))
  }"

text \<open>\<open>u16::try_from(len).expect(..)\<close>, the length and the bytes, as the mining preimage writes a string.\<close>

definition encode_u16_str :: "string \<Rightarrow> bytes option" where
  "encode_u16_str s = do {
    len \<leftarrow> (try_from_nat (length s) :: u16 option);
    Some (to_le_bytes len @ as_bytes s)
  }"

definition canonical_mining_preimage_bytes :: "BlockHeader \<Rightarrow> bytes option" where
  "canonical_mining_preimage_bytes header = do {
    let parents = sort (h_parents header);
    parent_count \<leftarrow> (try_from_nat (length parents) :: u16 option);
    encoded_parents \<leftarrow> those (map encode_u16_str parents);
    merkle_root \<leftarrow> encode_u16_str (h_merkle_root header);
    state_root \<leftarrow> encode_u16_str (h_state_root header);
    Some ([MINING_PREIMAGE_VERSION] @ to_le_bytes (h_version header)
      @ to_le_bytes parent_count @ concat encoded_parents
      @ to_le_bytes (h_timestamp header) @ to_le_bytes (h_difficulty header)
      @ merkle_root @ state_root
      @ to_le_bytes (h_blue_score header) @ to_le_bytes (h_height header))
  }"

definition compute_block_hash :: "crypto \<Rightarrow> BlockHeader \<Rightarrow> Hash option" where
  "compute_block_hash C header = do {
    bs \<leftarrow> canonical_block_header_bytes header;
    Some (hex_encode C (sha256 C bs))
  }"

definition merkle_leaf :: "crypto \<Rightarrow> Hash \<Rightarrow> bytes" where
  "merkle_leaf C txid =
    sha256 C (MERKLE_LEAF_DOMAIN @
      (case hex_decode C txid of
         Some bs \<Rightarrow> if length bs = 32 then bs else as_bytes txid
       | None \<Rightarrow> as_bytes txid))"

definition merkle_parent :: "crypto \<Rightarrow> bytes \<Rightarrow> bytes \<Rightarrow> bytes" where
  "merkle_parent C left right = sha256 C (MERKLE_NODE_DOMAIN @ left @ right)"

fun merkle_next_level :: "crypto \<Rightarrow> bytes list \<Rightarrow> bytes list" where
  "merkle_next_level C (left # right # rest) =
    merkle_parent C left right # merkle_next_level C rest"
| "merkle_next_level C [left] = [merkle_parent C left left]"
| "merkle_next_level C [] = []"

lemma length_merkle_next_level: "length (merkle_next_level C level) = (length level + 1) div 2"
  by (induction C level rule: merkle_next_level.induct) auto

function merkle_loop :: "crypto \<Rightarrow> bytes list \<Rightarrow> bytes" where
  "merkle_loop C level =
    (if 1 < length level then merkle_loop C (merkle_next_level C level) else hd level)"
  by auto
termination by (relation "measure (\<lambda>(_, level). length level)") (auto simp: length_merkle_next_level)

declare merkle_loop.simps [simp del]

definition compute_merkle_root_from_txids :: "crypto \<Rightarrow> Hash list \<Rightarrow> Hash" where
  "compute_merkle_root_from_txids C txids =
    (if txids = [] then hex_encode C (sha256 C MERKLE_EMPTY_DOMAIN)
     else hex_encode C (merkle_loop C (map (merkle_leaf C) txids)))"

definition compute_merkle_root :: "crypto \<Rightarrow> Transaction list \<Rightarrow> Hash" where
  "compute_merkle_root C transactions =
    compute_merkle_root_from_txids C (map tx_txid transactions)"

section \<open>Encodings\<close>

definition header_ok :: "BlockHeader \<Rightarrow> bool" where
  "header_ok h \<longleftrightarrow> counted_ok len32 (h_parents h) \<and> len32 (h_merkle_root h) \<and> len32 (h_state_root h)"

definition header_payload :: "BlockHeader \<Rightarrow> bytes" where
  "header_payload h = prefixed BLOCK_HEADER_DOMAIN @ to_le_bytes (h_version h)
    @ counted (\<lambda>s. prefixed (as_bytes s)) (h_parents h) @ to_le_bytes (h_timestamp h)
    @ to_le_bytes (h_difficulty h) @ to_le_bytes (h_nonce h)
    @ prefixed (as_bytes (h_merkle_root h)) @ prefixed (as_bytes (h_state_root h))
    @ to_le_bytes (h_blue_score h) @ to_le_bytes (h_height h)"

lemma encode_string_vec_eq:
  "encode_string_vec xs =
    (if counted_ok len32 xs then Some (counted (\<lambda>s. prefixed (as_bytes s)) xs) else None)"
  unfolding encode_string_vec_def by (rule encode_counted_eq) (rule encode_len_prefixed_str_eq)

lemma canonical_block_header_bytes_eq:
  "canonical_block_header_bytes h = (if header_ok h then Some (header_payload h) else None)"
proof -
  have "len32 BLOCK_HEADER_DOMAIN" by (simp add: len32_def BLOCK_HEADER_DOMAIN_def)
  then show ?thesis
    by (auto simp: canonical_block_header_bytes_def encode_len_prefixed_bytes_eq
        encode_len_prefixed_str_eq encode_string_vec_eq header_ok_def header_payload_def)
qed

interpretation header: codec header_payload header_ok
proof
  fix x y r s
  assume "header_ok x" "header_ok y" "header_payload x @ r = header_payload y @ s"
  then show "x = y"
    by (cases x, cases y)
      (simp add: header_ok_def header_payload_def counted_str.enc_append_eq
        prefixed_str.enc_append_eq)
qed

text \<open>The strings of the mining preimage have 16-bit lengths.\<close>

definition len16 :: "'a list \<Rightarrow> bool" where
  "len16 xs \<longleftrightarrow> length xs < 2 ^ 16"

definition str16 :: "string \<Rightarrow> bytes" where
  "str16 s = to_le_bytes (word_of_nat (length s) :: u16) @ as_bytes s"

lemma encode_u16_str_eq: "encode_u16_str s = (if len16 s then Some (str16 s) else None)"
  by (simp add: encode_u16_str_def try_from_nat_def len16_def str16_def)

interpretation str16: codec str16 len16
proof
  fix x y r s
  assume ok: "len16 x" "len16 y" and eq: "str16 x @ r = str16 y @ s"
  from eq have "(word_of_nat (length x) :: u16) = word_of_nat (length y)"
    "as_bytes x @ r = as_bytes y @ s"
    by (simp_all add: str16_def)
  with ok show "x = y" by (simp add: len16_def word_of_length_eq)
qed

definition preimage_ok :: "BlockHeader \<Rightarrow> bool" where
  "preimage_ok h \<longleftrightarrow> len16 (h_parents h) \<and> list_all len16 (h_parents h)
    \<and> len16 (h_merkle_root h) \<and> len16 (h_state_root h)"

definition preimage_payload :: "BlockHeader \<Rightarrow> bytes" where
  "preimage_payload h = [MINING_PREIMAGE_VERSION] @ to_le_bytes (h_version h)
    @ to_le_bytes (word_of_nat (length (h_parents h)) :: u16) @ concat (map str16 (sort (h_parents h)))
    @ to_le_bytes (h_timestamp h) @ to_le_bytes (h_difficulty h)
    @ str16 (h_merkle_root h) @ str16 (h_state_root h)
    @ to_le_bytes (h_blue_score h) @ to_le_bytes (h_height h)"

lemma canonical_mining_preimage_bytes_eq:
  "canonical_mining_preimage_bytes h = (if preimage_ok h then Some (preimage_payload h) else None)"
proof -
  have "those (map encode_u16_str (sort (h_parents h))) =
    (if list_all len16 (h_parents h) then Some (map str16 (sort (h_parents h))) else None)"
    using those_map_if [of len16 str16 "sort (h_parents h)"]
    by (simp add: encode_u16_str_eq [abs_def] list_all_iff)
  then show ?thesis
    by (auto simp: canonical_mining_preimage_bytes_def encode_u16_str_eq try_from_nat_def len16_def
        preimage_ok_def preimage_payload_def Let_def)
qed

lemma preimage_payload_eq:
  assumes "preimage_ok x" "preimage_ok y" "preimage_payload x = preimage_payload y"
  shows "sort (h_parents x) = sort (h_parents y)
    \<and> x\<lparr>h_parents := [], h_nonce := 0\<rparr> = y\<lparr>h_parents := [], h_nonce := 0\<rparr>"
proof -
  have "(word_of_nat (length (h_parents x)) :: u16) = word_of_nat (length (h_parents y))"
    using assms(3) by (simp add: preimage_payload_def)
  then have len: "length (sort (h_parents x)) = length (sort (h_parents y))"
    using assms(1,2) by (simp add: preimage_ok_def len16_def word_of_length_eq)
  have "sort (h_parents x) = sort (h_parents y) \<and>
    to_le_bytes (h_timestamp x) @ to_le_bytes (h_difficulty x)
      @ str16 (h_merkle_root x) @ str16 (h_state_root x)
      @ to_le_bytes (h_blue_score x) @ to_le_bytes (h_height x) =
    to_le_bytes (h_timestamp y) @ to_le_bytes (h_difficulty y)
      @ str16 (h_merkle_root y) @ str16 (h_state_root y)
      @ to_le_bytes (h_blue_score y) @ to_le_bytes (h_height y)"
    by (rule str16.concat_same_length)
      (use assms len in \<open>auto simp: preimage_ok_def preimage_payload_def list_all_iff\<close>)
  then show ?thesis
    using assms by (cases x, cases y)
      (auto simp: preimage_ok_def preimage_payload_def str16.enc_append_eq dest: str16.enc_inj)
qed

lemma merkle_next_level_odd:
  "odd (length xs) \<Longrightarrow> merkle_next_level C (xs @ [last xs]) = merkle_next_level C xs"
  by (induction C xs rule: merkle_next_level.induct) auto


text \<open>The byte strings hashed on the way to the root, and collisions between two such lists.\<close>

fun level_inputs :: "bytes list \<Rightarrow> bytes list" where
  "level_inputs (left # right # rest) = (MERKLE_NODE_DOMAIN @ left @ right) # level_inputs rest"
| "level_inputs [left] = [MERKLE_NODE_DOMAIN @ left @ left]"
| "level_inputs [] = []"

lemma merkle_next_level_inputs: "merkle_next_level C xs = map (sha256 C) (level_inputs xs)"
  by (induction C xs rule: merkle_next_level.induct) (auto simp: merkle_parent_def)

function merkle_inputs :: "crypto \<Rightarrow> bytes list \<Rightarrow> bytes list" where
  "merkle_inputs C level =
    (if 1 < length level then level_inputs level @ merkle_inputs C (merkle_next_level C level) else [])"
  by auto
termination by (relation "measure (\<lambda>(_, level). length level)") (auto simp: length_merkle_next_level)

declare merkle_inputs.simps [simp del]

text \<open>The bytes a transaction id contributes to its Merkle leaf.\<close>

definition leaf_content :: "crypto \<Rightarrow> Hash \<Rightarrow> bytes" where
  "leaf_content C txid =
    (case hex_decode C txid of
       Some bs \<Rightarrow> if length bs = 32 then bs else as_bytes txid
     | None \<Rightarrow> as_bytes txid)"

definition leaf_input :: "crypto \<Rightarrow> Hash \<Rightarrow> bytes" where
  "leaf_input C txid = MERKLE_LEAF_DOMAIN @ leaf_content C txid"

lemma merkle_leaf_input: "merkle_leaf C txid = sha256 C (leaf_input C txid)"
  by (simp add: merkle_leaf_def leaf_content_def leaf_input_def)

definition tree_inputs :: "crypto \<Rightarrow> Hash list \<Rightarrow> bytes list" where
  "tree_inputs C txids = map (leaf_input C) txids @ merkle_inputs C (map (merkle_leaf C) txids)"

definition collide :: "crypto \<Rightarrow> bytes list \<Rightarrow> bytes list \<Rightarrow> bool" where
  "collide C xs ys \<longleftrightarrow> (\<exists>x \<in> set xs. \<exists>y \<in> set ys. x \<noteq> y \<and> sha256 C x = sha256 C y)"

lemma map_sha256_eq:
  "map (sha256 C) xs = map (sha256 C) ys \<Longrightarrow> \<not> collide C xs ys \<Longrightarrow> xs = ys"
proof (induction xs arbitrary: ys)
  case (Cons x xs)
  then obtain y zs where ys: "ys = y # zs" by (cases ys) auto
  with Cons.prems have "x = y" "\<not> collide C xs zs" by (auto simp: collide_def)
  with Cons ys show ?case by simp
qed simp

lemma level_inputs_eq:
  "length xs = length ys \<Longrightarrow> level_inputs xs = level_inputs ys \<Longrightarrow>
    (\<And>x. x \<in> set xs \<union> set ys \<Longrightarrow> length x = 32) \<Longrightarrow> xs = ys"
proof (induction xs arbitrary: ys rule: level_inputs.induct)
  case (1 left right rest)
  then obtain l r zs where ys: "ys = l # r # zs"
    by (cases ys; cases "tl ys") auto
  have "length left = length l"
    using "1.prems"(3) [of left] "1.prems"(3) [of l] ys by simp
  then have "left = l \<and> right = r" using "1.prems"(2) ys by simp
  moreover have "rest = zs"
  proof (rule "1.IH")
    show "length x = 32" if "x \<in> set rest \<union> set zs" for x
      using "1.prems"(3) [of x] that ys by auto
  qed (use "1.prems"(1,2) ys in simp_all)
  ultimately show ?case using ys by simp
next
  case (2 left)
  then obtain l where ys: "ys = [l]" by (cases ys; cases "tl ys") auto
  have "length left = length l" using "2.prems"(3) [of left] "2.prems"(3) [of l] ys by simp
  then show ?case using "2.prems"(2) ys by simp
qed auto

text \<open>Two levels of the same length with the same root are equal, unless hashed inputs collide.\<close>

lemma merkle_loop_eq:
  assumes "\<forall>b. length (sha256 C b) = 32" "\<not> collide C (merkle_inputs C xs) (merkle_inputs C ys)"
    "length xs = length ys" "xs \<noteq> []" "\<And>x. x \<in> set xs \<union> set ys \<Longrightarrow> length x = 32"
    "merkle_loop C xs = merkle_loop C ys"
  shows "xs = ys"
  using assms
proof (induction C xs arbitrary: ys rule: merkle_loop.induct)
  case (1 C level)
  show ?case
  proof (cases "1 < length level")
    case True
    then have in1: "merkle_inputs C level = level_inputs level @ merkle_inputs C (merkle_next_level C level)"
      by (subst merkle_inputs.simps) simp
    have in2: "merkle_inputs C ys = level_inputs ys @ merkle_inputs C (merkle_next_level C ys)"
      using True "1.prems"(3) by (subst merkle_inputs.simps) simp
    have nc: "\<not> collide C (level_inputs level) (level_inputs ys)"
      "\<not> collide C (merkle_inputs C (merkle_next_level C level)) (merkle_inputs C (merkle_next_level C ys))"
      using "1.prems"(2) unfolding in1 in2 collide_def set_append by blast+
    have "merkle_next_level C level = merkle_next_level C ys"
    proof (rule "1.IH" [OF True "1.prems"(1) nc(2)])
      show "length (merkle_next_level C level) = length (merkle_next_level C ys)"
        using "1.prems"(3) by (simp add: length_merkle_next_level)
      show "merkle_next_level C level \<noteq> []"
        using True by (cases level; cases "tl level") auto
      show "length x = 32" if "x \<in> set (merkle_next_level C level) \<union> set (merkle_next_level C ys)" for x
        using that "1.prems"(1) by (auto simp: merkle_next_level_inputs)
      have "merkle_loop C level = merkle_loop C (merkle_next_level C level)"
        using True by (subst merkle_loop.simps) simp
      moreover have "merkle_loop C ys = merkle_loop C (merkle_next_level C ys)"
        using True "1.prems"(3) by (subst merkle_loop.simps) simp
      ultimately show "merkle_loop C (merkle_next_level C level) = merkle_loop C (merkle_next_level C ys)"
        using "1.prems"(6) by simp
    qed
    then have "level_inputs level = level_inputs ys"
      by (intro map_sha256_eq [OF _ nc(1)]) (simp add: merkle_next_level_inputs)
    with "1.prems"(3) show ?thesis by (rule level_inputs_eq) (rule "1.prems"(5))
  next
    case False
    then obtain a b where "level = [a]" "ys = [b]"
      using "1.prems"(3,4) by (cases level; cases ys) auto
    then show ?thesis
      using "1.prems"(6) merkle_loop.simps [of C "[a]"] merkle_loop.simps [of C "[b]"] by simp
  qed
qed

section \<open>Properties\<close>

text \<open>A crypto instance that satisfies the hexadecimal round trip, for the witnesses.\<close>

definition plain_crypto :: crypto where
  "plain_crypto = \<lparr>sha256 = (\<lambda>b. b), hex_encode = map (\<lambda>b. char_of (unat b)),
    hex_decode = (\<lambda>s. Some (as_bytes s)), ed25519_verify = (\<lambda>_ _ _. True)\<rparr>"

lemma hex_roundtrip_plain: "hex_roundtrip plain_crypto"
proof -
  have "word_of_nat (of_char (char_of (unat b) :: char)) = b" for b :: u8
    using unat_u8_bound [of b] by (simp add: take_bit_nat_eq_self)
  then show ?thesis by (simp add: hex_roundtrip_def plain_crypto_def as_bytes_def comp_def)
qed

text \<open>
  C27. A block hash commits to the whole header: two headers with the same hash are equal, including
  nonce, parent order and both roots, unless their canonical encodings are a SHA-256 collision.
\<close>

theorem block_hash_commits_to_header:
  assumes "hex_roundtrip C" "compute_block_hash C h = Some x" "compute_block_hash C h' = Some x"
  shows "h = h' \<or> (\<exists>b b'. canonical_block_header_bytes h = Some b
    \<and> canonical_block_header_bytes h' = Some b' \<and> b \<noteq> b' \<and> sha256 C b = sha256 C b')"
proof -
  obtain b b' where b: "canonical_block_header_bytes h = Some b"
    "canonical_block_header_bytes h' = Some b'"
    "hex_encode C (sha256 C b) = hex_encode C (sha256 C b')"
    using assms(2,3) by (auto simp: compute_block_hash_def split: bind_splits)
  have "sha256 C b = sha256 C b'"
    using assms(1) b(3) by (metis hex_roundtrip_def option.inject)
  moreover have "b = b' \<Longrightarrow> h = h'"
    using b(1,2) header.enc_inj by (auto simp: canonical_block_header_bytes_eq split: if_splits)
  ultimately show ?thesis using b by blast
qed

theorem block_hash_commits_to_header_witness:
  "let h = \<lparr>h_version = 1, h_parents = [], h_timestamp = 1, h_difficulty = 2, h_nonce = 3,
      h_merkle_root = ''m'', h_state_root = ''s'', h_blue_score = 4, h_height = 5\<rparr>;
    h' = h\<lparr>h_nonce := 4\<rparr> in
   \<exists>x y. compute_block_hash plain_crypto h = Some x \<and> compute_block_hash plain_crypto h' = Some y
     \<and> x \<noteq> y"
proof -
  define h :: BlockHeader where
    "h = \<lparr>h_version = 1, h_parents = [], h_timestamp = 1, h_difficulty = 2, h_nonce = 3,
      h_merkle_root = ''m'', h_state_root = ''s'', h_blue_score = 4, h_height = 5\<rparr>"
  define h' where "h' = h\<lparr>h_nonce := 4\<rparr>"
  have "header_ok h" "header_ok h'" by (simp_all add: header_ok_def h_def h'_def counted_ok_def len32_def)
  then obtain x y where xy: "compute_block_hash plain_crypto h = Some x"
    "compute_block_hash plain_crypto h' = Some y"
    by (simp add: compute_block_hash_def canonical_block_header_bytes_eq)
  have "h \<noteq> h'" by (simp add: h_def h'_def)
  moreover have "\<not> (\<exists>b b'. b \<noteq> b' \<and> sha256 plain_crypto b = sha256 plain_crypto b')"
    by (simp add: plain_crypto_def)
  ultimately have "x \<noteq> y"
    using block_hash_commits_to_header [OF hex_roundtrip_plain xy(1)] xy(2) by blast
  with xy show ?thesis unfolding h'_def h_def Let_def by blast
qed

text \<open>
  C28. The mining preimage determines the header up to the nonce and the order of the parents, and
  it does not depend on the nonce or on the parent order.
\<close>

theorem mining_preimage_commits:
  assumes "canonical_mining_preimage_bytes h = Some b"
  shows "canonical_mining_preimage_bytes h' = Some b \<longleftrightarrow>
    mset (h_parents h') = mset (h_parents h)
    \<and> h'\<lparr>h_parents := [], h_nonce := 0\<rparr> = h\<lparr>h_parents := [], h_nonce := 0\<rparr>"
proof
  assume "canonical_mining_preimage_bytes h' = Some b"
  then have "sort (h_parents h') = sort (h_parents h)
    \<and> h'\<lparr>h_parents := [], h_nonce := 0\<rparr> = h\<lparr>h_parents := [], h_nonce := 0\<rparr>"
    using assms by (intro preimage_payload_eq)
      (auto simp: canonical_mining_preimage_bytes_eq split: if_splits)
  then show "mset (h_parents h') = mset (h_parents h)
    \<and> h'\<lparr>h_parents := [], h_nonce := 0\<rparr> = h\<lparr>h_parents := [], h_nonce := 0\<rparr>"
    by (metis mset_sort)
next
  assume *: "mset (h_parents h') = mset (h_parents h)
    \<and> h'\<lparr>h_parents := [], h_nonce := 0\<rparr> = h\<lparr>h_parents := [], h_nonce := 0\<rparr>"
  then have "sort (h_parents h') = sort (h_parents h)" "set (h_parents h') = set (h_parents h)"
    "length (h_parents h') = length (h_parents h)"
    by (metis properties_for_sort mset_sort sorted_sort, metis mset_eq_setD, metis mset_eq_length)
  with * assms show "canonical_mining_preimage_bytes h' = Some b"
    by (cases h, cases h')
      (auto simp: canonical_mining_preimage_bytes_eq preimage_ok_def preimage_payload_def
        list_all_iff len16_def split: if_splits)
qed

theorem mining_preimage_commits_witness:
  "let h = \<lparr>h_version = 1, h_parents = [''a'', ''b''], h_timestamp = 1, h_difficulty = 2, h_nonce = 3,
      h_merkle_root = ''m'', h_state_root = ''s'', h_blue_score = 4, h_height = 5\<rparr>
   in \<exists>b. canonical_mining_preimage_bytes h = Some b
     \<and> canonical_mining_preimage_bytes (h\<lparr>h_parents := [''b'', ''a''], h_nonce := 9\<rparr>) = Some b
     \<and> canonical_mining_preimage_bytes (h\<lparr>h_height := 6\<rparr>) \<noteq> Some b"
proof -
  define h :: BlockHeader where
    "h = \<lparr>h_version = 1, h_parents = [''a'', ''b''], h_timestamp = 1, h_difficulty = 2, h_nonce = 3,
      h_merkle_root = ''m'', h_state_root = ''s'', h_blue_score = 4, h_height = 5\<rparr>"
  have "preimage_ok h" by (simp add: preimage_ok_def h_def len16_def)
  then obtain b where b: "canonical_mining_preimage_bytes h = Some b"
    by (simp add: canonical_mining_preimage_bytes_eq)
  have "canonical_mining_preimage_bytes (h\<lparr>h_parents := [''b'', ''a''], h_nonce := 9\<rparr>) = Some b"
    using mining_preimage_commits [OF b, of "h\<lparr>h_parents := [''b'', ''a''], h_nonce := 9\<rparr>"]
    by (simp add: h_def add_mset_commute)
  moreover have "canonical_mining_preimage_bytes (h\<lparr>h_height := 6\<rparr>) \<noteq> Some b"
    using mining_preimage_commits [OF b, of "h\<lparr>h_height := 6\<rparr>"] by (simp add: h_def)
  ultimately show ?thesis using b unfolding h_def Let_def by blast
qed

text \<open>
  C26. The Merkle root commits to the transaction list: for the same number of transactions, equal
  roots mean equal leaf contents position by position, unless two of the byte strings hashed for the
  two trees are a SHA-256 collision; but padding an odd list (of at least three) with a copy of its
  last transaction id leaves the root unchanged, which is why block validation has to reject
  duplicate transaction ids separately.
\<close>

theorem merkle_root_commits:
  assumes "hex_roundtrip C" "\<forall>b. length (sha256 C b) = 32"
  shows "(length txids = length txids' \<and>
      compute_merkle_root_from_txids C txids = compute_merkle_root_from_txids C txids' \<longrightarrow>
      collide C (tree_inputs C txids) (tree_inputs C txids')
      \<or> map (leaf_content C) txids = map (leaf_content C) txids')
    \<and> (odd (length txids) \<and> 3 \<le> length txids \<longrightarrow>
      compute_merkle_root_from_txids C (txids @ [last txids]) = compute_merkle_root_from_txids C txids)"
proof (intro conjI impI; elim conjE)
  assume len: "length txids = length txids'"
    and eq: "compute_merkle_root_from_txids C txids = compute_merkle_root_from_txids C txids'"
  show "collide C (tree_inputs C txids) (tree_inputs C txids')
      \<or> map (leaf_content C) txids = map (leaf_content C) txids'"
  proof (cases "txids = [] \<or> collide C (tree_inputs C txids) (tree_inputs C txids')")
    case False
    then have nc: "\<not> collide C (map (leaf_input C) txids) (map (leaf_input C) txids')"
      "\<not> collide C (merkle_inputs C (map (merkle_leaf C) txids))
        (merkle_inputs C (map (merkle_leaf C) txids'))"
      by (auto simp: collide_def tree_inputs_def)
    have ne: "txids \<noteq> []" "txids' \<noteq> []" using False len by auto
    then have "hex_encode C (merkle_loop C (map (merkle_leaf C) txids))
        = hex_encode C (merkle_loop C (map (merkle_leaf C) txids'))"
      using eq by (simp add: compute_merkle_root_from_txids_def)
    then have "merkle_loop C (map (merkle_leaf C) txids) = merkle_loop C (map (merkle_leaf C) txids')"
      using assms(1) unfolding hex_roundtrip_def by (metis option.inject)
    then have "map (merkle_leaf C) txids = map (merkle_leaf C) txids'"
      by (rule merkle_loop_eq [OF assms(2) nc(2), rotated -1])
        (use ne len assms(2) in \<open>auto simp: merkle_leaf_input\<close>)
    then have "map (leaf_input C) txids = map (leaf_input C) txids'"
      by (intro map_sha256_eq [OF _ nc(1)]) (simp add: merkle_leaf_input [abs_def] comp_def)
    from arg_cong [OF this, of "map (drop (length MERKLE_LEAF_DOMAIN))"]
    show ?thesis by (simp add: leaf_input_def [abs_def] comp_def)
  qed (use len in auto)
next
  assume odd: "odd (length txids)" and ge: "3 \<le> length txids"
  let ?l = "map (merkle_leaf C) txids"
  have "map (merkle_leaf C) (txids @ [last txids]) = ?l @ [last ?l]"
    using ge by (cases txids rule: rev_cases) auto
  moreover have "merkle_loop C (?l @ [last ?l]) = merkle_loop C ?l"
    using odd ge merkle_next_level_odd [of ?l C]
      merkle_loop.simps [of C "?l @ [last ?l]"] merkle_loop.simps [of C ?l] by auto
  ultimately show "compute_merkle_root_from_txids C (txids @ [last txids])
      = compute_merkle_root_from_txids C txids"
    using ge by (auto simp: compute_merkle_root_from_txids_def)
qed

text \<open>A crypto instance with 32-byte digests, for the witness.\<close>

definition digest_crypto :: crypto where
  "digest_crypto = plain_crypto\<lparr>sha256 := (\<lambda>b. take 32 (rev b @ replicate 32 0))\<rparr>"

theorem merkle_root_commits_witness:
  "hex_roundtrip digest_crypto \<and> (\<forall>b. length (sha256 digest_crypto b) = 32)
   \<and> compute_merkle_root_from_txids digest_crypto ([''a'', ''b'', ''c''] @ [last [''a'', ''b'', ''c'']])
     = compute_merkle_root_from_txids digest_crypto [''a'', ''b'', ''c'']"
proof -
  have h: "hex_roundtrip digest_crypto"
    using hex_roundtrip_plain by (simp add: hex_roundtrip_def digest_crypto_def)
  have l: "\<forall>b. length (sha256 digest_crypto b) = 32" by (auto simp: digest_crypto_def min_def)
  show ?thesis using h l merkle_root_commits [OF h l, of "[''a'', ''b'', ''c'']" "[]"] by simp
qed

end
