(* ===== verification/Pulse_State.thy ===== *)
theory Pulse_State
  imports Pulse_Types
begin

text \<open>
  The node state (\<open>state.rs\<close>): the DAG metadata, the UTXO set with its address index, the mempool and
  the chain state that holds them, with the index consistency check and the UTXO state root. Hash maps
  are association lists with distinct keys, hash sets are lists without duplicates; the order of the
  list stands for the iteration order, which the language leaves unspecified.
\<close>

section \<open>Data\<close>

record ContractRuntimeConfig =
  cc_enabled :: bool
  cc_vm_version :: string
  cc_max_gas_per_tx :: u64
  cc_max_contract_size_bytes :: u64
  cc_max_storage_key_bytes :: u32
  cc_max_storage_value_bytes :: u32

record ContractRuntimeState =
  cr_config :: ContractRuntimeConfig
  cr_contract_count :: u64
  cr_storage_slots :: u64
  cr_receipt_count :: u64
  cr_last_receipt_id :: "string option"

datatype ConsensusMode = Legacy | GhostdagDev

definition ghostdag_metadata_active :: "ConsensusMode \<Rightarrow> bool" where
  "ghostdag_metadata_active m \<longleftrightarrow> m = GhostdagDev"

datatype SelectedParentPolicy = GhostdagInspired | LegacyTip

record MergeSetDiagnostics =
  md_selected_parent :: "Hash option"
  md_blue_score :: u64
  md_merge_set_size :: nat
  md_merge_set_blues_count :: nat
  md_merge_set_reds_count :: nat

record DagState =
  dag_blocks :: "(Hash \<times> Block) list"
  dag_tips :: "Hash list"
  dag_children :: "(Hash \<times> Hash list) list"
  dag_genesis_hash :: Hash
  dag_best_height :: u64
  dag_consensus_mode :: ConsensusMode
  dag_selected_parents :: "(Hash \<times> Hash option) list"
  dag_selected_chain :: "Hash list"
  dag_selected_parent_policy :: SelectedParentPolicy
  dag_merge_set_k :: nat
  dag_merge_set_blues :: "(Hash \<times> Hash list) list"
  dag_merge_set_reds :: "(Hash \<times> Hash list) list"
  dag_blue_work :: "(Hash \<times> u128) list"
  dag_merge_set_diagnostics :: "(Hash \<times> MergeSetDiagnostics) list"
  dag_ordered_dag :: "Hash list"
  dag_ordering_version :: string
  dag_ordered_dag_rebuild_total :: u64
  dag_ordered_dag_rebuild_failed_total :: u64
  dag_ordered_dag_state_root :: "Hash option"
  dag_ordered_dag_tip :: "Hash option"
  dag_ordered_dag_conflict_diagnostics :: "string list"

record UtxoState =
  us_utxos :: "(OutPoint \<times> Utxo) list"
  us_address_index :: "(Address \<times> OutPoint list) list"

record MempoolCounters =
  mc_accepted_total :: u64
  mc_rejected_total :: u64
  mc_rejected_low_priority_total :: u64
  mc_evicted_total :: u64
  mc_pressure_events_total :: u64
  mc_reconcile_runs_total :: u64
  mc_reconcile_removed_total :: u64
  mc_confirmed_removed_total :: u64
  mc_orphaned_total :: u64
  mc_orphan_promoted_total :: u64
  mc_orphan_dropped_total :: u64
  mc_orphan_pruned_total :: u64

record Mempool =
  mp_transactions :: "(Hash \<times> Transaction) list"
  mp_spent_outpoints :: "OutPoint list"
  mp_first_seen :: "(Hash \<times> u64) list"
  mp_next_first_seen :: u64
  mp_admission_height :: "(Hash \<times> u64) list"
  mp_orphan_admission_height :: "(Hash \<times> u64) list"
  mp_orphan_transactions :: "(Hash \<times> Transaction) list"
  mp_orphan_missing_outpoints :: "(Hash \<times> OutPoint list) list"
  mp_orphan_received_order :: "(Hash \<times> u64) list"
  mp_next_orphan_order :: u64
  mp_counters :: MempoolCounters
  mp_max_transactions :: nat
  mp_max_spent_outpoints :: nat
  mp_max_orphans :: nat

datatype MissingParentState =
    Requestable
  | Pending string
  | Retryable string
  | Backoff u64
  | Exhausted "string list"
  | ExhaustedResidual
  | Peerless
  | TerminalEvicted
  | Quarantined
  | Resolved

record MissingParentTerminalEntry =
  mt_state :: MissingParentState
  mt_transitioned_at_ms :: u64
  mt_waiting_orphans :: "Hash list"
  mt_terminal_generation :: u64
  mt_terminal_at_unix :: u64
  mt_terminal_peer_set_digest :: "string option"
  mt_reopened_total :: u64
  mt_reopen_reason :: "string option"
  mt_selected_segment_required :: bool

record ChainState =
  cs_chain_id :: string
  cs_dag :: DagState
  cs_utxo :: UtxoState
  cs_mempool :: Mempool
  cs_contracts :: ContractRuntimeState
  cs_orphan_blocks :: "(Hash \<times> Block) list"
  cs_orphan_missing_parents :: "(Hash \<times> Hash list) list"
  cs_orphan_parent_index :: "(Hash \<times> Hash list) list"
  cs_orphan_received_at_ms :: "(Hash \<times> u64) list"
  cs_terminal_missing_parents :: "(Hash \<times> MissingParentTerminalEntry) list"
  cs_chain_state_generation :: u64
  cs_accepted_commit_generation_conflict_total :: u64
  cs_accepted_commit_reprepare_total :: u64
  cs_accepted_commit_serialized_total :: u64
  cs_accepted_commit_publish_mismatch_total :: u64
  cs_accepted_commit_last_hash :: "Hash option"
  cs_accepted_commit_last_source :: "string option"
  cs_chain_state_mutation_generation :: u64
  cs_chain_state_mutation_source :: "string option"
  cs_chain_state_mutation_conflict_total :: u64
  cs_chain_state_reprepare_total :: u64
  cs_accepted_hash_lost_from_memory_total :: u64
  cs_accepted_hash_terminalization_prevented_total :: u64
  cs_accepted_storage_repair_total :: u64
  cs_last_lost_accepted_hash :: "Hash option"
  cs_last_lost_accepted_height :: "u64 option"

section \<open>Operations\<close>

definition GHOSTDAG_V1_ORDERING_VERSION :: string where
  "GHOSTDAG_V1_ORDERING_VERSION = ''ghostdag-v1-topological-v1''"

definition default_counters :: MempoolCounters where
  "default_counters = \<lparr>mc_accepted_total = 0, mc_rejected_total = 0,
    mc_rejected_low_priority_total = 0, mc_evicted_total = 0, mc_pressure_events_total = 0,
    mc_reconcile_runs_total = 0, mc_reconcile_removed_total = 0, mc_confirmed_removed_total = 0,
    mc_orphaned_total = 0, mc_orphan_promoted_total = 0, mc_orphan_dropped_total = 0,
    mc_orphan_pruned_total = 0\<rparr>"

definition default_mempool :: Mempool where
  "default_mempool = \<lparr>mp_transactions = [], mp_spent_outpoints = [], mp_first_seen = [],
    mp_next_first_seen = 0, mp_admission_height = [], mp_orphan_admission_height = [],
    mp_orphan_transactions = [], mp_orphan_missing_outpoints = [], mp_orphan_received_order = [],
    mp_next_orphan_order = 0, mp_counters = default_counters, mp_max_transactions = 4096,
    mp_max_spent_outpoints = 8192, mp_max_orphans = 512\<rparr>"

definition UTXO_STATE_ROOT_DOMAIN :: bytes where
  "UTXO_STATE_ROOT_DOMAIN = as_bytes ''PulseDAG:utxo-state-root:v1''"

definition outpoint_label :: "OutPoint \<Rightarrow> string" where
  "outpoint_label outpoint = op_txid outpoint @ '':'' @ format_nat (unat (op_index outpoint))"

fun index_outpoints ::
  "Address \<Rightarrow> OutPoint list \<Rightarrow> OutPoint list \<Rightarrow> (OutPoint \<times> Address) list \<Rightarrow>
    PulseError + (OutPoint \<times> Address) list" where
  "index_outpoints address [] seen_for_address indexed = Inr indexed"
| "index_outpoints address (outpoint # outpoints) seen_for_address indexed =
    (if outpoint \<in> set seen_for_address then
       Inl (NonDeterministicState (''duplicate address index entry '' @ outpoint_label outpoint
         @ '' for address '' @ address))
     else if contains_key indexed outpoint then
       Inl (NonDeterministicState (''outpoint '' @ outpoint_label outpoint
         @ '' appears under multiple addresses''))
     else index_outpoints address outpoints (insort_insert outpoint seen_for_address)
       (AList.update outpoint address indexed))"

fun index_addresses ::
  "(Address \<times> OutPoint list) list \<Rightarrow> (OutPoint \<times> Address) list \<Rightarrow>
    PulseError + (OutPoint \<times> Address) list" where
  "index_addresses [] indexed = Inr indexed"
| "index_addresses ((address, outpoints) # rest) indexed =
    rbind (index_outpoints address outpoints [] indexed) (index_addresses rest)"

fun check_utxos ::
  "(OutPoint \<times> Address) list \<Rightarrow> (OutPoint \<times> Utxo) list \<Rightarrow> PulseError + unit" where
  "check_utxos indexed [] = Inr ()"
| "check_utxos indexed ((outpoint, utxo) # rest) =
    (if u_outpoint utxo \<noteq> outpoint then
       Inl (NonDeterministicState (''utxo key '' @ outpoint_label outpoint
         @ '' does not match embedded outpoint '' @ outpoint_label (u_outpoint utxo)))
     else case lookup indexed outpoint of
       Some address \<Rightarrow>
         if address = u_address utxo then check_utxos indexed rest
         else Inl (NonDeterministicState (''address index maps '' @ outpoint_label outpoint @ '' to ''
           @ address @ '', expected '' @ u_address utxo))
     | None \<Rightarrow> Inl (NonDeterministicState (''missing address index entry for ''
         @ outpoint_label outpoint)))"

fun check_indexed_keys :: "(OutPoint \<times> Utxo) list \<Rightarrow> OutPoint list \<Rightarrow> PulseError + unit" where
  "check_indexed_keys utxos [] = Inr ()"
| "check_indexed_keys utxos (outpoint # rest) =
    (if \<not> contains_key utxos outpoint then
       Inl (NonDeterministicState (''address index references missing outpoint ''
         @ outpoint_label outpoint))
     else check_indexed_keys utxos rest)"

definition validate_deterministic_indexes :: "UtxoState \<Rightarrow> PulseError + unit" where
  "validate_deterministic_indexes s =
    rbind (index_addresses (us_address_index s) []) (\<lambda>indexed.
    rbind (check_utxos indexed (us_utxos s)) (\<lambda>_.
    check_indexed_keys (us_utxos s) (sort (map fst indexed))))"

definition encode_utxo_entry :: "OutPoint \<times> Utxo \<Rightarrow> bytes option" where
  "encode_utxo_entry entry = do {
    let (outpoint, utxo) = entry;
    txid \<leftarrow> encode_len_prefixed_str (op_txid outpoint);
    address \<leftarrow> encode_len_prefixed_str (u_address utxo);
    Some (txid @ to_le_bytes (op_index outpoint) @ address @ to_le_bytes (u_amount utxo)
      @ [if u_coinbase utxo then 1 else 0] @ to_le_bytes (u_height utxo))
  }"

definition state_root_bytes :: "UtxoState \<Rightarrow> bytes option" where
  "state_root_bytes s = do {
    let ordered = sort_key fst (us_utxos s);
    dom \<leftarrow> encode_len_prefixed_bytes UTXO_STATE_ROOT_DOMAIN;
    count \<leftarrow> (try_from_nat (length ordered) :: u64 option);
    entries \<leftarrow> those (map encode_utxo_entry ordered);
    Some (dom @ to_le_bytes count @ concat entries)
  }"

definition compute_state_root :: "crypto \<Rightarrow> UtxoState \<Rightarrow> PulseError + Hash" where
  "compute_state_root C s =
    rbind (validate_deterministic_indexes s) (\<lambda>_.
    rbind (ok_or (Panic ''canonical field length exceeds u32::MAX'') (state_root_bytes s)) (\<lambda>bs.
    Inr (hex_encode C (sha256 C bs))))"

text \<open>\<open>selected_parents.get(hash).cloned().flatten()\<close>\<close>

definition selected_parent_of :: "ChainState \<Rightarrow> Hash \<Rightarrow> Hash option" where
  "selected_parent_of state hash =
    (case lookup (dag_selected_parents (cs_dag state)) hash of None \<Rightarrow> None | Some p \<Rightarrow> p)"

text \<open>A state with nothing in it, from which examples are built.\<close>

definition blank_state :: ChainState where
  "blank_state = \<lparr>cs_chain_id = ''pulse'',
    cs_dag = \<lparr>dag_blocks = [], dag_tips = [], dag_children = [], dag_genesis_hash = ''g'',
      dag_best_height = 0, dag_consensus_mode = Legacy, dag_selected_parents = [], dag_selected_chain = [],
      dag_selected_parent_policy = LegacyTip, dag_merge_set_k = 2, dag_merge_set_blues = [],
      dag_merge_set_reds = [], dag_blue_work = [], dag_merge_set_diagnostics = [], dag_ordered_dag = [],
      dag_ordering_version = ''legacy'', dag_ordered_dag_rebuild_total = 0,
      dag_ordered_dag_rebuild_failed_total = 0, dag_ordered_dag_state_root = None,
      dag_ordered_dag_tip = None, dag_ordered_dag_conflict_diagnostics = []\<rparr>,
    cs_utxo = \<lparr>us_utxos = [], us_address_index = []\<rparr>,
    cs_mempool = default_mempool,
    cs_contracts = \<lparr>cr_config = \<lparr>cc_enabled = False, cc_vm_version = ''reserved-v1'',
        cc_max_gas_per_tx = 10000000, cc_max_contract_size_bytes = 65536, cc_max_storage_key_bytes = 128,
        cc_max_storage_value_bytes = 65536\<rparr>,
      cr_contract_count = 0, cr_storage_slots = 0, cr_receipt_count = 0, cr_last_receipt_id = None\<rparr>,
    cs_orphan_blocks = [], cs_orphan_missing_parents = [], cs_orphan_parent_index = [],
    cs_orphan_received_at_ms = [], cs_terminal_missing_parents = [], cs_chain_state_generation = 0,
    cs_accepted_commit_generation_conflict_total = 0, cs_accepted_commit_reprepare_total = 0,
    cs_accepted_commit_serialized_total = 0, cs_accepted_commit_publish_mismatch_total = 0,
    cs_accepted_commit_last_hash = None, cs_accepted_commit_last_source = None,
    cs_chain_state_mutation_generation = 0, cs_chain_state_mutation_source = None,
    cs_chain_state_mutation_conflict_total = 0, cs_chain_state_reprepare_total = 0,
    cs_accepted_hash_lost_from_memory_total = 0, cs_accepted_hash_terminalization_prevented_total = 0,
    cs_accepted_storage_repair_total = 0, cs_last_lost_accepted_hash = None,
    cs_last_lost_accepted_height = None\<rparr>"

section \<open>Consistency of the address index\<close>

text \<open>
  What the check promises: embedded outpoints agree with the keys, index entries have no duplicates,
  and an outpoint is listed under an address exactly when its output is unspent and pays that address.
\<close>

definition maps_ok :: "UtxoState \<Rightarrow> bool" where
  "maps_ok s \<longleftrightarrow> distinct_keys (us_utxos s) \<and> distinct_keys (us_address_index s)"

definition consistent :: "UtxoState \<Rightarrow> bool" where
  "consistent s \<longleftrightarrow>
    (\<forall>op u. lookup (us_utxos s) op = Some u \<longrightarrow>
       u_outpoint u = op \<and> (\<exists>ops. lookup (us_address_index s) (u_address u) = Some ops \<and> op \<in> set ops))
    \<and> (\<forall>a ops. lookup (us_address_index s) a = Some ops \<longrightarrow> distinct ops \<and>
       (\<forall>op \<in> set ops. \<exists>u. lookup (us_utxos s) op = Some u \<and> u_address u = a))"

lemma index_outpoints_Inr:
  "index_outpoints a ops seen ix = Inr ix' \<longleftrightarrow>
    distinct ops \<and> set ops \<inter> set seen = {} \<and> (\<forall>op \<in> set ops. lookup ix op = None)
    \<and> ix' = fold (\<lambda>op. AList.update op a) ops ix"
proof (induction a ops seen ix rule: index_outpoints.induct)
  case (2 a op ops seen ix)
  then show ?case by (auto simp: set_insort_insert update_conv')
qed auto

lemma lookup_fold_update:
  "lookup (fold (\<lambda>op. AList.update op a) ops ix) op = (if op \<in> set ops then Some a else lookup ix op)"
  by (induction ops arbitrary: ix) (auto simp: update_conv')

definition listed :: "(Address \<times> OutPoint list) list \<Rightarrow> OutPoint \<Rightarrow> Address \<Rightarrow> bool" where
  "listed ai op a \<longleftrightarrow> (\<exists>ops. (a, ops) \<in> set ai \<and> op \<in> set ops)"

text \<open>The index is well formed: no duplicates, and no outpoint under two addresses.\<close>

definition index_ok :: "(Address \<times> OutPoint list) list \<Rightarrow> bool" where
  "index_ok ai \<longleftrightarrow> (\<forall>(a, ops) \<in> set ai. distinct ops)
    \<and> (\<forall>op a b. listed ai op a \<longrightarrow> listed ai op b \<longrightarrow> a = b)"

lemma listed_Cons: "listed ((b, ops) # ai) op a \<longleftrightarrow> (a = b \<and> op \<in> set ops) \<or> listed ai op a"
  by (auto simp: listed_def)

lemma not_listed_other: "distinct_keys ((b, ops) # ai) \<Longrightarrow> \<not> listed ai op b"
  by (force simp: listed_def distinct_keys_def)

lemma index_addresses_sound:
  assumes "distinct_keys ai" "index_addresses ai ix = Inr ix'"
  shows "index_ok ai \<and> (\<forall>op a. listed ai op a \<longrightarrow> lookup ix op = None)
    \<and> (\<forall>op a. lookup ix' op = Some a \<longleftrightarrow> listed ai op a \<or> lookup ix op = Some a)"
  using assms
proof (induction ai arbitrary: ix)
  case Nil
  then show ?case by (auto simp: index_ok_def listed_def)
next
  case (Cons e ai)
  obtain b ops where e: "e = (b, ops)" by force
  have dk: "distinct_keys ai" using Cons.prems(1) by (simp add: distinct_keys_def)
  have nb: "\<And>op. \<not> listed ai op b" using not_listed_other Cons.prems(1) e by metis
  have d: "distinct ops" "\<forall>op \<in> set ops. lookup ix op = None"
    and rest: "index_addresses ai (fold (\<lambda>op. AList.update op b) ops ix) = Inr ix'"
    using Cons.prems(2) by (auto simp: e result_simps index_outpoints_Inr)
  from Cons.IH [OF dk rest] have ih: "index_ok ai"
    "\<forall>op a. listed ai op a \<longrightarrow> op \<notin> set ops \<and> lookup ix op = None"
    "\<forall>op a. lookup ix' op = Some a \<longleftrightarrow>
      listed ai op a \<or> (if op \<in> set ops then Some b else lookup ix op) = Some a"
    by (auto simp: lookup_fold_update split: if_splits)
  show ?case using ih d nb by (auto simp: e index_ok_def listed_Cons)
qed

lemma index_addresses_complete:
  assumes "distinct_keys ai" "index_ok ai" "\<forall>op a. listed ai op a \<longrightarrow> lookup ix op = None"
  shows "\<exists>ix'. index_addresses ai ix = Inr ix'"
  using assms
proof (induction ai arbitrary: ix)
  case (Cons e ai)
  obtain b ops where e: "e = (b, ops)" by force
  have dk: "distinct_keys ai" using Cons.prems(1) by (simp add: distinct_keys_def)
  have nb: "\<And>op. \<not> listed ai op b" using not_listed_other Cons.prems(1) e by metis
  have d: "distinct ops" "\<forall>op \<in> set ops. lookup ix op = None" "index_ok ai"
    using Cons.prems(2,3) by (auto simp: e index_ok_def listed_Cons)
  have d4: "lookup ix op = None \<and> op \<notin> set ops" if "listed ai op a" for op a
    using Cons.prems(2,3) nb [of op] that unfolding e index_ok_def listed_Cons by blast
  have "\<exists>ix'. index_addresses ai (fold (\<lambda>op. AList.update op b) ops ix) = Inr ix'"
    by (rule Cons.IH [OF dk d(3)]) (use d4 in \<open>auto simp: lookup_fold_update\<close>)
  moreover have "index_outpoints b ops [] ix = Inr (fold (\<lambda>op. AList.update op b) ops ix)"
    using d by (simp add: index_outpoints_Inr)
  ultimately show ?case by (simp add: e)
qed simp

lemma check_utxos_Inr:
  "check_utxos ix us = Inr () \<longleftrightarrow>
    (\<forall>(op, u) \<in> set us. u_outpoint u = op \<and> lookup ix op = Some (u_address u))"
  by (induction ix us rule: check_utxos.induct) (auto split: option.splits)

lemma check_indexed_keys_Inr:
  "check_indexed_keys us ks = Inr () \<longleftrightarrow> (\<forall>k \<in> set ks. contains_key us k)"
  by (induction us ks rule: check_indexed_keys.induct) auto

lemma validate_indexes_iff:
  assumes "maps_ok s"
  shows "validate_deterministic_indexes s = Inr () \<longleftrightarrow> consistent s"
proof -
  let ?ai = "us_address_index s" and ?us = "us_utxos s"
  have dk: "distinct_keys ?ai" "distinct_keys ?us" using assms by (simp_all add: maps_ok_def)
  have us: "\<And>op u. (op, u) \<in> set ?us \<longleftrightarrow> lookup ?us op = Some u" by (rule lookup_in_set [OF dk(2)])
  have ai: "\<And>op a. listed ?ai op a \<longleftrightarrow> (\<exists>ops. lookup ?ai a = Some ops \<and> op \<in> set ops)"
    by (simp add: listed_def lookup_in_set [OF dk(1)])
  have iok: "index_ok ?ai \<longleftrightarrow> (\<forall>a ops. lookup ?ai a = Some ops \<longrightarrow> distinct ops)
      \<and> (\<forall>op a b. listed ?ai op a \<longrightarrow> listed ?ai op b \<longrightarrow> a = b)"
    by (auto simp: index_ok_def lookup_in_set [OF dk(1)])
  show ?thesis
  proof
    assume "validate_deterministic_indexes s = Inr ()"
    then obtain ix where ix: "index_addresses ?ai [] = Inr ix" "check_utxos ix ?us = Inr ()"
      "check_indexed_keys ?us (sort (map fst ix)) = Inr ()"
      by (auto simp: validate_deterministic_indexes_def result_simps)
    from index_addresses_sound [OF dk(1) ix(1)]
    have ok: "index_ok ?ai" and l: "\<And>op a. lookup ix op = Some a \<longleftrightarrow> listed ?ai op a" by auto
    have u: "\<And>op u. lookup ?us op = Some u \<Longrightarrow> u_outpoint u = op \<and> listed ?ai op (u_address u)"
      using ix(2) us l by (fastforce simp: check_utxos_Inr)
    have k: "\<exists>u. lookup ?us op = Some u" if "listed ?ai op a" for op a
    proof -
      have "op \<in> set (map fst ix)" using that l by (metis map_of_eq_None_iff option.distinct(1) image_set)
      then show ?thesis using ix(3) by (auto simp: check_indexed_keys_Inr)
    qed
    have "\<exists>u. lookup ?us op = Some u \<and> u_address u = a" if "listed ?ai op a" for op a
      using k [OF that] u ok that unfolding iok by blast
    then show "consistent s" using u ok unfolding consistent_def iok ai by blast
  next
    assume c: "consistent s"
    have pays: "\<exists>u. lookup ?us op = Some u \<and> u_address u = a" if "listed ?ai op a" for op a
      using c that unfolding consistent_def ai by blast
    have uniq: "a = b" if "listed ?ai op a" "listed ?ai op b" for op a b
      using pays [OF that(1)] pays [OF that(2)] by auto
    have "index_ok ?ai" using c uniq unfolding iok consistent_def by blast
    then obtain ix where ix: "index_addresses ?ai [] = Inr ix"
      using index_addresses_complete [OF dk(1), of "[]"] by auto
    from index_addresses_sound [OF dk(1) ix]
    have l: "\<And>op a. lookup ix op = Some a \<longleftrightarrow> listed ?ai op a" by auto
    have "check_utxos ix ?us = Inr ()"
      using c us unfolding check_utxos_Inr l consistent_def ai by auto
    moreover have "check_indexed_keys ?us (sort (map fst ix)) = Inr ()"
    proof -
      have "contains_key ?us op" if "op \<in> set (map fst ix)" for op
      proof -
        obtain a where "lookup ix op = Some a" using \<open>op \<in> set (map fst ix)\<close>
          by (metis image_set map_of_eq_None_iff not_None_eq)
        then show ?thesis using c unfolding l ai consistent_def by fastforce
      qed
      then show ?thesis by (simp add: check_indexed_keys_Inr)
    qed
    ultimately show "validate_deterministic_indexes s = Inr ()"
      using ix by (simp add: validate_deterministic_indexes_def)
  qed
qed



section \<open>The state root\<close>

text \<open>Entries of the state-root encoding, as a self-delimiting code.\<close>

definition entry_ok :: "OutPoint \<times> Utxo \<Rightarrow> bool" where
  "entry_ok e \<longleftrightarrow> len32 (op_txid (fst e)) \<and> len32 (u_address (snd e)) \<and> u_outpoint (snd e) = fst e"

definition entry_payload :: "OutPoint \<times> Utxo \<Rightarrow> bytes" where
  "entry_payload e = prefixed (as_bytes (op_txid (fst e))) @ to_le_bytes (op_index (fst e))
    @ prefixed (as_bytes (u_address (snd e))) @ to_le_bytes (u_amount (snd e))
    @ [if u_coinbase (snd e) then 1 else 0] @ to_le_bytes (u_height (snd e))"

lemma encode_utxo_entry_eq:
  "encode_utxo_entry e =
    (if len32 (op_txid (fst e)) \<and> len32 (u_address (snd e)) then Some (entry_payload e) else None)"
  by (cases e) (auto simp: encode_utxo_entry_def encode_len_prefixed_str_eq entry_payload_def)

interpretation entry: codec entry_payload entry_ok
proof
  fix x y r s
  assume ok: "entry_ok x" "entry_ok y" and "entry_payload x @ r = entry_payload y @ s"
  then have "op_txid (fst x) = op_txid (fst y)" "op_index (fst x) = op_index (fst y)"
    "u_address (snd x) = u_address (snd y)" "u_amount (snd x) = u_amount (snd y)"
    "u_coinbase (snd x) = u_coinbase (snd y)" "u_height (snd x) = u_height (snd y)"
    by (auto simp: entry_ok_def entry_payload_def prefixed_str.enc_append_eq split: if_splits)
  then show "x = y" using ok
    by (cases x, cases y) (auto simp: entry_ok_def OutPoint.expand)
qed

text \<open>The sorted entries depend only on the map, not on the iteration order.\<close>

lemma sort_key_map_eq:
  assumes "distinct_keys xs" "distinct_keys ys" "map_of xs = map_of ys"
  shows "sort_key fst xs = sort_key fst (ys :: ('k::linorder \<times> 'v) list)"
proof -
  have "set xs = set ys"
    using assms lookup_in_set [OF assms(1)] lookup_in_set [OF assms(2)]
    by (metis pred_equals_eq2 subrelI subset_antisym)
  moreover have "distinct xs" "distinct ys"
    using assms(1,2) by (auto simp: distinct_keys_def distinct_map)
  ultimately have "mset xs = mset ys" by (simp add: set_eq_iff_mset_eq_distinct)
  moreover have "inj_on fst (set xs)" using assms(1) by (simp add: distinct_keys_def distinct_map)
  ultimately show ?thesis
    by (metis mset_sort sort_key_inj_key_eq sorted_sort_key)
qed

lemma consistent_entry:
  "maps_ok s \<Longrightarrow> consistent s \<Longrightarrow> (op, u) \<in> set (us_utxos s) \<Longrightarrow> u_outpoint u = op"
  by (auto simp: maps_ok_def lookup_in_set consistent_def)

lemma state_root_bytes_eq:
  "state_root_bytes s =
    (if length (us_utxos s) < 2 ^ 64
       \<and> list_all (\<lambda>e. len32 (op_txid (fst e)) \<and> len32 (u_address (snd e))) (us_utxos s)
     then Some (prefixed UTXO_STATE_ROOT_DOMAIN @ to_le_bytes (word_of_nat (length (us_utxos s)) :: u64)
       @ concat (map entry_payload (sort_key fst (us_utxos s))))
     else None)"
proof -
  have "len32 UTXO_STATE_ROOT_DOMAIN" by (simp add: UTXO_STATE_ROOT_DOMAIN_def len32_def)
  moreover have "those (map encode_utxo_entry (sort_key fst (us_utxos s))) =
      (if list_all (\<lambda>e. len32 (op_txid (fst e)) \<and> len32 (u_address (snd e))) (us_utxos s)
       then Some (map entry_payload (sort_key fst (us_utxos s))) else None)"
    using those_map_if [of "\<lambda>e. len32 (op_txid (fst e)) \<and> len32 (u_address (snd e))" entry_payload
        "sort_key fst (us_utxos s)"]
    by (simp add: encode_utxo_entry_eq [abs_def] list_all_iff)
  ultimately show ?thesis
    by (auto simp: state_root_bytes_def encode_len_prefixed_bytes_eq try_from_nat_def Let_def)
qed

lemma state_root_bytes_inj:
  assumes "state_root_bytes s = Some b" "state_root_bytes s' = Some b"
    "maps_ok s" "maps_ok s'" "consistent s" "consistent s'"
  shows "map_of (us_utxos s) = map_of (us_utxos s')"
proof -
  let ?o = "sort_key fst (us_utxos s)" and ?o' = "sort_key fst (us_utxos s')"
  have dist: "distinct_keys ?o" "distinct_keys ?o'"
    using assms(3,4) by (simp_all add: maps_ok_def distinct_keys_def distinct_map
        distinct_sort inj_on_def)
  have ok: "u_outpoint (snd e) = fst e" if "e \<in> set ?o \<or> e \<in> set ?o'" for e
    using that assms(3-6) by (cases e) (auto intro: consistent_entry)
  have fits: "length (us_utxos s) < 2 ^ 64" "length (us_utxos s') < 2 ^ 64"
    and oks: "list_all entry_ok ?o" "list_all entry_ok ?o'"
    and eq: "to_le_bytes (word_of_nat (length (us_utxos s)) :: u64) @ concat (map entry_payload ?o)
      = to_le_bytes (word_of_nat (length (us_utxos s')) :: u64) @ concat (map entry_payload ?o')"
    using assms(1,2) ok
    by (auto simp: state_root_bytes_eq list_all_iff entry_ok_def split: if_splits)
  have parts: "concat (map entry_payload ?o) = concat (map entry_payload ?o')"
    "length ?o = length ?o'"
    using eq fits by (simp_all add: word_of_length_eq)
  have "?o = ?o'" using entry.concat_same_length [of ?o ?o' "[]" "[]"] parts oks by simp
  then have "set (us_utxos s) = set (us_utxos s')" by (metis set_sort)
  then show ?thesis
    using assms(3,4) by (simp add: maps_ok_def distinct_keys_def map_of_inject_set)
qed

lemma state_root_bytes_cong:
  assumes "maps_ok s" "maps_ok s'" "map_of (us_utxos s) = map_of (us_utxos s')"
  shows "state_root_bytes s = state_root_bytes s'"
  using assms sort_key_map_eq [of "us_utxos s" "us_utxos s'"]
  by (simp add: state_root_bytes_def maps_ok_def)

section \<open>Properties\<close>

text \<open>
  C33. The deterministic-index check is exact: on a state whose maps have unique keys it succeeds if
  and only if every unspent output is stored under its own outpoint and listed under its address, and
  every listed outpoint is unspent, pays the address it is listed under and is listed once.
\<close>

theorem validate_indexes_exact:
  assumes "maps_ok s"
  shows "validate_deterministic_indexes s = Inr () \<longleftrightarrow> consistent s"
  using assms by (rule validate_indexes_iff)

definition sample_utxo_state :: UtxoState where
  "sample_utxo_state = \<lparr>us_utxos = [(OutPoint ''t'' 0,
      \<lparr>u_outpoint = OutPoint ''t'' 0, u_address = ''a'', u_amount = 5, u_coinbase = False, u_height = 1\<rparr>)],
    us_address_index = [(''a'', [OutPoint ''t'' 0])]\<rparr>"

theorem validate_indexes_exact_witness:
  "maps_ok sample_utxo_state \<and> consistent sample_utxo_state"
proof -
  have m: "maps_ok sample_utxo_state" by (simp add: maps_ok_def sample_utxo_state_def distinct_keys_def)
  have "validate_deterministic_indexes sample_utxo_state = Inr ()"
    by (simp add: validate_deterministic_indexes_def sample_utxo_state_def)
  with m validate_indexes_exact [OF m] show ?thesis by simp
qed

text \<open>
  C13. The state root is a function of the UTXO map alone, independent of the iteration order of the
  hash maps and of the order inside the address index, and it commits to that map: two consistent
  states with the same root hold the same unspent outputs, unless their encodings are a SHA-256
  collision.
\<close>

theorem state_root_commits_to_utxos:
  assumes "hex_roundtrip C" "maps_ok s" "maps_ok s'" "consistent s" "consistent s'"
  shows "(map_of (us_utxos s) = map_of (us_utxos s') \<longrightarrow> compute_state_root C s = compute_state_root C s')
    \<and> (compute_state_root C s = Inr r \<and> compute_state_root C s' = Inr r \<longrightarrow>
        map_of (us_utxos s) = map_of (us_utxos s')
        \<or> (\<exists>b b'. state_root_bytes s = Some b \<and> state_root_bytes s' = Some b'
             \<and> b \<noteq> b' \<and> sha256 C b = sha256 C b'))"
proof (intro conjI impI; (elim conjE)?)
  have v: "validate_deterministic_indexes s = Inr ()" "validate_deterministic_indexes s' = Inr ()"
    using assms by (simp_all add: validate_indexes_iff)
  show "compute_state_root C s = compute_state_root C s'" if "map_of (us_utxos s) = map_of (us_utxos s')"
    using v state_root_bytes_cong [OF assms(2,3) that] by (simp add: compute_state_root_def)
  assume "compute_state_root C s = Inr r" "compute_state_root C s' = Inr r"
  then obtain b b' where b: "state_root_bytes s = Some b" "state_root_bytes s' = Some b'"
    "hex_encode C (sha256 C b) = hex_encode C (sha256 C b')"
    by (auto simp: compute_state_root_def result_simps)
  then have "sha256 C b = sha256 C b'"
    using assms(1) unfolding hex_roundtrip_def by (metis option.inject)
  then show "map_of (us_utxos s) = map_of (us_utxos s')
    \<or> (\<exists>b b'. state_root_bytes s = Some b \<and> state_root_bytes s' = Some b'
         \<and> b \<noteq> b' \<and> sha256 C b = sha256 C b')"
    using b state_root_bytes_inj [of s b s'] assms by blast
qed

theorem state_root_commits_to_utxos_witness:
  "compute_state_root plain_crypto sample_utxo_state
     = compute_state_root plain_crypto (sample_utxo_state\<lparr>us_address_index :=
         [(''b'', []), (''a'', [OutPoint ''t'' 0])]\<rparr>)"
proof -
  let ?s = sample_utxo_state
  let ?s' = "sample_utxo_state\<lparr>us_address_index := [(''b'', []), (''a'', [OutPoint ''t'' 0])]\<rparr>"
  have m: "maps_ok ?s" "maps_ok ?s'" by (simp_all add: maps_ok_def sample_utxo_state_def distinct_keys_def)
  have "validate_deterministic_indexes ?s = Inr ()" "validate_deterministic_indexes ?s' = Inr ()"
    by (simp_all add: validate_deterministic_indexes_def sample_utxo_state_def)
  then have "consistent ?s" "consistent ?s'" using m by (simp_all add: validate_indexes_iff)
  from state_root_commits_to_utxos [OF hex_roundtrip_plain m this, of "[]"] show ?thesis by simp
qed

end
