(* ===== verification/Pulse_Tx.thy ===== *)
theory Pulse_Tx
  imports Pulse_State
begin

text \<open>
  Transactions (\<open>tx.rs\<close>, and the coinbase test of \<open>mining.rs\<close>): canonical encodings of the frozen v1
  format and of the chain-bound v2 format, transaction ids, and signature verification against the
  referenced outputs. A failed \<open>expect\<close> on a length is \<open>None\<close> in the v1 encoders and \<open>Panic\<close> where a
  result type is available.
\<close>

section \<open>Operations\<close>

definition TRANSACTION_VERSION_V1 :: u32 where "TRANSACTION_VERSION_V1 = 1"
definition TRANSACTION_VERSION_V2 :: u32 where "TRANSACTION_VERSION_V2 = 2"
definition UNSIGNED_TX_V1_DOMAIN :: bytes where
  "UNSIGNED_TX_V1_DOMAIN = as_bytes ''PulseDAG:unsigned-tx:v1''"
definition TX_V1_DOMAIN :: bytes where "TX_V1_DOMAIN = as_bytes ''PulseDAG:tx:v1''"
definition UNSIGNED_TX_V2_DOMAIN :: bytes where
  "UNSIGNED_TX_V2_DOMAIN = as_bytes ''PulseDAG:unsigned-tx:v2''"
definition TX_V2_DOMAIN :: bytes where "TX_V2_DOMAIN = as_bytes ''PulseDAG:tx:v2''"

definition is_coinbase :: "Transaction \<Rightarrow> bool" where
  "is_coinbase tx \<longleftrightarrow> tx_inputs tx = [] \<and> tx_outputs tx \<noteq> [] \<and> tx_fee tx = 0"

text \<open>\<open>slice.get(index as usize)\<close>.\<close>

definition output_at :: "Transaction \<Rightarrow> u32 \<Rightarrow> TxOutput option" where
  "output_at tx i = (if unat i < length (tx_outputs tx) then Some (tx_outputs tx ! unat i) else None)"

definition referenced_output_address :: "ChainState \<Rightarrow> OutPoint \<Rightarrow> Address option" where
  "referenced_output_address state outpoint =
    (case lookup (us_utxos (cs_utxo state)) outpoint of
       Some utxo \<Rightarrow> Some (u_address utxo)
     | None \<Rightarrow>
         map_option out_address
           (Option.bind (lookup (mp_transactions (cs_mempool state)) (op_txid outpoint))
             (\<lambda>tx. output_at tx (op_index outpoint))))"

definition address_from_public_key :: "crypto \<Rightarrow> string \<Rightarrow> Address" where
  "address_from_public_key C public_key_hex =
    ''pulse1'' @ hex_encode C (take 20 (sha256 C (as_bytes public_key_hex)))"

definition canonical_outpoint_bytes :: "OutPoint \<Rightarrow> bytes option" where
  "canonical_outpoint_bytes outpoint = do {
    txid \<leftarrow> encode_len_prefixed_str (op_txid outpoint);
    Some (txid @ to_le_bytes (op_index outpoint))
  }"

definition canonical_tx_input_bytes :: "TxInput \<Rightarrow> bytes option" where
  "canonical_tx_input_bytes input = do {
    previous \<leftarrow> canonical_outpoint_bytes (in_previous_output input);
    public_key \<leftarrow> encode_len_prefixed_str (in_public_key input);
    signature \<leftarrow> encode_len_prefixed_str (in_signature input);
    Some (previous @ public_key @ signature)
  }"

definition canonical_tx_output_bytes :: "TxOutput \<Rightarrow> bytes option" where
  "canonical_tx_output_bytes output = do {
    address \<leftarrow> encode_len_prefixed_str (out_address output);
    Some (address @ to_le_bytes (out_amount output))
  }"

text \<open>The input part of a signing message: the outpoint and the public key, without the signature.\<close>

definition unsigned_input_bytes :: "TxInput \<Rightarrow> bytes option" where
  "unsigned_input_bytes input = do {
    previous \<leftarrow> canonical_outpoint_bytes (in_previous_output input);
    public_key \<leftarrow> encode_len_prefixed_str (in_public_key input);
    Some (previous @ public_key)
  }"

definition canonical_unsigned_transaction_bytes :: "Transaction \<Rightarrow> bytes option" where
  "canonical_unsigned_transaction_bytes tx = do {
    dom \<leftarrow> encode_len_prefixed_bytes UNSIGNED_TX_V1_DOMAIN;
    inputs \<leftarrow> encode_counted unsigned_input_bytes (tx_inputs tx);
    outputs \<leftarrow> encode_counted canonical_tx_output_bytes (tx_outputs tx);
    Some (dom @ to_le_bytes (tx_version tx) @ inputs @ outputs
      @ to_le_bytes (tx_fee tx) @ to_le_bytes (tx_nonce tx))
  }"

definition canonical_transaction_bytes :: "Transaction \<Rightarrow> bytes option" where
  "canonical_transaction_bytes tx = do {
    dom \<leftarrow> encode_len_prefixed_bytes TX_V1_DOMAIN;
    inputs \<leftarrow> encode_counted canonical_tx_input_bytes (tx_inputs tx);
    outputs \<leftarrow> encode_counted canonical_tx_output_bytes (tx_outputs tx);
    Some (dom @ to_le_bytes (tx_version tx) @ inputs @ outputs
      @ to_le_bytes (tx_fee tx) @ to_le_bytes (tx_nonce tx))
  }"

definition validate_transaction_version_v1 :: "Transaction \<Rightarrow> PulseError + unit" where
  "validate_transaction_version_v1 tx =
    (if tx_version tx \<noteq> TRANSACTION_VERSION_V1 then
       Inl (InvalidTransaction (''legacy transaction validation requires version 1, got ''
         @ format_nat (unat (tx_version tx))))
     else Inr ())"

definition validate_v2_domain :: "Transaction \<Rightarrow> string \<Rightarrow> PulseError + unit" where
  "validate_v2_domain tx chain_id =
    (if tx_version tx \<noteq> TRANSACTION_VERSION_V2 then
       Inl (InvalidTransaction (''transaction/signing v2 requires version 2, got ''
         @ format_nat (unat (tx_version tx))))
     else if chain_id = [] then Inl ChainIdMismatch
     else Inr ())"

definition length_panic :: PulseError where
  "length_panic = Panic ''canonical field length exceeds u32::MAX''"

definition canonical_unsigned_transaction_bytes_v2 ::
  "Transaction \<Rightarrow> string \<Rightarrow> PulseError + bytes" where
  "canonical_unsigned_transaction_bytes_v2 tx chain_id =
    rbind (validate_v2_domain tx chain_id) (\<lambda>_. ok_or length_panic (do {
      dom \<leftarrow> encode_len_prefixed_bytes UNSIGNED_TX_V2_DOMAIN;
      chain \<leftarrow> encode_len_prefixed_str chain_id;
      inputs \<leftarrow> encode_counted unsigned_input_bytes (tx_inputs tx);
      outputs \<leftarrow> encode_counted canonical_tx_output_bytes (tx_outputs tx);
      Some (dom @ chain @ to_le_bytes (tx_version tx) @ inputs @ outputs
        @ to_le_bytes (tx_fee tx) @ to_le_bytes (tx_nonce tx))
    }))"

definition canonical_transaction_bytes_v2 :: "Transaction \<Rightarrow> string \<Rightarrow> PulseError + bytes" where
  "canonical_transaction_bytes_v2 tx chain_id =
    rbind (validate_v2_domain tx chain_id) (\<lambda>_. ok_or length_panic (do {
      dom \<leftarrow> encode_len_prefixed_bytes TX_V2_DOMAIN;
      chain \<leftarrow> encode_len_prefixed_str chain_id;
      inputs \<leftarrow> encode_counted canonical_tx_input_bytes (tx_inputs tx);
      outputs \<leftarrow> encode_counted canonical_tx_output_bytes (tx_outputs tx);
      Some (dom @ chain @ to_le_bytes (tx_version tx) @ inputs @ outputs
        @ to_le_bytes (tx_fee tx) @ to_le_bytes (tx_nonce tx))
    }))"

definition signing_message :: "Transaction \<Rightarrow> bytes option" where
  "signing_message tx = canonical_unsigned_transaction_bytes tx"

definition signing_message_v2 :: "Transaction \<Rightarrow> string \<Rightarrow> PulseError + bytes" where
  "signing_message_v2 tx chain_id = canonical_unsigned_transaction_bytes_v2 tx chain_id"

definition compute_txid :: "crypto \<Rightarrow> Transaction \<Rightarrow> Hash option" where
  "compute_txid C tx = do {
    bs \<leftarrow> canonical_transaction_bytes tx;
    Some (hex_encode C (sha256 C bs))
  }"

definition compute_txid_v2 :: "crypto \<Rightarrow> Transaction \<Rightarrow> string \<Rightarrow> PulseError + Hash" where
  "compute_txid_v2 C tx chain_id =
    rbind (canonical_transaction_bytes_v2 tx chain_id) (\<lambda>bs. Inr (hex_encode C (sha256 C bs)))"

definition verify_input :: "crypto \<Rightarrow> ChainState \<Rightarrow> bytes \<Rightarrow> TxInput \<Rightarrow> PulseError + unit" where
  "verify_input C state message input =
    rbind (ok_or UtxoNotFound (referenced_output_address state (in_previous_output input)))
      (\<lambda>expected_address.
    if address_from_public_key C (in_public_key input) \<noteq> expected_address then Inl InvalidSignature
    else
      rbind (ok_or InvalidSignature (hex_decode C (in_public_key input))) (\<lambda>pk_bytes.
      rbind (ok_or InvalidSignature (hex_decode C (in_signature input))) (\<lambda>sig_bytes.
      if length pk_bytes \<noteq> 32 then Inl InvalidSignature
      else if length sig_bytes \<noteq> 64 then Inl InvalidSignature
      else if \<not> ed25519_verify C pk_bytes message sig_bytes then Inl InvalidSignature
      else Inr ())))"

fun verify_inputs :: "crypto \<Rightarrow> ChainState \<Rightarrow> bytes \<Rightarrow> TxInput list \<Rightarrow> PulseError + unit" where
  "verify_inputs C state message [] = Inr ()"
| "verify_inputs C state message (input # rest) =
    rbind (verify_input C state message input) (\<lambda>_. verify_inputs C state message rest)"

definition verify_transaction_signatures_with_message ::
  "crypto \<Rightarrow> Transaction \<Rightarrow> ChainState \<Rightarrow> bytes \<Rightarrow> PulseError + unit" where
  "verify_transaction_signatures_with_message C tx state message =
    verify_inputs C state message (tx_inputs tx)"

definition verify_transaction_signatures ::
  "crypto \<Rightarrow> Transaction \<Rightarrow> ChainState \<Rightarrow> PulseError + unit" where
  "verify_transaction_signatures C tx state =
    rbind (validate_transaction_version_v1 tx) (\<lambda>_.
    rbind (ok_or length_panic (signing_message tx)) (\<lambda>message.
    verify_transaction_signatures_with_message C tx state message))"

definition verify_transaction_signatures_v2 ::
  "crypto \<Rightarrow> Transaction \<Rightarrow> ChainState \<Rightarrow> string \<Rightarrow> PulseError + unit" where
  "verify_transaction_signatures_v2 C tx state chain_id =
    rbind (signing_message_v2 tx chain_id) (\<lambda>message.
    verify_transaction_signatures_with_message C tx state message)"

section \<open>Encodings\<close>

definition outpoint_payload :: "OutPoint \<Rightarrow> bytes" where
  "outpoint_payload op = prefixed (as_bytes (op_txid op)) @ to_le_bytes (op_index op)"

definition outpoint_ok :: "OutPoint \<Rightarrow> bool" where "outpoint_ok op \<longleftrightarrow> len32 (op_txid op)"

lemma canonical_outpoint_bytes_eq:
  "canonical_outpoint_bytes op = (if outpoint_ok op then Some (outpoint_payload op) else None)"
  by (simp add: canonical_outpoint_bytes_def encode_len_prefixed_str_eq outpoint_ok_def outpoint_payload_def)

interpretation outpoint: codec outpoint_payload outpoint_ok
proof
  fix x y r s
  assume "outpoint_ok x" "outpoint_ok y" "outpoint_payload x @ r = outpoint_payload y @ s"
  then show "x = y"
    by (cases x, cases y) (simp add: outpoint_ok_def outpoint_payload_def prefixed_str.enc_append_eq)
qed

definition input_payload :: "TxInput \<Rightarrow> bytes" where
  "input_payload i = outpoint_payload (in_previous_output i)
    @ prefixed (as_bytes (in_public_key i)) @ prefixed (as_bytes (in_signature i))"

definition input_ok :: "TxInput \<Rightarrow> bool" where
  "input_ok i \<longleftrightarrow> outpoint_ok (in_previous_output i) \<and> len32 (in_public_key i) \<and> len32 (in_signature i)"

lemma canonical_tx_input_bytes_eq:
  "canonical_tx_input_bytes i = (if input_ok i then Some (input_payload i) else None)"
  by (simp add: canonical_tx_input_bytes_def canonical_outpoint_bytes_eq encode_len_prefixed_str_eq
      input_ok_def input_payload_def)

interpretation txin: codec input_payload input_ok
proof
  fix x y r s
  assume "input_ok x" "input_ok y" "input_payload x @ r = input_payload y @ s"
  then show "x = y"
    by (cases x, cases y)
      (simp add: input_ok_def input_payload_def outpoint.enc_append_eq prefixed_str.enc_append_eq)
qed

text \<open>What a signing message keeps of an input.\<close>

definition without_signature :: "TxInput \<Rightarrow> OutPoint \<times> string" where
  "without_signature i = (in_previous_output i, in_public_key i)"

definition unsigned_payload :: "OutPoint \<times> string \<Rightarrow> bytes" where
  "unsigned_payload p = outpoint_payload (fst p) @ prefixed (as_bytes (snd p))"

definition unsigned_ok :: "OutPoint \<times> string \<Rightarrow> bool" where
  "unsigned_ok p \<longleftrightarrow> outpoint_ok (fst p) \<and> len32 (snd p)"

lemma unsigned_input_bytes_eq:
  "unsigned_input_bytes i =
    (if unsigned_ok (without_signature i) then Some (unsigned_payload (without_signature i)) else None)"
  by (simp add: unsigned_input_bytes_def canonical_outpoint_bytes_eq encode_len_prefixed_str_eq
      unsigned_ok_def unsigned_payload_def without_signature_def)

interpretation unsigned_in: codec unsigned_payload unsigned_ok
proof
  fix x y r s
  assume "unsigned_ok x" "unsigned_ok y" "unsigned_payload x @ r = unsigned_payload y @ s"
  then show "x = y"
    by (cases x, cases y)
      (simp add: unsigned_ok_def unsigned_payload_def outpoint.enc_append_eq prefixed_str.enc_append_eq)
qed

definition output_payload :: "TxOutput \<Rightarrow> bytes" where
  "output_payload x = prefixed (as_bytes (out_address x)) @ to_le_bytes (out_amount x)"

definition output_ok :: "TxOutput \<Rightarrow> bool" where "output_ok x \<longleftrightarrow> len32 (out_address x)"

lemma canonical_tx_output_bytes_eq:
  "canonical_tx_output_bytes x = (if output_ok x then Some (output_payload x) else None)"
  by (simp add: canonical_tx_output_bytes_def encode_len_prefixed_str_eq output_ok_def output_payload_def)

interpretation txout: codec output_payload output_ok
proof
  fix x y r s
  assume "output_ok x" "output_ok y" "output_payload x @ r = output_payload y @ s"
  then show "x = y"
    by (cases x, cases y) (simp add: output_ok_def output_payload_def prefixed_str.enc_append_eq)
qed

interpretation inputs: codec "counted input_payload" "counted_ok input_ok"
  by (rule codec_counted) (rule txin.codec_axioms)

interpretation outputs: codec "counted output_payload" "counted_ok output_ok"
  by (rule codec_counted) (rule txout.codec_axioms)

interpretation unsigneds: codec "counted unsigned_payload" "counted_ok unsigned_ok"
  by (rule codec_counted) (rule unsigned_in.codec_axioms)

lemma encode_unsigned_inputs_eq:
  "encode_counted unsigned_input_bytes xs =
    (if counted_ok unsigned_ok (map without_signature xs)
     then Some (counted unsigned_payload (map without_signature xs)) else None)"
  using encode_counted_eq [of unsigned_input_bytes "unsigned_ok \<circ> without_signature"
      "unsigned_payload \<circ> without_signature" xs]
  by (simp add: unsigned_input_bytes_eq counted_ok_def counted_def len32_def list_all_length comp_def)

lemmas encode_tx_parts =
  encode_counted_eq [OF canonical_tx_input_bytes_eq] encode_counted_eq [OF canonical_tx_output_bytes_eq]
  encode_unsigned_inputs_eq encode_len_prefixed_bytes_eq encode_len_prefixed_str_eq

lemmas tx_append_eq =
  inputs.enc_append_eq outputs.enc_append_eq unsigneds.enc_append_eq prefixed.enc_append_eq
  prefixed_str.enc_append_eq

text \<open>The body all four encodings end with.\<close>

lemma tx_domains_ok:
  "len32 UNSIGNED_TX_V1_DOMAIN" "len32 TX_V1_DOMAIN" "len32 UNSIGNED_TX_V2_DOMAIN" "len32 TX_V2_DOMAIN"
  by (simp_all add: len32_def UNSIGNED_TX_V1_DOMAIN_def TX_V1_DOMAIN_def UNSIGNED_TX_V2_DOMAIN_def
      TX_V2_DOMAIN_def)

lemma tx_domains_distinct:
  "TX_V1_DOMAIN \<noteq> TX_V2_DOMAIN" "UNSIGNED_TX_V1_DOMAIN \<noteq> UNSIGNED_TX_V2_DOMAIN"
  "TX_V1_DOMAIN \<noteq> UNSIGNED_TX_V1_DOMAIN" "TX_V2_DOMAIN \<noteq> UNSIGNED_TX_V2_DOMAIN"
  by (simp_all add: UNSIGNED_TX_V1_DOMAIN_def TX_V1_DOMAIN_def UNSIGNED_TX_V2_DOMAIN_def TX_V2_DOMAIN_def)

lemma canonical_transaction_bytes_inj:
  assumes "canonical_transaction_bytes t = Some b" "canonical_transaction_bytes t' = Some b"
  shows "t\<lparr>tx_txid := []\<rparr> = t'\<lparr>tx_txid := []\<rparr>"
  using assms by (cases t, cases t')
    (auto simp: canonical_transaction_bytes_def encode_tx_parts tx_domains_ok tx_append_eq
      dest: outputs.enc_inj split: if_splits)

lemma canonical_transaction_bytes_v2_inj:
  assumes "canonical_transaction_bytes_v2 t c = Inr b" "canonical_transaction_bytes_v2 t' c' = Inr b"
  shows "t\<lparr>tx_txid := []\<rparr> = t'\<lparr>tx_txid := []\<rparr> \<and> c = c'"
  using assms by (cases t, cases t')
    (auto simp: canonical_transaction_bytes_v2_def result_simps encode_tx_parts tx_domains_ok
      tx_append_eq dest: outputs.enc_inj split: if_splits)

text \<open>The part of a transaction that a signature covers.\<close>

definition signed_part ::
  "Transaction \<Rightarrow> u32 \<times> (OutPoint \<times> string) list \<times> TxOutput list \<times> u64 \<times> u64" where
  "signed_part t = (tx_version t, map without_signature (tx_inputs t), tx_outputs t, tx_fee t, tx_nonce t)"

lemma canonical_unsigned_bytes_v2_iff:
  assumes "canonical_unsigned_transaction_bytes_v2 t c = Inr m"
  shows "canonical_unsigned_transaction_bytes_v2 t' c' = Inr m \<longleftrightarrow> c' = c \<and> signed_part t' = signed_part t"
proof
  assume "canonical_unsigned_transaction_bytes_v2 t' c' = Inr m"
  with assms show "c' = c \<and> signed_part t' = signed_part t"
    by (auto simp: canonical_unsigned_transaction_bytes_v2_def result_simps encode_tx_parts
        tx_domains_ok tx_append_eq signed_part_def dest: outputs.enc_inj split: if_splits)
next
  assume "c' = c \<and> signed_part t' = signed_part t"
  then have "canonical_unsigned_transaction_bytes_v2 t' c' = canonical_unsigned_transaction_bytes_v2 t c"
    by (simp add: canonical_unsigned_transaction_bytes_v2_def encode_tx_parts signed_part_def
        validate_v2_domain_def)
  with assms show "canonical_unsigned_transaction_bytes_v2 t' c' = Inr m" by simp
qed

lemma v1_v2_messages_disjoint:
  assumes "canonical_unsigned_transaction_bytes_v2 t c = Inr m"
  shows "canonical_unsigned_transaction_bytes t' \<noteq> Some m"
  using assms tx_domains_distinct
  by (auto simp: canonical_unsigned_transaction_bytes_v2_def canonical_unsigned_transaction_bytes_def
      result_simps encode_tx_parts tx_domains_ok tx_append_eq split: if_splits)

section \<open>Signature verification\<close>

text \<open>What has to hold of one input for its signature to be accepted.\<close>

definition authorised :: "crypto \<Rightarrow> ChainState \<Rightarrow> bytes \<Rightarrow> TxInput \<Rightarrow> bool" where
  "authorised C s m i \<longleftrightarrow>
    referenced_output_address s (in_previous_output i) = Some (address_from_public_key C (in_public_key i))
    \<and> (\<exists>pk sig. hex_decode C (in_public_key i) = Some pk \<and> hex_decode C (in_signature i) = Some sig
      \<and> length pk = 32 \<and> length sig = 64 \<and> ed25519_verify C pk m sig)"

lemma verify_input_iff: "verify_input C s m i = Inr () \<longleftrightarrow> authorised C s m i"
  by (auto simp: verify_input_def authorised_def result_simps)

lemma verify_inputs_iff: "verify_inputs C s m xs = Inr () \<longleftrightarrow> list_all (authorised C s m) xs"
  by (induction xs) (auto simp: result_simps verify_input_iff)

text \<open>
  C14. A v2 signing message binds the chain and everything of the transaction but the signatures and
  the id: two transactions have the same message exactly when they agree on the chain id and on the
  signed part, and no v1 signing message of any transaction equals a v2 message, so a signature can be
  replayed neither on another chain nor in the other format.
\<close>

theorem signing_message_v2_binds:
  assumes "signing_message_v2 t c = Inr m"
  shows "(signing_message_v2 t' c' = Inr m \<longleftrightarrow> c' = c \<and> signed_part t' = signed_part t)
    \<and> signing_message t' \<noteq> Some m"
  using canonical_unsigned_bytes_v2_iff v1_v2_messages_disjoint assms
  by (simp add: signing_message_v2_def signing_message_def)

definition sample_payment :: Transaction where
  "sample_payment = \<lparr>tx_txid = ''id'', tx_version = 2,
    tx_inputs = [\<lparr>in_previous_output = OutPoint ''p'' 0, in_public_key = ''k'', in_signature = ''s''\<rparr>],
    tx_outputs = [\<lparr>out_address = ''a'', out_amount = 5\<rparr>], tx_fee = 1, tx_nonce = 7\<rparr>"

theorem signing_message_v2_binds_witness:
  "\<exists>m. signing_message_v2 sample_payment ''main'' = Inr m
    \<and> signing_message_v2 sample_payment ''test'' \<noteq> Inr m"
proof -
  obtain m where m: "signing_message_v2 sample_payment ''main'' = Inr m"
    by (simp add: signing_message_v2_def canonical_unsigned_transaction_bytes_v2_def
        validate_v2_domain_def sample_payment_def TRANSACTION_VERSION_V2_def encode_tx_parts
        UNSIGNED_TX_V2_DOMAIN_def counted_ok_def len32_def unsigned_ok_def without_signature_def
        outpoint_ok_def output_ok_def)
  with signing_message_v2_binds [OF m, of sample_payment "''test''"] show ?thesis by auto
qed

text \<open>
  A v2 transaction id commits to the transaction and to the chain: two transactions with the same
  id on their chains are on the same chain and agree on every field but the stored id, signatures
  included, unless their two encodings are a SHA-256 collision.
\<close>

theorem txid_v2_commits:
  assumes "hex_roundtrip C" "compute_txid_v2 C t c = Inr x" "compute_txid_v2 C t' c' = Inr x"
  shows "(c = c' \<and> t\<lparr>tx_txid := []\<rparr> = t'\<lparr>tx_txid := []\<rparr>)
    \<or> (\<exists>b b'. canonical_transaction_bytes_v2 t c = Inr b \<and> canonical_transaction_bytes_v2 t' c' = Inr b'
      \<and> b \<noteq> b' \<and> sha256 C b = sha256 C b')"
proof -
  obtain b b' where b: "canonical_transaction_bytes_v2 t c = Inr b"
    "canonical_transaction_bytes_v2 t' c' = Inr b'"
    "hex_encode C (sha256 C b) = hex_encode C (sha256 C b')"
    using assms(2,3) by (auto simp: compute_txid_v2_def result_simps)
  have "sha256 C b = sha256 C b'"
    using assms(1) b(3) by (metis hex_roundtrip_def option.inject)
  moreover have "b = b' \<Longrightarrow> c = c' \<and> t\<lparr>tx_txid := []\<rparr> = t'\<lparr>tx_txid := []\<rparr>"
    using b(1,2) canonical_transaction_bytes_v2_inj by blast
  ultimately show ?thesis using b by blast
qed

theorem txid_v2_commits_witness:
  "\<exists>x. compute_txid_v2 plain_crypto sample_payment ''main'' = Inr x
    \<and> compute_txid_v2 plain_crypto sample_payment ''test'' \<noteq> Inr x"
proof -
  obtain x where x: "compute_txid_v2 plain_crypto sample_payment ''main'' = Inr x"
    by (simp add: compute_txid_v2_def canonical_transaction_bytes_v2_def
        validate_v2_domain_def sample_payment_def TRANSACTION_VERSION_V2_def encode_tx_parts
        TX_V2_DOMAIN_def counted_ok_def len32_def input_ok_def outpoint_ok_def output_ok_def)
  moreover have "\<not> (\<exists>b b'. b \<noteq> b' \<and> sha256 plain_crypto b = sha256 plain_crypto b')"
    by (simp add: plain_crypto_def)
  ultimately show ?thesis
    using txid_v2_commits [OF hex_roundtrip_plain x, of sample_payment "''test''"] by auto
qed


end
