(* ===== verification/Pulse_Ledger.thy ===== *)
theory Pulse_Ledger
  imports Pulse_Tx "HOL-Library.Product_Lexorder"
begin

text \<open>
  The ledger: application of a transaction to the UTXO set and the mempool (\<open>apply_transaction\<close> of
  \<open>apply.rs\<close>) and the checks of \<open>validation.rs\<close> that concern amounts, outpoints and transactions.
  A function that mutates the state through a reference returns the state it leaves behind together
  with its result, so that what a failing call has already done is visible.
\<close>

section \<open>Operations\<close>

subsection \<open>Applying a transaction\<close>

text \<open>The first loop of \<open>apply_transaction\<close>: the outpoints the transaction creates, from index \<open>i\<close> on.\<close>

fun created_outpoints ::
  "Hash \<Rightarrow> (OutPoint \<times> Utxo) list \<Rightarrow> nat \<Rightarrow> TxOutput list \<Rightarrow> OutPoint list \<Rightarrow> PulseError + OutPoint list" where
  "created_outpoints txid utxos i [] seen = Inr []"
| "created_outpoints txid utxos i (_ # outputs) seen =
    (let outpoint = OutPoint txid (of_nat i) in
     if outpoint \<in> set seen \<or> contains_key utxos outpoint then
       Inl (DuplicateUtxoOutpoint (outpoint_label outpoint))
     else rbind (created_outpoints txid utxos (Suc i) outputs (insort_insert outpoint seen))
       (\<lambda>rest. Inr (outpoint # rest)))"

definition spend_output :: "UtxoState \<Rightarrow> OutPoint \<Rightarrow> UtxoState option" where
  "spend_output s outpoint =
    (case lookup (us_utxos s) outpoint of
       None \<Rightarrow> None
     | Some spent \<Rightarrow> Some (s\<lparr>us_utxos := AList.delete outpoint (us_utxos s),
         us_address_index :=
           (case lookup (us_address_index s) (u_address spent) of
              None \<Rightarrow> us_address_index s
            | Some entries \<Rightarrow> AList.update (u_address spent) (filter (\<lambda>op. op \<noteq> outpoint) entries)
                (us_address_index s))\<rparr>))"

fun spend_inputs :: "UtxoState \<Rightarrow> TxInput list \<Rightarrow> UtxoState \<times> (PulseError + unit)" where
  "spend_inputs s [] = (s, Inr ())"
| "spend_inputs s (input # inputs) =
    (case spend_output s (in_previous_output input) of
       None \<Rightarrow> (s, Inl UtxoNotFound)
     | Some s' \<Rightarrow> spend_inputs s' inputs)"

definition or_default :: "'v list option \<Rightarrow> 'v list" where
  "or_default v = (case v of None \<Rightarrow> [] | Some xs \<Rightarrow> xs)"

definition insert_output :: "UtxoState \<Rightarrow> OutPoint \<Rightarrow> Utxo \<Rightarrow> UtxoState" where
  "insert_output s outpoint utxo =
    s\<lparr>us_utxos := AList.update outpoint utxo (us_utxos s),
      us_address_index := AList.update (u_address utxo)
        (or_default (lookup (us_address_index s) (u_address utxo)) @ [outpoint]) (us_address_index s)\<rparr>"

fun create_outputs ::
  "UtxoState \<Rightarrow> bool \<Rightarrow> u64 \<Rightarrow> (OutPoint \<times> TxOutput) list \<Rightarrow> UtxoState \<times> (PulseError + unit)" where
  "create_outputs s coinbase height [] = (s, Inr ())"
| "create_outputs s coinbase height ((outpoint, output) # rest) =
    (if contains_key (us_utxos s) outpoint then
       (s, Inl (DuplicateUtxoOutpoint (outpoint_label outpoint)))
     else create_outputs (insert_output s outpoint
       \<lparr>u_outpoint = outpoint, u_address = out_address output, u_amount = out_amount output,
        u_coinbase = coinbase, u_height = height\<rparr>) coinbase height rest)"

definition confirm_in_mempool :: "Transaction \<Rightarrow> Mempool \<Rightarrow> Mempool" where
  "confirm_in_mempool tx m =
    (let m = (if contains_key (mp_transactions m) (tx_txid tx) then
        m\<lparr>mp_transactions := AList.delete (tx_txid tx) (mp_transactions m),
          mp_first_seen := AList.delete (tx_txid tx) (mp_first_seen m),
          mp_admission_height := AList.delete (tx_txid tx) (mp_admission_height m),
          mp_counters := (mp_counters m)\<lparr>mc_confirmed_removed_total :=
            saturating_add (mc_confirmed_removed_total (mp_counters m)) 1\<rparr>\<rparr>
      else m)
     in m\<lparr>mp_spent_outpoints :=
       filter (\<lambda>op. op \<notin> set (map in_previous_output (tx_inputs tx))) (mp_spent_outpoints m)\<rparr>)"

definition apply_transaction ::
  "Transaction \<Rightarrow> ChainState \<Rightarrow> u64 \<Rightarrow> ChainState \<times> (PulseError + unit)" where
  "apply_transaction tx state height =
    (case created_outpoints (tx_txid tx) (us_utxos (cs_utxo state)) 0 (tx_outputs tx) [] of
       Inl e \<Rightarrow> (state, Inl e)
     | Inr created \<Rightarrow>
       (case (if is_coinbase tx then (cs_utxo state, Inr ()) else spend_inputs (cs_utxo state) (tx_inputs tx)) of
          (utxo, Inl e) \<Rightarrow> (state\<lparr>cs_utxo := utxo\<rparr>, Inl e)
        | (utxo, Inr _) \<Rightarrow>
          (case create_outputs utxo (is_coinbase tx) height (zip created (tx_outputs tx)) of
             (utxo, Inl e) \<Rightarrow> (state\<lparr>cs_utxo := utxo\<rparr>, Inl e)
           | (utxo, Inr _) \<Rightarrow>
             (state\<lparr>cs_utxo := utxo, cs_mempool := confirm_in_mempool tx (cs_mempool state)\<rparr>, Inr ()))))"

text \<open>\<open>for tx in transactions { apply_transaction(tx, state, height)?; }\<close>\<close>

fun apply_transactions ::
  "Transaction list \<Rightarrow> ChainState \<Rightarrow> u64 \<Rightarrow> ChainState \<times> (PulseError + unit)" where
  "apply_transactions [] state height = (state, Inr ())"
| "apply_transactions (tx # txs) state height =
    (case apply_transaction tx state height of
       (state', Inl e) \<Rightarrow> (state', Inl e)
     | (state', Inr _) \<Rightarrow> apply_transactions txs state' height)"

subsection \<open>Rewards\<close>

definition INITIAL_BLOCK_SUBSIDY :: u64 where "INITIAL_BLOCK_SUBSIDY = 50"
definition SUBSIDY_HALVING_INTERVAL :: u64 where "SUBSIDY_HALVING_INTERVAL = 210000"

definition block_subsidy :: "u64 \<Rightarrow> u64" where
  "block_subsidy height =
    (let halvings = height div SUBSIDY_HALVING_INTERVAL in
     if halvings \<ge> 64 then 0 else drop_bit (unat halvings) INITIAL_BLOCK_SUBSIDY)"

fun checked_sum :: "u64 \<Rightarrow> u64 list \<Rightarrow> u64 option" where
  "checked_sum acc [] = Some acc"
| "checked_sum acc (x # xs) = Option.bind (checked_add acc x) (\<lambda>acc'. checked_sum acc' xs)"

definition transaction_output_sum :: "Transaction \<Rightarrow> PulseError + u64" where
  "transaction_output_sum tx = ok_or RewardOverflow (checked_sum 0 (map out_amount (tx_outputs tx)))"

definition total_block_fees :: "Block \<Rightarrow> PulseError + u64" where
  "total_block_fees block = ok_or RewardOverflow
    (checked_sum 0 (map tx_fee (filter (\<lambda>tx. \<not> is_coinbase tx) (b_transactions block))))"

fun coinbase_positions :: "nat \<Rightarrow> Transaction list \<Rightarrow> nat list" where
  "coinbase_positions i [] = []"
| "coinbase_positions i (tx # txs) =
    (if is_coinbase tx then i # coinbase_positions (Suc i) txs else coinbase_positions (Suc i) txs)"

definition validate_coinbase_position :: "Block \<Rightarrow> PulseError + unit" where
  "validate_coinbase_position block =
    (case coinbase_positions 0 (b_transactions block) of
       [] \<Rightarrow> Inl MissingCoinbase
     | [p] \<Rightarrow> if p = 0 then Inr () else Inl CoinbaseNotFirst
     | _ \<Rightarrow> Inl MultipleCoinbase)"

fun check_created_outputs ::
  "(OutPoint \<times> Utxo) list \<Rightarrow> Hash \<Rightarrow> nat \<Rightarrow> TxOutput list \<Rightarrow> OutPoint list \<Rightarrow> PulseError + OutPoint list" where
  "check_created_outputs utxos txid i [] created = Inr created"
| "check_created_outputs utxos txid i (_ # outputs) created =
    (let outpoint = OutPoint txid (of_nat i) in
     if contains_key utxos outpoint \<or> outpoint \<in> set created then
       Inl (DuplicateUtxoOutpoint (outpoint_label outpoint))
     else check_created_outputs utxos txid (Suc i) outputs (insort_insert outpoint created))"

fun check_created_transactions ::
  "(OutPoint \<times> Utxo) list \<Rightarrow> Transaction list \<Rightarrow> OutPoint list \<Rightarrow> PulseError + OutPoint list" where
  "check_created_transactions utxos [] created = Inr created"
| "check_created_transactions utxos (tx # txs) created =
    rbind (check_created_outputs utxos (tx_txid tx) 0 (tx_outputs tx) created)
      (check_created_transactions utxos txs)"

definition validate_created_utxo_outpoints :: "Block \<Rightarrow> ChainState \<Rightarrow> PulseError + unit" where
  "validate_created_utxo_outpoints block state =
    rbind (check_created_transactions (us_utxos (cs_utxo state)) (b_transactions block) []) (\<lambda>_. Inr ())"

definition validate_coinbase_reward :: "Block \<Rightarrow> PulseError + unit" where
  "validate_coinbase_reward block =
    (case b_transactions block of
       [] \<Rightarrow> Inl MissingCoinbase
     | coinbase # _ \<Rightarrow>
       rbind (transaction_output_sum coinbase) (\<lambda>coinbase_outputs.
       rbind (total_block_fees block) (\<lambda>fees.
       rbind (ok_or RewardOverflow (checked_add (block_subsidy (h_height (b_header block))) fees))
         (\<lambda>max_reward.
       if coinbase_outputs > max_reward then Inl ExcessiveCoinbaseReward else Inr ()))))"

subsection \<open>Validating a transaction\<close>

definition tx_output_amount :: "ChainState \<Rightarrow> OutPoint \<Rightarrow> u64 option" where
  "tx_output_amount state outpoint =
    (case lookup (us_utxos (cs_utxo state)) outpoint of
       Some utxo \<Rightarrow> Some (u_amount utxo)
     | None \<Rightarrow>
         map_option out_amount
           (Option.bind (lookup (mp_transactions (cs_mempool state)) (op_txid outpoint))
             (\<lambda>tx. output_at tx (op_index outpoint))))"

definition missing_transaction_inputs :: "Transaction \<Rightarrow> ChainState \<Rightarrow> OutPoint list" where
  "missing_transaction_inputs tx state =
    filter (\<lambda>op. tx_output_amount state op = None) (map in_previous_output (tx_inputs tx))"

definition ordered_replay :: "ChainState \<Rightarrow> bool" where
  "ordered_replay state \<longleftrightarrow> ghostdag_metadata_active (dag_consensus_mode (cs_dag state))
    \<or> dag_ordering_version (cs_dag state) = GHOSTDAG_V1_ORDERING_VERSION"

definition canonical_order :: "ChainState \<Rightarrow> Hash list" where
  "canonical_order state =
    (if ordered_replay state then dag_ordered_dag (cs_dag state) else dag_selected_chain (cs_dag state))"

definition canonical_blocks :: "ChainState \<Rightarrow> Block list" where
  "canonical_blocks state = List.map_filter (lookup (dag_blocks (cs_dag state))) (canonical_order state)"

definition ordered_block_skipped_transaction :: "Hash \<Rightarrow> Hash \<Rightarrow> ChainState \<Rightarrow> bool" where
  "ordered_block_skipped_transaction txid block_hash state =
    list_ex (\<lambda>entry. str_contains entry ('' block='' @ block_hash @ '' tx='' @ txid @ '' skipped_conflict''))
      (dag_ordered_dag_conflict_diagnostics (cs_dag state))"

definition skipped_occurrence :: "string \<Rightarrow> (Hash \<times> Hash) option" where
  "skipped_occurrence entry = do {
    (_, tail) \<leftarrow> split_once entry '' block='';
    (block_hash, tail) \<leftarrow> split_once tail '' tx='';
    (txid, _) \<leftarrow> split_once tail '' skipped_conflict'';
    if block_hash = [] \<or> txid = [] then None else Some (block_hash, txid)
  }"

definition ordered_replay_skipped_transactions :: "ChainState \<Rightarrow> (Hash \<times> Hash) list" where
  "ordered_replay_skipped_transactions state =
    fold insort_insert (List.map_filter skipped_occurrence
      (dag_ordered_dag_conflict_diagnostics (cs_dag state))) []"

definition authoritative_confirmed_transaction_occurrences :: "ChainState \<Rightarrow> (Hash \<times> Hash) list" where
  "authoritative_confirmed_transaction_occurrences state =
    (let skipped = (if ordered_replay state then ordered_replay_skipped_transactions state else []) in
     fold insort_insert
       (filter (\<lambda>occurrence. \<not> (ordered_replay state \<and> occurrence \<in> set skipped))
         (concat (map (\<lambda>block. map (\<lambda>tx. (b_hash block, tx_txid tx)) (b_transactions block))
           (canonical_blocks state)))) [])"

definition transaction_is_confirmed :: "Hash \<Rightarrow> ChainState \<Rightarrow> bool" where
  "transaction_is_confirmed txid state =
    list_ex (\<lambda>block. list_ex (\<lambda>confirmed. tx_txid confirmed = txid) (b_transactions block)
        \<and> (\<not> ordered_replay state \<or> \<not> ordered_block_skipped_transaction txid (b_hash block) state))
      (canonical_blocks state)"

fun sum_inputs :: "ChainState \<Rightarrow> u64 \<Rightarrow> TxInput list \<Rightarrow> PulseError + u64" where
  "sum_inputs state acc [] = Inr acc"
| "sum_inputs state acc (input # inputs) =
    rbind (ok_or UtxoNotFound (tx_output_amount state (in_previous_output input))) (\<lambda>input_amount.
    if in_previous_output input \<in> set (mp_spent_outpoints (cs_mempool state)) then Inl DoubleSpend
    else rbind (ok_or (InvalidTransaction ''input overflow'') (checked_add acc input_amount))
      (\<lambda>acc'. sum_inputs state acc' inputs))"

definition validate_transaction :: "crypto \<Rightarrow> Transaction \<Rightarrow> ChainState \<Rightarrow> PulseError + unit" where
  "validate_transaction C tx state =
    (if tx_outputs tx = [] then Inl (InvalidTransaction ''no outputs'')
     else if tx_inputs tx = [] then Inl (InvalidTransaction ''no inputs'')
     else if list_ex (\<lambda>out. out_amount out = 0) (tx_outputs tx) then
       Inl (InvalidTransaction ''zero-value output'')
     else if \<not> distinct (map in_previous_output (tx_inputs tx)) then
       Inl (InvalidTransaction ''duplicate input'')
     else
       rbind (ok_or length_panic (compute_txid C tx)) (\<lambda>txid.
       if txid \<noteq> tx_txid tx then Inl InvalidTxid
       else if transaction_is_confirmed (tx_txid tx) state then Inl TxAlreadyExists
       else
         rbind (sum_inputs state 0 (tx_inputs tx)) (\<lambda>total_input.
         rbind (ok_or (InvalidTransaction ''output overflow'')
           (checked_sum 0 (map out_amount (tx_outputs tx)))) (\<lambda>total_output.
         rbind (ok_or (InvalidTransaction ''output overflow'') (checked_add total_output (tx_fee tx)))
           (\<lambda>required.
         if total_input < required then Inl InsufficientFunds
         else verify_transaction_signatures C tx state)))))"

subsection \<open>The state after a block\<close>

definition clear_mempool :: "ChainState \<Rightarrow> ChainState" where
  "clear_mempool state = state\<lparr>cs_mempool :=
    (cs_mempool state)\<lparr>mp_transactions := [], mp_spent_outpoints := []\<rparr>\<rparr>"

fun validate_and_apply ::
  "crypto \<Rightarrow> Transaction list \<Rightarrow> u64 \<Rightarrow> ChainState \<Rightarrow> PulseError + ChainState" where
  "validate_and_apply C [] height working = Inr working"
| "validate_and_apply C (tx # txs) height working =
    rbind (validate_transaction C tx working) (\<lambda>_.
    case apply_transaction tx working height of
      (_, Inl e) \<Rightarrow> Inl e
    | (working', Inr _) \<Rightarrow> validate_and_apply C txs height working')"

text \<open>The working state \<open>compute_post_state_root\<close> builds, and the root it returns.\<close>

definition post_state :: "crypto \<Rightarrow> Block \<Rightarrow> ChainState \<Rightarrow> PulseError + ChainState" where
  "post_state C block state =
    (case b_transactions block of
       [] \<Rightarrow> Inl (InvalidBlock ''empty block'')
     | coinbase # txs \<Rightarrow>
       (case apply_transaction coinbase (clear_mempool state) (h_height (b_header block)) of
          (_, Inl e) \<Rightarrow> Inl e
        | (working, Inr _) \<Rightarrow> validate_and_apply C txs (h_height (b_header block)) working))"

definition compute_post_state_root :: "crypto \<Rightarrow> Block \<Rightarrow> ChainState \<Rightarrow> PulseError + Hash" where
  "compute_post_state_root C block state =
    rbind (post_state C block state) (\<lambda>working. compute_state_root C (cs_utxo working))"

section \<open>The index invariant\<close>

definition utxo_wf :: "UtxoState \<Rightarrow> bool" where "utxo_wf s \<longleftrightarrow> maps_ok s \<and> consistent s"

lemma utxo_wfI:
  assumes "distinct_keys (us_utxos s)" "distinct_keys (us_address_index s)"
    and "\<And>op u. lookup (us_utxos s) op = Some u \<Longrightarrow>
       u_outpoint u = op \<and> (\<exists>ops. lookup (us_address_index s) (u_address u) = Some ops \<and> op \<in> set ops)"
    and "\<And>a ops. lookup (us_address_index s) a = Some ops \<Longrightarrow> distinct ops \<and>
       (\<forall>op \<in> set ops. \<exists>u. lookup (us_utxos s) op = Some u \<and> u_address u = a)"
  shows "utxo_wf s"
  using assms by (simp add: utxo_wf_def maps_ok_def consistent_def)

lemma utxo_wfD:
  assumes "utxo_wf s"
  shows "distinct_keys (us_utxos s)" "distinct_keys (us_address_index s)"
    and "lookup (us_utxos s) op = Some u \<Longrightarrow>
       u_outpoint u = op \<and> (\<exists>ops. lookup (us_address_index s) (u_address u) = Some ops \<and> op \<in> set ops)"
    and "lookup (us_address_index s) a = Some ops \<Longrightarrow> distinct ops \<and>
       (\<forall>op \<in> set ops. \<exists>u. lookup (us_utxos s) op = Some u \<and> u_address u = a)"
  using assms by (auto simp: utxo_wf_def maps_ok_def consistent_def)

lemma spend_output_wf:
  assumes wf: "utxo_wf s" and s': "spend_output s op = Some s'"
  shows "utxo_wf s'"
proof -
  obtain u where u: "lookup (us_utxos s) op = Some u"
    using s' by (auto simp: spend_output_def split: option.splits)
  obtain es where es: "lookup (us_address_index s) (u_address u) = Some es"
    using utxo_wfD(3) [OF wf u] by blast
  have s'_eq: "s' = s\<lparr>us_utxos := AList.delete op (us_utxos s),
      us_address_index := AList.update (u_address u) (filter (\<lambda>x. x \<noteq> op) es) (us_address_index s)\<rparr>"
    using s' by (simp add: spend_output_def u es)
  show ?thesis
  proof (rule utxo_wfI)
    fix op' u' assume "lookup (us_utxos s') op' = Some u'"
    then have ne: "op' \<noteq> op" and l: "lookup (us_utxos s) op' = Some u'"
      by (auto simp: s'_eq lookup_delete split: if_splits)
    from utxo_wfD(3) [OF wf l] ne es
    show "u_outpoint u' = op' \<and> (\<exists>ops. lookup (us_address_index s') (u_address u') = Some ops \<and> op' \<in> set ops)"
      by (auto simp: s'_eq lookup_update)
  next
    fix a ops assume l: "lookup (us_address_index s') a = Some ops"
    show "distinct ops \<and> (\<forall>op \<in> set ops. \<exists>u. lookup (us_utxos s') op = Some u \<and> u_address u = a)"
    proof (cases "a = u_address u")
      case True
      with l have "ops = filter (\<lambda>x. x \<noteq> op) es" by (simp add: s'_eq lookup_update)
      with utxo_wfD(4) [OF wf es] True show ?thesis by (auto simp: s'_eq lookup_delete)
    next
      case False
      with l have l': "lookup (us_address_index s) a = Some ops" by (simp add: s'_eq lookup_update)
      have "op \<notin> set ops" using utxo_wfD(4) [OF wf l'] u False by auto
      with utxo_wfD(4) [OF wf l'] show ?thesis by (auto simp: s'_eq lookup_delete)
    qed
  qed (use utxo_wfD(1,2) [OF wf] in \<open>simp_all add: s'_eq\<close>)
qed

lemma insert_output_wf:
  assumes wf: "utxo_wf s" and fresh: "lookup (us_utxos s) op = None" and u: "u_outpoint u = op"
  shows "utxo_wf (insert_output s op u)"
proof (rule utxo_wfI)
  fix op' u' assume l: "lookup (us_utxos (insert_output s op u)) op' = Some u'"
  show "u_outpoint u' = op' \<and>
    (\<exists>ops. lookup (us_address_index (insert_output s op u)) (u_address u') = Some ops \<and> op' \<in> set ops)"
  proof (cases "op' = op")
    case True
    with l u show ?thesis by (auto simp: insert_output_def lookup_update)
  next
    case False
    with l have "lookup (us_utxos s) op' = Some u'" by (simp add: insert_output_def lookup_update)
    from utxo_wfD(3) [OF wf this] show ?thesis
      by (auto simp: insert_output_def lookup_update or_default_def)
  qed
next
  fix a ops assume l: "lookup (us_address_index (insert_output s op u)) a = Some ops"
  define old where "old = or_default (lookup (us_address_index s) a)"
  have old: "distinct old" "\<forall>x \<in> set old. \<exists>v. lookup (us_utxos s) x = Some v \<and> u_address v = a"
    using utxo_wfD(4) [OF wf, of a]
    by (cases "lookup (us_address_index s) a"; simp add: old_def or_default_def)+
  then have "op \<notin> set old" using fresh by auto
  moreover have "ops = (if a = u_address u then old @ [op] else old)"
    using l by (auto simp: insert_output_def lookup_update old_def or_default_def split: if_splits)
  ultimately show "distinct ops \<and>
      (\<forall>x \<in> set ops. \<exists>v. lookup (us_utxos (insert_output s op u)) x = Some v \<and> u_address v = a)"
    using old fresh by (auto simp: insert_output_def lookup_update split: if_splits)
qed (use utxo_wfD(1,2) [OF wf] in \<open>simp_all add: insert_output_def\<close>)

lemma spend_inputs_wf: "utxo_wf s \<Longrightarrow> utxo_wf (fst (spend_inputs s xs))"
  by (induction s xs rule: spend_inputs.induct) (auto split: option.splits dest: spend_output_wf)

lemma create_outputs_wf: "utxo_wf s \<Longrightarrow> utxo_wf (fst (create_outputs s cb h xs))"
proof (induction s cb h xs rule: create_outputs.induct)
  case (2 s cb h op out rest)
  show ?case
  proof (cases "lookup (us_utxos s) op")
    case None
    then show ?thesis using "2.IH" insert_output_wf [OF "2.prems" None] by simp
  qed (use "2.prems" in simp)
qed simp

lemma apply_transaction_wf:
  "utxo_wf (cs_utxo s) \<Longrightarrow> utxo_wf (cs_utxo (fst (apply_transaction tx s h)))"
  using spend_inputs_wf [of "cs_utxo s" "tx_inputs tx"]
  by (auto simp: apply_transaction_def split: sum.splits prod.splits if_splits)
     (metis create_outputs_wf fst_conv)+

lemma apply_transactions_wf:
  "utxo_wf (cs_utxo s) \<Longrightarrow> utxo_wf (cs_utxo (fst (apply_transactions txs s h)))"
proof (induction txs s h rule: apply_transactions.induct)
  case (2 tx txs s h)
  then show ?case using apply_transaction_wf [of s tx h] by (auto split: prod.splits sum.splits)
qed simp

section \<open>What a transaction does to the UTXO set\<close>

text \<open>The entries of a created output.\<close>

definition created_utxo :: "Transaction \<Rightarrow> u64 \<Rightarrow> nat \<Rightarrow> Utxo" where
  "created_utxo tx h i = \<lparr>u_outpoint = OutPoint (tx_txid tx) (of_nat i),
    u_address = out_address (tx_outputs tx ! i), u_amount = out_amount (tx_outputs tx ! i),
    u_coinbase = is_coinbase tx, u_height = h\<rparr>"

definition new_outpoints :: "Hash \<Rightarrow> nat \<Rightarrow> nat \<Rightarrow> OutPoint list" where
  "new_outpoints txid i n = map (\<lambda>k. OutPoint txid (of_nat k)) [i..<i + n]"

lemma new_outpoints_Suc:
  "new_outpoints txid i (Suc n) = OutPoint txid (of_nat i) # new_outpoints txid (Suc i) n"
  by (simp add: new_outpoints_def upt_conv_Cons del: upt_Suc)

lemma created_outpoints_Inr:
  "created_outpoints txid m i outs seen = Inr ops \<longleftrightarrow>
    ops = new_outpoints txid i (length outs) \<and> distinct ops
    \<and> (\<forall>op \<in> set ops. op \<notin> set seen \<and> lookup m op = None)"
proof (induction outs arbitrary: i seen ops)
  case Nil
  then show ?case by (auto simp: new_outpoints_def)
next
  case (Cons a outs)
  show ?case
    by (simp add: Let_def result_simps Cons.IH new_outpoints_Suc set_insort_insert)
       (auto simp: set_insort_insert)
qed

lemma created_outpoints_Inl:
  "created_outpoints txid m i outs seen = Inl e \<Longrightarrow> \<exists>x. e = DuplicateUtxoOutpoint x"
  by (induction txid m i outs seen rule: created_outpoints.induct)
    (auto simp: Let_def result_simps split: if_splits)

text \<open>Index truncation makes outpoints collide only beyond \<open>2 ^ 32\<close> outputs.\<close>

lemma distinct_new_outpoints: "distinct (new_outpoints txid 0 n) \<longleftrightarrow> n \<le> 2 ^ 32"
proof
  assume n: "n \<le> 2 ^ 32"
  have "inj_on (\<lambda>k. OutPoint txid (of_nat k)) {0..<n}"
  proof (rule inj_onI)
    fix x y assume xy: "x \<in> {0..<n}" "y \<in> {0..<n}" "OutPoint txid (of_nat x) = OutPoint txid (of_nat y)"
    then have "unat (of_nat x :: u32) = unat (of_nat y :: u32)" by simp
    moreover have "unat (of_nat x :: u32) = x" "unat (of_nat y :: u32) = y"
      using xy n by (intro unat_word_of_nat_small; simp)+
    ultimately show "x = y" by simp
  qed
  then show "distinct (new_outpoints txid 0 n)" by (simp add: new_outpoints_def distinct_map)
next
  assume d: "distinct (new_outpoints txid 0 n)"
  show "n \<le> 2 ^ 32"
  proof (rule ccontr)
    assume "\<not> n \<le> 2 ^ 32"
    then have n: "4294967296 < n" by simp
    have "(of_nat 4294967296 :: u32) = of_nat 0" by simp
    with n have "new_outpoints txid 0 n ! 0 = new_outpoints txid 0 n ! 4294967296"
      by (simp add: new_outpoints_def)
    moreover have "length (new_outpoints txid 0 n) = n" by (simp add: new_outpoints_def)
    ultimately show False using d n nth_eq_iff_index_eq [OF d, of 0 4294967296] by simp
  qed
qed

lemma spend_output_None: "spend_output s op = None \<longleftrightarrow> lookup (us_utxos s) op = None"
  by (simp add: spend_output_def split: option.splits)

lemma spend_output_utxos:
  "spend_output s op = Some s' \<Longrightarrow>
    us_utxos s' = AList.delete op (us_utxos s) \<and> lookup (us_utxos s) op \<noteq> None"
  by (auto simp: spend_output_def split: option.splits)

lemma spend_inputs_ok:
  "snd (spend_inputs s xs) = Inr () \<longleftrightarrow>
    distinct (map in_previous_output xs)
    \<and> (\<forall>i \<in> set xs. lookup (us_utxos s) (in_previous_output i) \<noteq> None)"
proof (induction s xs rule: spend_inputs.induct)
  case (2 s x xs)
  show ?case
  proof (cases "spend_output s (in_previous_output x)")
    case None
    then show ?thesis using spend_output_None [of s "in_previous_output x"] by simp
  next
    case (Some s')
    with 2 [OF Some] spend_output_utxos [OF Some] show ?thesis
      by (auto simp: lookup_delete split: if_splits) (metis image_eqI)
  qed
qed simp

lemma spend_inputs_error: "snd (spend_inputs s xs) = Inl e \<Longrightarrow> e = UtxoNotFound"
  by (induction s xs rule: spend_inputs.induct) (auto split: option.splits)

lemma spend_inputs_utxos:
  "snd (spend_inputs s xs) = Inr () \<Longrightarrow>
    us_utxos (fst (spend_inputs s xs)) = fold (\<lambda>i. AList.delete (in_previous_output i)) xs (us_utxos s)"
  by (induction s xs rule: spend_inputs.induct) (auto split: option.splits dest: spend_output_utxos)

lemma lookup_fold_delete:
  "lookup (fold (\<lambda>i. AList.delete (f i)) xs m) k = (if k \<in> f ` set xs then None else lookup m k)"
  by (induction xs arbitrary: m) (auto simp: lookup_delete)

lemma create_outputs_ok:
  "distinct (map fst xs) \<Longrightarrow> \<forall>x \<in> set xs. lookup (us_utxos s) (fst x) = None \<Longrightarrow>
    snd (create_outputs s cb h xs) = Inr () \<and>
    us_utxos (fst (create_outputs s cb h xs)) = fold (\<lambda>(op, out). AList.update op
      \<lparr>u_outpoint = op, u_address = out_address out, u_amount = out_amount out,
        u_coinbase = cb, u_height = h\<rparr>) xs (us_utxos s)"
proof (induction s cb h xs rule: create_outputs.induct)
  case (2 s cb h op out rest)
  then have "lookup (us_utxos s) op = None" "\<forall>x \<in> set rest. fst x \<noteq> op" by force+
  with 2 show ?case by (simp add: insert_output_def lookup_update)
qed simp


text \<open>When a transaction applies, and the UTXO set it leaves.\<close>

definition previous_outputs :: "Transaction \<Rightarrow> OutPoint list" where
  "previous_outputs tx = map in_previous_output (tx_inputs tx)"

definition outpoints_of :: "Transaction \<Rightarrow> OutPoint list" where
  "outpoints_of tx = new_outpoints (tx_txid tx) 0 (length (tx_outputs tx))"

definition applicable :: "Transaction \<Rightarrow> UtxoState \<Rightarrow> bool" where
  "applicable tx s \<longleftrightarrow> length (tx_outputs tx) \<le> 2 ^ 32
    \<and> (\<forall>op \<in> set (outpoints_of tx). lookup (us_utxos s) op = None)
    \<and> distinct (previous_outputs tx)
    \<and> (\<forall>op \<in> set (previous_outputs tx). lookup (us_utxos s) op \<noteq> None)"

definition outputs_entries :: "Transaction \<Rightarrow> u64 \<Rightarrow> (OutPoint \<times> Utxo) list" where
  "outputs_entries tx h = map (\<lambda>i. (OutPoint (tx_txid tx) (of_nat i), created_utxo tx h i))
    [0..<length (tx_outputs tx)]"

lemma outputs_entries_keys: "map fst (outputs_entries tx h) = outpoints_of tx"
  by (simp add: outputs_entries_def outpoints_of_def new_outpoints_def comp_def)

definition utxos_after :: "Transaction \<Rightarrow> u64 \<Rightarrow> (OutPoint \<times> Utxo) list \<Rightarrow> (OutPoint \<times> Utxo) list" where
  "utxos_after tx h m = fold (\<lambda>(op, u). AList.update op u) (outputs_entries tx h)
    (fold (\<lambda>i. AList.delete (in_previous_output i)) (tx_inputs tx) m)"

lemma zip_outputs:
  "map (\<lambda>(op, out). (op, \<lparr>u_outpoint = op, u_address = out_address out, u_amount = out_amount out,
      u_coinbase = is_coinbase tx, u_height = h\<rparr>)) (zip (outpoints_of tx) (tx_outputs tx))
    = outputs_entries tx h"
  by (rule nth_equalityI)
    (simp_all add: outputs_entries_def outpoints_of_def new_outpoints_def created_utxo_def)

lemma created_outpoints_eq:
  "created_outpoints (tx_txid tx) m 0 (tx_outputs tx) [] = Inr ops \<longleftrightarrow>
    ops = outpoints_of tx \<and> length (tx_outputs tx) \<le> 2 ^ 32 \<and> (\<forall>op \<in> set (outpoints_of tx). lookup m op = None)"
  unfolding created_outpoints_Inr outpoints_of_def [symmetric]
  using distinct_new_outpoints [of "tx_txid tx" "length (tx_outputs tx)"]
  by (auto simp: outpoints_of_def)

lemma apply_transaction_ok:
  assumes "applicable tx (cs_utxo s)"
  shows "snd (apply_transaction tx s h) = Inr ()"
    and "us_utxos (cs_utxo (fst (apply_transaction tx s h))) = utxos_after tx h (us_utxos (cs_utxo s))"
    and "cs_mempool (fst (apply_transaction tx s h)) = confirm_in_mempool tx (cs_mempool s)"
proof -
  have c: "created_outpoints (tx_txid tx) (us_utxos (cs_utxo s)) 0 (tx_outputs tx) [] = Inr (outpoints_of tx)"
    using assms by (simp add: created_outpoints_eq applicable_def)
  define r where "r = (if is_coinbase tx then (cs_utxo s, Inr ()) else spend_inputs (cs_utxo s) (tx_inputs tx))"
  have sp: "snd (spend_inputs (cs_utxo s) (tx_inputs tx)) = Inr ()"
    using assms by (simp add: spend_inputs_ok applicable_def previous_outputs_def)
  then have r: "snd r = Inr ()" "us_utxos (fst r)
      = fold (\<lambda>i. AList.delete (in_previous_output i)) (tx_inputs tx) (us_utxos (cs_utxo s))"
    using spend_inputs_utxos [OF sp] by (auto simp: r_def is_coinbase_def)
  define xs where "xs = zip (outpoints_of tx) (tx_outputs tx)"
  have len: "length (outpoints_of tx) = length (tx_outputs tx)"
    by (simp add: outpoints_of_def new_outpoints_def)
  have "map fst xs = outpoints_of tx" by (simp add: xs_def len)
  then have xs: "distinct (map fst xs)" "\<forall>x \<in> set xs. lookup (us_utxos (fst r)) (fst x) = None"
    using assms distinct_new_outpoints [of "tx_txid tx" "length (tx_outputs tx)"]
    by (auto simp: applicable_def outpoints_of_def r(2) lookup_fold_delete xs_def
        dest!: set_zip_leftD)
  have fold: "fold (\<lambda>(op, out). AList.update op
      \<lparr>u_outpoint = op, u_address = out_address out, u_amount = out_amount out,
        u_coinbase = is_coinbase tx, u_height = h\<rparr>) xs m
    = fold (\<lambda>(op, u). AList.update op u) (outputs_entries tx h) m" for m
    unfolding zip_outputs [symmetric] xs_def by (simp add: fold_map comp_def case_prod_beta')
  note co = create_outputs_ok [OF xs, of "is_coinbase tx" h]
  have eq: "apply_transaction tx s h = (s\<lparr>cs_utxo := fst (create_outputs (fst r) (is_coinbase tx) h xs),
      cs_mempool := confirm_in_mempool tx (cs_mempool s)\<rparr>, Inr ())"
    using r(1) co unfolding apply_transaction_def c r_def [symmetric] xs_def
    by (auto split: prod.splits sum.splits)
  show "snd (apply_transaction tx s h) = Inr ()"
    "us_utxos (cs_utxo (fst (apply_transaction tx s h))) = utxos_after tx h (us_utxos (cs_utxo s))"
    "cs_mempool (fst (apply_transaction tx s h)) = confirm_in_mempool tx (cs_mempool s)"
    using co by (simp_all add: eq fold r(2) utxos_after_def)
qed

definition conflict_error :: "PulseError \<Rightarrow> bool" where
  "conflict_error e \<longleftrightarrow> (case e of UtxoNotFound \<Rightarrow> True | DuplicateUtxoOutpoint _ \<Rightarrow> True | _ \<Rightarrow> False)"

lemma apply_transaction_fails:
  assumes "\<not> applicable tx (cs_utxo s)"
  shows "\<exists>e. snd (apply_transaction tx s h) = Inl e \<and> conflict_error e"
proof (cases "created_outpoints (tx_txid tx) (us_utxos (cs_utxo s)) 0 (tx_outputs tx) []")
  case (Inl e)
  then show ?thesis using created_outpoints_Inl [OF Inl] by (auto simp: apply_transaction_def conflict_error_def)
next
  case (Inr ops)
  then have n: "\<not> is_coinbase tx" "snd (spend_inputs (cs_utxo s) (tx_inputs tx)) \<noteq> Inr ()"
    using assms by (auto simp: created_outpoints_eq applicable_def spend_inputs_ok previous_outputs_def
        is_coinbase_def)
  then obtain u e where "spend_inputs (cs_utxo s) (tx_inputs tx) = (u, Inl e)"
    by (cases "spend_inputs (cs_utxo s) (tx_inputs tx)"; cases "snd (spend_inputs (cs_utxo s) (tx_inputs tx))")
       auto
  with n Inr spend_inputs_error [of "cs_utxo s" "tx_inputs tx" e] show ?thesis
    by (simp add: apply_transaction_def conflict_error_def)
qed

lemma lookup_fold_entries:
  "distinct (map fst es) \<Longrightarrow> lookup (fold (\<lambda>(op, u). AList.update op u) es m) k
    = (case lookup es k of Some u \<Rightarrow> Some u | None \<Rightarrow> lookup m k)"
proof (induction es arbitrary: m)
  case (Cons e es)
  then have "fst e \<notin> fst ` set es" by simp
  then have "lookup es (fst e) = None" by (simp add: map_of_eq_None_iff)
  with Cons show ?case by (cases e) (auto simp: lookup_update split: option.splits)
qed simp

lemma lookup_utxos_after:
  assumes "length (tx_outputs tx) \<le> 2 ^ 32"
  shows "lookup (utxos_after tx h m) op =
    (case lookup (outputs_entries tx h) op of
       Some u \<Rightarrow> Some u
     | None \<Rightarrow> if op \<in> set (previous_outputs tx) then None else lookup m op)"
proof -
  have "distinct (map fst (outputs_entries tx h))"
    using assms by (simp add: outputs_entries_keys outpoints_of_def distinct_new_outpoints)
  then show ?thesis
    by (cases "lookup (outputs_entries tx h) op")
      (simp_all add: utxos_after_def lookup_fold_entries lookup_fold_delete previous_outputs_def)
qed

section \<open>Value\<close>

definition total_value :: "(OutPoint \<times> Utxo) list \<Rightarrow> nat" where
  "total_value m = (\<Sum>(op, u) \<leftarrow> m. unat (u_amount u))"

lemma total_value_delete:
  "distinct_keys m \<Longrightarrow> lookup m k = Some u \<Longrightarrow>
    total_value (AList.delete k m) + unat (u_amount u) = total_value m"
proof (induction m)
  case (Cons e m)
  then have d: "distinct_keys m" by (simp add: distinct_keys_def)
  show ?case
  proof (cases "fst e = k")
    case True
    with Cons.prems have "k \<notin> fst ` set m" by (auto simp: distinct_keys_def)
    then have "AList.delete k m = m" by (simp add: delete_id)
    with True Cons.prems show ?thesis by (cases e) (simp add: total_value_def)
  next
    case False
    with Cons d show ?thesis by (cases e) (simp add: total_value_def)
  qed
qed simp

lemma total_value_update:
  "lookup m k = None \<Longrightarrow> total_value (AList.update k u m) = total_value m + unat (u_amount u)"
  by (induction m) (auto simp: total_value_def split: if_splits)

lemma total_value_spend:
  "distinct_keys m \<Longrightarrow> distinct (map in_previous_output xs) \<Longrightarrow>
    \<forall>i \<in> set xs. lookup m (in_previous_output i) \<noteq> None \<Longrightarrow>
    total_value (fold (\<lambda>i. AList.delete (in_previous_output i)) xs m)
      + (\<Sum>i \<leftarrow> xs. unat (u_amount (the (lookup m (in_previous_output i))))) = total_value m"
proof (induction xs arbitrary: m)
  case (Cons x xs)
  obtain u where u: "lookup m (in_previous_output x) = Some u" using Cons.prems(3) by auto
  define m' where "m' = AList.delete (in_previous_output x) m"
  have l: "lookup m' (in_previous_output i) = lookup m (in_previous_output i)" if "i \<in> set xs" for i
    using Cons.prems(2) that by (auto simp: m'_def lookup_delete) (metis image_eqI)
  have "total_value (fold (\<lambda>i. AList.delete (in_previous_output i)) xs m')
      + (\<Sum>i \<leftarrow> xs. unat (u_amount (the (lookup m' (in_previous_output i))))) = total_value m'"
    using Cons.prems l by (intro Cons.IH) (simp_all add: m'_def)
  moreover have "map (\<lambda>i. unat (u_amount (the (lookup m' (in_previous_output i))))) xs
      = map (\<lambda>i. unat (u_amount (the (lookup m (in_previous_output i))))) xs"
    using l by (simp cong: map_cong)
  ultimately show ?case
    using total_value_delete [OF Cons.prems(1) u] u by (simp add: m'_def [symmetric])
qed simp

lemma total_value_create:
  "distinct (map fst es) \<Longrightarrow> \<forall>e \<in> set es. lookup m (fst e) = None \<Longrightarrow>
    total_value (fold (\<lambda>(op, u). AList.update op u) es m) = total_value m + total_value es"
proof (induction es arbitrary: m)
  case (Cons e es)
  obtain op u where e: "e = (op, u)" by force
  have "\<forall>e \<in> set es. lookup (AList.update op u m) (fst e) = None"
    using Cons.prems by (auto simp: lookup_update e image_iff)
  with Cons show ?case by (auto simp: e total_value_update) (simp add: total_value_def)
qed (simp add: total_value_def)

definition output_value :: "Transaction \<Rightarrow> nat" where
  "output_value tx = (\<Sum>out \<leftarrow> tx_outputs tx. unat (out_amount out))"

definition input_value :: "(OutPoint \<times> Utxo) list \<Rightarrow> Transaction \<Rightarrow> nat" where
  "input_value m tx = (\<Sum>i \<leftarrow> tx_inputs tx. unat (u_amount (the (lookup m (in_previous_output i)))))"

lemma total_value_entries: "total_value (outputs_entries tx h) = output_value tx"
proof -
  have "map (\<lambda>i. unat (out_amount (tx_outputs tx ! i))) [0..<length (tx_outputs tx)]
      = map (\<lambda>out. unat (out_amount out)) (tx_outputs tx)"
    by (rule nth_equalityI) simp_all
  then show ?thesis
    by (simp add: total_value_def outputs_entries_def created_utxo_def output_value_def comp_def)
qed

lemma apply_transaction_value:
  assumes "utxo_wf (cs_utxo s)" "snd (apply_transaction tx s h) = Inr ()"
  shows "total_value (us_utxos (cs_utxo (fst (apply_transaction tx s h)))) + input_value (us_utxos (cs_utxo s)) tx
    = total_value (us_utxos (cs_utxo s)) + output_value tx"
proof -
  have a: "applicable tx (cs_utxo s)"
    using apply_transaction_fails [of tx s h] assms(2) by auto
  define m where "m = us_utxos (cs_utxo s)"
  define d where "d = fold (\<lambda>i. AList.delete (in_previous_output i)) (tx_inputs tx) m"
  have "total_value d + input_value m tx = total_value m"
    using a utxo_wfD(1) [OF assms(1)] unfolding d_def input_value_def
    by (intro total_value_spend) (auto simp: applicable_def previous_outputs_def m_def)
  moreover have "total_value (utxos_after tx h m) = total_value d + total_value (outputs_entries tx h)"
    unfolding utxos_after_def d_def [symmetric]
  proof (rule total_value_create)
    show "distinct (map fst (outputs_entries tx h))"
      using a by (simp add: outputs_entries_keys outpoints_of_def distinct_new_outpoints applicable_def)
    show "\<forall>e \<in> set (outputs_entries tx h). lookup d (fst e) = None"
    proof
      fix e assume "e \<in> set (outputs_entries tx h)"
      then have "fst e \<in> set (outpoints_of tx)" unfolding outputs_entries_keys [of tx h, symmetric] by simp
      with a show "lookup d (fst e) = None" by (simp add: d_def m_def lookup_fold_delete applicable_def)
    qed
  qed
  ultimately show ?thesis
    using apply_transaction_ok(2) [OF a] by (simp add: m_def total_value_entries)
qed


lemma checked_sum_Some:
  "checked_sum acc xs = Some t \<longleftrightarrow> unat t = unat acc + (\<Sum>x \<leftarrow> xs. unat x)"
proof (induction xs arbitrary: acc)
  case Nil
  then show ?case by (auto intro: word_eqI_unat)
next
  case (Cons x xs)
  show ?case
  proof (cases "checked_add acc x")
    case None
    then have "2 ^ 64 \<le> unat acc + unat x" by (simp add: mach)
    moreover have "unat t < 2 ^ 64" using unat_u64_bound [of t] by simp
    ultimately show ?thesis using None by simp
  next
    case (Some y)
    then have "unat y = unat acc + unat x" by (simp add: mach)
    with Some Cons.IH [of y] show ?thesis by (simp add: add.assoc)
  qed
qed

lemma sum_inputs_value:
  assumes "mp_transactions (cs_mempool s) = []" "sum_inputs s acc xs = Inr t"
  shows "unat t = unat acc + (\<Sum>i \<leftarrow> xs. unat (u_amount (the (lookup (us_utxos (cs_utxo s)) (in_previous_output i)))))"
  using assms
proof (induction s acc xs rule: sum_inputs.induct)
  case (2 s acc x xs)
  obtain a y where a: "tx_output_amount s (in_previous_output x) = Some a" "checked_add acc a = Some y"
    and rest: "sum_inputs s y xs = Inr t" and ns: "in_previous_output x \<notin> set (mp_spent_outpoints (cs_mempool s))"
    using "2.prems"(2) by (auto simp: result_simps split: if_splits)
  have "u_amount (the (lookup (us_utxos (cs_utxo s)) (in_previous_output x))) = a"
    using a(1) "2.prems"(1) by (auto simp: tx_output_amount_def split: option.splits)
  moreover have "unat y = unat acc + unat a" using a(2) by (simp add: mach)
  ultimately show ?case using "2.IH" [of a y] ns a "2.prems"(1) rest by simp
qed simp

text \<open>A valid transaction pays its fee out of its inputs.\<close>

lemma validate_transaction_value:
  assumes "mp_transactions (cs_mempool s) = []" "validate_transaction C tx s = Inr ()"
  shows "output_value tx + unat (tx_fee tx) \<le> input_value (us_utxos (cs_utxo s)) tx"
proof -
  obtain i w r where i: "sum_inputs s 0 (tx_inputs tx) = Inr i"
    and w: "checked_sum 0 (map out_amount (tx_outputs tx)) = Some w"
    and r: "checked_add w (tx_fee tx) = Some r" and le: "r \<le> i"
    using assms(2) by (auto simp: validate_transaction_def result_simps not_less split: if_splits)
  have "unat i = input_value (us_utxos (cs_utxo s)) tx"
    using sum_inputs_value [OF assms(1) i] by (simp add: input_value_def)
  moreover have "unat w = output_value tx"
    using w by (simp add: checked_sum_Some output_value_def comp_def)
  moreover have "unat r = unat w + unat (tx_fee tx)" using r by (simp add: mach)
  ultimately show ?thesis using le by (simp add: word_le_nat_alt)
qed

lemma validate_and_apply_value:
  assumes "utxo_wf (cs_utxo s)" "mp_transactions (cs_mempool s) = []" "validate_and_apply C txs h s = Inr s'"
  shows "utxo_wf (cs_utxo s') \<and> total_value (us_utxos (cs_utxo s')) + (\<Sum>tx \<leftarrow> txs. unat (tx_fee tx))
    \<le> total_value (us_utxos (cs_utxo s))"
  using assms
proof (induction C txs h s rule: validate_and_apply.induct)
  case (2 C tx txs h s)
  obtain w where v: "validate_transaction C tx s = Inr ()" and w: "apply_transaction tx s h = (w, Inr ())"
    and rest: "validate_and_apply C txs h w = Inr s'"
    using "2.prems"(3) by (auto simp: result_simps split: prod.splits sum.splits)
  have wf: "utxo_wf (cs_utxo w)" using apply_transaction_wf [OF "2.prems"(1), of tx h] w by simp
  have "applicable tx (cs_utxo s)" using apply_transaction_fails [of tx s h] w by auto
  from apply_transaction_ok(3) [OF this, of h] w have mp: "mp_transactions (cs_mempool w) = []"
    using "2.prems"(2) by (simp add: confirm_in_mempool_def Let_def)
  have "total_value (us_utxos (cs_utxo w)) + input_value (us_utxos (cs_utxo s)) tx
      = total_value (us_utxos (cs_utxo s)) + output_value tx"
    using apply_transaction_value [OF "2.prems"(1), of tx h] w by simp
  with validate_transaction_value [OF "2.prems"(2) v] "2.IH" [OF v w [symmetric] refl wf mp rest]
  show ?case by simp
qed (simp add: total_value_def)

lemma coinbase_positions_ge: "p \<in> set (coinbase_positions i txs) \<Longrightarrow> i \<le> p"
  by (induction i txs rule: coinbase_positions.induct) (auto split: if_splits)

lemma coinbase_positions_Nil: "coinbase_positions i txs = [] \<longleftrightarrow> list_all (\<lambda>tx. \<not> is_coinbase tx) txs"
  by (induction i txs rule: coinbase_positions.induct) auto

lemma validate_coinbase_position_iff:
  "validate_coinbase_position b = Inr () \<longleftrightarrow> (\<exists>cb txs. b_transactions b = cb # txs \<and> is_coinbase cb
    \<and> list_all (\<lambda>tx. \<not> is_coinbase tx) txs)"
proof (cases "b_transactions b")
  case Nil
  then show ?thesis by (simp add: validate_coinbase_position_def)
next
  case (Cons cb txs)
  have "0 \<notin> set (coinbase_positions (Suc 0) txs)" using coinbase_positions_ge by fastforce
  with Cons coinbase_positions_Nil [of "Suc 0" txs] show ?thesis
    by (cases "coinbase_positions (Suc 0) txs"; cases "tl (coinbase_positions (Suc 0) txs)")
      (auto simp: validate_coinbase_position_def)
qed

lemma post_state_value:
  assumes wf: "utxo_wf (cs_utxo s)" and pos: "validate_coinbase_position b = Inr ()"
    and reward: "validate_coinbase_reward b = Inr ()" and post: "post_state C b s = Inr s'"
  shows "utxo_wf (cs_utxo s')"
    and "total_value (us_utxos (cs_utxo s'))
      \<le> total_value (us_utxos (cs_utxo s)) + unat (block_subsidy (h_height (b_header b)))"
proof -
  define h where "h = h_height (b_header b)"
  obtain cb txs where b: "b_transactions b = cb # txs" "is_coinbase cb" "list_all (\<lambda>tx. \<not> is_coinbase tx) txs"
    using pos by (auto simp: validate_coinbase_position_iff)
  obtain outs fees r where o: "checked_sum 0 (map out_amount (tx_outputs cb)) = Some outs"
    and f: "checked_sum 0 (map tx_fee (filter (\<lambda>tx. \<not> is_coinbase tx) (b_transactions b))) = Some fees"
    and r: "checked_add (block_subsidy h) fees = Some r" and le: "outs \<le> r"
    using reward by (auto simp: validate_coinbase_reward_def b(1) transaction_output_sum_def
        total_block_fees_def result_simps h_def not_less split: if_splits)
  have fees: "unat fees = (\<Sum>tx \<leftarrow> txs. unat (tx_fee tx))"
    using f b by (simp add: checked_sum_Some comp_def list_all_iff)
  have outs: "unat outs = output_value cb"
    using o by (simp add: checked_sum_Some output_value_def comp_def)
  obtain w where w: "apply_transaction cb (clear_mempool s) h = (w, Inr ())"
    and rest: "validate_and_apply C txs h w = Inr s'"
    using post by (auto simp: post_state_def b(1) h_def split: prod.splits sum.splits)
  have c: "cs_utxo (clear_mempool s) = cs_utxo s" by (simp add: clear_mempool_def)
  have wf_w: "utxo_wf (cs_utxo w)" using apply_transaction_wf [of "clear_mempool s" cb h] wf w c by simp
  have "applicable cb (cs_utxo (clear_mempool s))"
    using apply_transaction_fails [of cb "clear_mempool s" h] w by auto
  from apply_transaction_ok(3) [OF this, of h] w have mp: "mp_transactions (cs_mempool w) = []"
    by (simp add: confirm_in_mempool_def clear_mempool_def Let_def)
  have "total_value (us_utxos (cs_utxo w)) = total_value (us_utxos (cs_utxo s)) + output_value cb"
    using apply_transaction_value [of "clear_mempool s" cb h] wf w c b(2)
    by (simp add: input_value_def is_coinbase_def)
  moreover have "unat r = unat (block_subsidy h) + unat fees" using r by (simp add: mach)
  moreover note validate_and_apply_value [OF wf_w mp rest]
  ultimately show "utxo_wf (cs_utxo s')"
    "total_value (us_utxos (cs_utxo s'))
      \<le> total_value (us_utxos (cs_utxo s)) + unat (block_subsidy (h_height (b_header b)))"
    using le fees outs by (simp_all add: word_le_nat_alt h_def [symmetric])
qed


section \<open>Emission\<close>

lemma unat_block_subsidy: "unat (block_subsidy h) = 50 div 2 ^ (unat h div 210000)"
proof -
  define k where "k = unat h div 210000"
  have k: "unat (h div SUBSIDY_HALVING_INTERVAL) = k"
    by (simp add: SUBSIDY_HALVING_INTERVAL_def unat_div k_def)
  show ?thesis
  proof (cases "64 \<le> k")
    case True
    have "(50 :: nat) < 2 ^ 6" by simp
    also have "(2 :: nat) ^ 6 \<le> 2 ^ k" by (rule power_increasing) (use True in simp_all)
    finally have "50 div (2 :: nat) ^ k = 0" by simp
    with True k show ?thesis
      by (simp add: block_subsidy_def Let_def word_le_nat_alt k_def [symmetric])
  next
    case False
    with k show ?thesis
      by (simp add: block_subsidy_def Let_def word_le_nat_alt k_def [symmetric] unat_drop_bit_div
          INITIAL_BLOCK_SUBSIDY_def)
  qed
qed

lemma subsidy_groups: "(\<Sum>h<n * 210000. (50 :: nat) div 2 ^ (h div 210000)) = (\<Sum>k<n. 210000 * (50 div 2 ^ k))"
proof -
  have "(\<Sum>h<n * 210000. (50 :: nat) div 2 ^ (h div 210000))
      = (\<Sum>k<n. \<Sum>h=k * 210000..<k * 210000 + 210000. 50 div 2 ^ (h div 210000))"
    by (simp add: sum.nat_group)
  also have "\<dots> = (\<Sum>k<n. 210000 * (50 div 2 ^ k))"
  proof (rule sum.cong [OF refl])
    fix k
    have "h div 210000 = k" if "h \<in> {k * 210000..<k * 210000 + 210000}" for h :: nat
      using that by (auto intro!: div_nat_eqI)
    then have "(\<Sum>h=k * 210000..<k * 210000 + 210000. (50 :: nat) div 2 ^ (h div 210000))
        = (\<Sum>h=k * 210000..<k * 210000 + 210000. 50 div 2 ^ k)"
      by (intro sum.cong) simp_all
    then show "(\<Sum>h=k * 210000..<k * 210000 + 210000. (50 :: nat) div 2 ^ (h div 210000))
        = 210000 * (50 div 2 ^ k)"
      by simp
  qed
  finally show ?thesis .
qed

lemma subsidy_sum_le:
  assumes "finite A"
  shows "(\<Sum>h\<in>A. (50 :: nat) div 2 ^ (h div 210000)) \<le> 20370000"
proof -
  define f where "f h = (50 :: nat) div 2 ^ (h div 210000)" for h :: nat
  have z: "f h = 0" if "6 * 210000 \<le> h" for h
  proof -
    have "6 \<le> h div 210000" using that by (simp add: less_eq_div_iff_mult_less_eq)
    then have "(2 :: nat) ^ 6 \<le> 2 ^ (h div 210000)" by (rule power_increasing) simp
    then show ?thesis by (simp add: f_def)
  qed
  have "sum f A = sum f (A \<inter> {..<6 * 210000})"
    using assms z by (intro sum.mono_neutral_right) (auto simp: not_less)
  also have "\<dots> \<le> sum f {..<6 * 210000}" by (rule sum_mono2) auto
  also have "\<dots> = 20370000"
    unfolding f_def subsidy_groups by (simp add: lessThan_nat_numeral lessThan_Suc)
  finally show ?thesis by (simp add: f_def)
qed


text \<open>
  A chain of blocks as consensus accepts it: each block has a single, leading coinbase with an allowed
  reward, and its transactions validate and apply one after another from the state the previous block left.
\<close>

fun valid_chain :: "crypto \<Rightarrow> Block list \<Rightarrow> ChainState \<Rightarrow> ChainState \<Rightarrow> bool" where
  "valid_chain C [] s s' \<longleftrightarrow> s' = s"
| "valid_chain C (b # bs) s s' \<longleftrightarrow> validate_coinbase_position b = Inr () \<and> validate_coinbase_reward b = Inr ()
    \<and> (case post_state C b s of Inl _ \<Rightarrow> False | Inr t \<Rightarrow> valid_chain C bs t s')"

definition block_height :: "Block \<Rightarrow> nat" where "block_height b = unat (h_height (b_header b))"

lemma valid_chain_value:
  "valid_chain C bs s s' \<Longrightarrow> utxo_wf (cs_utxo s) \<Longrightarrow>
    utxo_wf (cs_utxo s') \<and> total_value (us_utxos (cs_utxo s'))
      \<le> total_value (us_utxos (cs_utxo s)) + (\<Sum>b \<leftarrow> bs. 50 div 2 ^ (block_height b div 210000))"
proof (induction C bs s s' rule: valid_chain.induct)
  case (2 C b bs s s')
  obtain t where t: "post_state C b s = Inr t" "valid_chain C bs t s'"
    and v: "validate_coinbase_position b = Inr ()" "validate_coinbase_reward b = Inr ()"
    using "2.prems"(1) by (auto split: sum.splits)
  from post_state_value [OF "2.prems"(2) v t(1)] "2.IH" [OF t] show ?case
    by (simp add: unat_block_subsidy block_height_def)
qed simp

text \<open>
  C18. What applying a transaction does, exactly. It succeeds if and only if its created outpoints are
  distinct and unused (at most \<open>2 ^ 32\<close> outputs, since the index is truncated to 32 bits) and its inputs
  are distinct and unspent; then the UTXO set is the old one without the spent outputs and with one entry
  per created output. Otherwise the error is one of the two conflict errors that replay skips.
\<close>

theorem apply_transaction_exact:
  "(snd (apply_transaction tx s h) = Inr () \<longleftrightarrow> applicable tx (cs_utxo s))
   \<and> (applicable tx (cs_utxo s) \<longrightarrow>
        lookup (us_utxos (cs_utxo (fst (apply_transaction tx s h)))) op =
          (case lookup (outputs_entries tx h) op of
             Some u \<Rightarrow> Some u
           | None \<Rightarrow> if op \<in> set (previous_outputs tx) then None else lookup (us_utxos (cs_utxo s)) op))
   \<and> (\<not> applicable tx (cs_utxo s) \<longrightarrow> (\<exists>e. snd (apply_transaction tx s h) = Inl e \<and> conflict_error e))"
proof (cases "applicable tx (cs_utxo s)")
  case True
  then have "length (tx_outputs tx) \<le> 2 ^ 32" by (simp add: applicable_def)
  with True apply_transaction_ok(1,2) [OF True, of h] lookup_utxos_after show ?thesis by simp
next
  case False
  with apply_transaction_fails [OF False, of h] show ?thesis by auto
qed

definition sample_coinbase :: Transaction where
  "sample_coinbase = \<lparr>tx_txid = ''cb'', tx_version = 1, tx_inputs = [],
    tx_outputs = [\<lparr>out_address = ''miner'', out_amount = 50\<rparr>], tx_fee = 0, tx_nonce = 0\<rparr>"

text \<open>A transaction whose first input is unspent and whose second does not exist.\<close>

definition sample_conflict :: Transaction where
  "sample_conflict = \<lparr>tx_txid = ''bad'', tx_version = 1,
    tx_inputs = [\<lparr>in_previous_output = OutPoint ''cb'' 0, in_public_key = [], in_signature = []\<rparr>,
      \<lparr>in_previous_output = OutPoint ''gone'' 0, in_public_key = [], in_signature = []\<rparr>],
    tx_outputs = [\<lparr>out_address = ''thief'', out_amount = 50\<rparr>], tx_fee = 0, tx_nonce = 0\<rparr>"

lemmas ledger_eval =
  apply_transaction_def created_outpoints.simps spend_output_def insert_output_def or_default_def
  confirm_in_mempool_def is_coinbase_def blank_state_def Let_def sample_coinbase_def sample_conflict_def

theorem apply_transaction_exact_witness:
  "snd (apply_transaction sample_coinbase blank_state 1) = Inr ()
   \<and> lookup (us_utxos (cs_utxo (fst (apply_transaction sample_coinbase blank_state 1)))) (OutPoint ''cb'' 0) \<noteq> None
   \<and> (\<exists>e. snd (apply_transaction sample_conflict blank_state 1) = Inl e \<and> conflict_error e)"
proof -
  have a: "applicable sample_coinbase (cs_utxo blank_state)"
    by (simp add: applicable_def sample_coinbase_def blank_state_def previous_outputs_def)
  have n: "\<not> applicable sample_conflict (cs_utxo blank_state)"
    by (auto simp: applicable_def sample_conflict_def blank_state_def previous_outputs_def)
  have "lookup (outputs_entries sample_coinbase 1) (OutPoint ''cb'' 0) \<noteq> None"
    by (simp add: outputs_entries_def sample_coinbase_def)
  then show ?thesis
    using apply_transaction_exact [of sample_coinbase blank_state 1 "OutPoint ''cb'' 0"] a
      apply_transaction_exact [of sample_conflict blank_state 1] n
    by (auto split: option.splits)
qed

text \<open>
  C9. The UTXO invariant and conservation of value. Whatever the outcome of applying a transaction, the
  maps keep distinct keys and the address index stays exactly the index of the UTXO set; on success the
  value spent and the value created balance to the last unit, with no wrap-around.
\<close>

theorem apply_transaction_keeps_invariant:
  assumes "utxo_wf (cs_utxo s)"
  shows "utxo_wf (cs_utxo (fst (apply_transaction tx s h)))
    \<and> (snd (apply_transaction tx s h) = Inr () \<longrightarrow>
        total_value (us_utxos (cs_utxo (fst (apply_transaction tx s h))))
          + input_value (us_utxos (cs_utxo s)) tx
        = total_value (us_utxos (cs_utxo s)) + output_value tx)"
  using assms apply_transaction_wf apply_transaction_value by blast

lemma utxo_wf_blank: "utxo_wf (cs_utxo blank_state)"
  by (simp add: utxo_wf_def maps_ok_def consistent_def blank_state_def distinct_keys_def)

theorem apply_transaction_keeps_invariant_witness:
  "utxo_wf (cs_utxo (fst (apply_transaction sample_coinbase blank_state 1)))
    \<and> total_value (us_utxos (cs_utxo (fst (apply_transaction sample_coinbase blank_state 1)))) = 50"
proof -
  have "snd (apply_transaction sample_coinbase blank_state 1) = Inr ()"
    by (simp add: ledger_eval)
  with apply_transaction_keeps_invariant [OF utxo_wf_blank, of sample_coinbase 1] show ?thesis
    by (simp add: input_value_def output_value_def total_value_def sample_coinbase_def blank_state_def)
qed

text \<open>
  C4. No inflation. Along any chain of consensus-valid blocks at distinct heights the value of the UTXO
  set grows by at most 20,370,000 in total, the sum of the halving schedule; the fees a coinbase
  collects are always covered by what the block's transactions gave up. The UTXO invariant is kept, so a
  state root can be computed at every point.
\<close>

theorem legacy_supply_bounded:
  assumes "utxo_wf (cs_utxo s)" "valid_chain C bs s s'" "distinct (map block_height bs)"
  shows "total_value (us_utxos (cs_utxo s')) \<le> total_value (us_utxos (cs_utxo s)) + 20370000
    \<and> utxo_wf (cs_utxo s') \<and> validate_deterministic_indexes (cs_utxo s') = Inr ()"
proof -
  have "(\<Sum>b \<leftarrow> bs. (50 :: nat) div 2 ^ (block_height b div 210000))
      = (\<Sum>h \<leftarrow> map block_height bs. 50 div 2 ^ (h div 210000))"
    by (simp add: comp_def)
  also have "\<dots> = (\<Sum>h \<in> set (map block_height bs). 50 div 2 ^ (h div 210000))"
    by (rule sum_list_distinct_conv_sum_set [OF assms(3)])
  also have "\<dots> \<le> 20370000" by (rule subsidy_sum_le) simp
  finally show ?thesis
    using valid_chain_value [OF assms(2,1)] by (auto simp: validate_indexes_iff utxo_wf_def)
qed

definition sample_block :: Block where
  "sample_block = \<lparr>b_hash = ''b1'', b_header = \<lparr>h_version = 1, h_parents = [''g''], h_timestamp = 1,
    h_difficulty = 1, h_nonce = 0, h_merkle_root = [], h_state_root = [], h_blue_score = 1, h_height = 1\<rparr>,
    b_transactions = [sample_coinbase]\<rparr>"

theorem legacy_supply_bounded_witness:
  "\<exists>s'. valid_chain plain_crypto [sample_block] blank_state s'
    \<and> total_value (us_utxos (cs_utxo s')) \<le> 20370000"
proof -
  define s' where "s' = fst (apply_transaction sample_coinbase (clear_mempool blank_state) 1)"
  have sub: "block_subsidy 1 = 50"
    by (rule word_eqI_unat) (simp add: unat_block_subsidy)
  have "validate_coinbase_reward sample_block = Inr ()"
    by (simp add: validate_coinbase_reward_def sample_block_def sample_coinbase_def
        transaction_output_sum_def total_block_fees_def is_coinbase_def sub checked_add_def)
  moreover have "validate_coinbase_position sample_block = Inr ()"
    by (simp add: validate_coinbase_position_def sample_block_def sample_coinbase_def is_coinbase_def)
  moreover have "post_state plain_crypto sample_block blank_state = Inr s'"
    by (simp add: post_state_def sample_block_def ledger_eval clear_mempool_def s'_def)
  ultimately have v: "valid_chain plain_crypto [sample_block] blank_state s'" by simp
  from legacy_supply_bounded [OF utxo_wf_blank v] v show ?thesis
    by (auto simp: total_value_def blank_state_def)
qed


section \<open>Confirmed transactions\<close>

text \<open>The shape of a conflict diagnostic: words without spaces, in this order.\<close>

definition spaceless :: "string \<Rightarrow> bool" where
  "spaceless w \<longleftrightarrow> CHR '' '' \<notin> set w"

definition conflict_entry :: "string \<Rightarrow> Hash \<Rightarrow> Hash \<Rightarrow> string \<Rightarrow> string" where
  "conflict_entry pos h t rest =
    pos @ '' block='' @ h @ '' tx='' @ t @ '' skipped_conflict'' @ rest"

definition conflict_entry_ok :: "string \<Rightarrow> bool" where
  "conflict_entry_ok e \<longleftrightarrow> (\<exists>pos h t rest. e = conflict_entry pos h t rest
    \<and> spaceless pos \<and> spaceless h \<and> spaceless t \<and> spaceless rest \<and> h \<noteq> [] \<and> t \<noteq> [])"

lemma split_once_spaceless:
  "spaceless a \<Longrightarrow> split_once (a @ CHR '' '' # p @ r) (CHR '' '' # p) = Some (a, r)"
  by (induction a) (auto simp: spaceless_def starts_with_def)

lemma spaceless_append_eq:
  assumes "spaceless a" "spaceless b" "a @ CHR '' '' # x = b @ CHR '' '' # y"
  shows "a = b \<and> x = y"
  using assms
proof (induction a arbitrary: b)
  case Nil
  then show ?case by (cases b) (auto simp: spaceless_def)
next
  case (Cons c a)
  then obtain b' where "b = c # b'" by (cases b) (auto simp: spaceless_def)
  with Cons show ?case by (auto simp: spaceless_def)
qed

lemma skipped_occurrence_entry:
  assumes "spaceless pos" "spaceless h" "spaceless t" "h \<noteq> []" "t \<noteq> []"
  shows "skipped_occurrence (conflict_entry pos h t rest) = Some (h, t)"
proof -
  have "split_once (conflict_entry pos h t rest) '' block=''
      = Some (pos, h @ '' tx='' @ t @ '' skipped_conflict'' @ rest)"
    using split_once_spaceless [OF assms(1), of "''block=''"
        "h @ '' tx='' @ t @ '' skipped_conflict'' @ rest"] by (simp add: conflict_entry_def)
  moreover have "split_once (h @ '' tx='' @ t @ '' skipped_conflict'' @ rest) '' tx=''
      = Some (h, t @ '' skipped_conflict'' @ rest)"
    using split_once_spaceless [OF assms(2), of "''tx=''" "t @ '' skipped_conflict'' @ rest"] by simp
  moreover have "split_once (t @ '' skipped_conflict'' @ rest) '' skipped_conflict'' = Some (t, rest)"
    using split_once_spaceless [OF assms(3), of "''skipped_conflict''" rest] by simp
  ultimately show ?thesis using assms(4,5) by (simp add: skipped_occurrence_def)
qed

lemma str_contains_iff: "str_contains s p \<longleftrightarrow> (\<exists>a c. s = a @ p @ c)"
proof (induction s)
  case Nil
  then show ?case by auto
next
  case (Cons x s)
  show ?case
  proof
    assume "str_contains (x # s) p"
    then consider "starts_with (x # s) p" | "str_contains s p" by auto
    then show "\<exists>a c. x # s = a @ p @ c"
    proof cases
      case 1
      then have "x # s = [] @ p @ drop (length p) (x # s)"
        using append_take_drop_id [of "length p" "x # s"] by (simp add: starts_with_def)
      then show ?thesis by blast
    next
      case 2
      with Cons.IH obtain a c where "s = a @ p @ c" by blast
      then have "x # s = (x # a) @ p @ c" by simp
      then show ?thesis by blast
    qed
  next
    assume "\<exists>a c. x # s = a @ p @ c"
    then obtain a c where e: "x # s = a @ p @ c" by blast
    show "str_contains (x # s) p"
    proof (cases a)
      case Nil
      with e have "starts_with (x # s) p" by (simp add: starts_with_def)
      then show ?thesis by simp
    next
      case (Cons y a')
      with e have "s = a' @ p @ c" by simp
      with Cons.IH show ?thesis by auto
    qed
  qed
qed

lemma str_contains_entry:
  assumes ok: "spaceless pos" "spaceless h" "spaceless t" "spaceless rest" "spaceless h'" "spaceless t'"
  shows "str_contains (conflict_entry pos h t rest)
      ('' block='' @ h' @ '' tx='' @ t' @ '' skipped_conflict'') \<longleftrightarrow> h' = h \<and> t' = t"
proof
  assume "str_contains (conflict_entry pos h t rest) ('' block='' @ h' @ '' tx='' @ t' @ '' skipped_conflict'')"
  then obtain a c where e: "conflict_entry pos h t rest
      = a @ ('' block='' @ h' @ '' tx='' @ t' @ '' skipped_conflict'') @ c"
    by (auto simp: str_contains_iff)
  have z: "filter (\<lambda>x. x = CHR '' '') w = []" if "spaceless w" for w
    using that by (auto simp: spaceless_def filter_empty_conv)
  have "length (filter (\<lambda>x. x = CHR '' '') (conflict_entry pos h t rest)) = 3"
    using ok by (simp add: conflict_entry_def z)
  then have "filter (\<lambda>x. x = CHR '' '') a = []" using ok by (simp add: e z)
  then have a: "spaceless a" by (auto simp: spaceless_def filter_empty_conv)
  have w: "spaceless (''block='' @ h)" "spaceless (''block='' @ h')" "spaceless (''tx='' @ t)" "spaceless (''tx='' @ t')"
    using ok by (auto simp: spaceless_def)
  from spaceless_append_eq [OF ok(1) a] e
  have e1: "(''block='' @ h) @ CHR '' '' # (''tx='' @ t) @ '' skipped_conflict'' @ rest
      = (''block='' @ h') @ CHR '' '' # (''tx='' @ t') @ '' skipped_conflict'' @ c"
    by (auto simp: conflict_entry_def)
  from spaceless_append_eq [OF w(1,2) e1] have "h' = h"
    and e2: "(''tx='' @ t) @ CHR '' '' # ''skipped_conflict'' @ rest
      = (''tx='' @ t') @ CHR '' '' # ''skipped_conflict'' @ c" by auto
  with spaceless_append_eq [OF w(3,4) e2] show "h' = h \<and> t' = t" by simp
next
  assume "h' = h \<and> t' = t"
  then have "conflict_entry pos h t rest
      = pos @ ('' block='' @ h' @ '' tx='' @ t' @ '' skipped_conflict'') @ rest"
    by (simp add: conflict_entry_def)
  then show "str_contains (conflict_entry pos h t rest)
      ('' block='' @ h' @ '' tx='' @ t' @ '' skipped_conflict'')"
    unfolding str_contains_iff by blast
qed

lemma skipped_iff:
  assumes "list_all conflict_entry_ok (dag_ordered_dag_conflict_diagnostics (cs_dag s))"
    and "spaceless h" "spaceless t"
  shows "ordered_block_skipped_transaction t h s \<longleftrightarrow> (h, t) \<in> set (ordered_replay_skipped_transactions s)"
proof -
  have "str_contains e ('' block='' @ h @ '' tx='' @ t @ '' skipped_conflict'')
      \<longleftrightarrow> skipped_occurrence e = Some (h, t)"
    if "e \<in> set (dag_ordered_dag_conflict_diagnostics (cs_dag s))" for e
  proof -
    from that assms(1) have "conflict_entry_ok e" by (auto simp: list_all_iff)
    then obtain pos h' t' rest where "e = conflict_entry pos h' t' rest" "spaceless pos" "spaceless h'"
      "spaceless t'" "spaceless rest" "h' \<noteq> []" "t' \<noteq> []" unfolding conflict_entry_ok_def by blast
    with assms(2,3) show ?thesis
      using str_contains_entry [of pos h' t' rest h t] skipped_occurrence_entry [of pos h' t' rest] by auto
  qed
  then show ?thesis
    by (auto simp: ordered_block_skipped_transaction_def ordered_replay_skipped_transactions_def
        set_fold_insort_insert list_ex_iff in_set_map_filter)
qed

text \<open>
  C34. The bulk set of confirmed occurrences and the per-transaction test agree: a transaction id is
  confirmed exactly when some block hash is paired with it in the set, and the set is sorted without
  duplicates. The two detect skipped transactions differently, one by searching each diagnostic for a
  marker and the other by parsing it; they agree because ids and hashes contain no spaces.
\<close>

theorem confirmed_occurrences_agree:
  assumes "list_all conflict_entry_ok (dag_ordered_dag_conflict_diagnostics (cs_dag s))"
    and "list_all (\<lambda>b. spaceless (b_hash b)) (canonical_blocks s)" "spaceless t"
  shows "(transaction_is_confirmed t s \<longleftrightarrow>
      list_ex (\<lambda>(h, t'). t' = t) (authoritative_confirmed_transaction_occurrences s))
    \<and> btree (authoritative_confirmed_transaction_occurrences s)"
proof -
  have "btree (fold insort_insert xs [])" for xs :: "(Hash \<times> Hash) list"
  proof -
    have "btree acc \<Longrightarrow> btree (fold insort_insert xs acc)" for acc by (induction xs arbitrary: acc) auto
    then show ?thesis by (simp add: btree_def)
  qed
  moreover have "transaction_is_confirmed t s \<longleftrightarrow>
      list_ex (\<lambda>(h, t'). t' = t) (authoritative_confirmed_transaction_occurrences s)"
    using skipped_iff [OF assms(1) _ assms(3)] assms(2)
    by (fastforce simp: transaction_is_confirmed_def authoritative_confirmed_transaction_occurrences_def
        Let_def list_ex_iff set_fold_insort_insert list_all_iff)
  ultimately show ?thesis by (simp add: authoritative_confirmed_transaction_occurrences_def Let_def)
qed

definition sample_confirmed_state :: ChainState where
  "sample_confirmed_state = blank_state\<lparr>cs_dag := (cs_dag blank_state)\<lparr>dag_consensus_mode := GhostdagDev,
    dag_blocks := [(''b1'', sample_block)], dag_ordered_dag := [''b1''],
    dag_ordered_dag_conflict_diagnostics := [''ordered_pos=1 block=b1 tx=cb skipped_conflict'']\<rparr>\<rparr>"

theorem confirmed_occurrences_agree_witness:
  "\<not> transaction_is_confirmed ''cb'' sample_confirmed_state
    \<and> \<not> list_ex (\<lambda>(h, t'). t' = ''cb'') (authoritative_confirmed_transaction_occurrences sample_confirmed_state)"
proof -
  have "conflict_entry_ok ''ordered_pos=1 block=b1 tx=cb skipped_conflict''"
    unfolding conflict_entry_ok_def
    by (rule exI [of _ "''ordered_pos=1''"], rule exI [of _ "''b1''"], rule exI [of _ "''cb''"], rule exI [of _ "[]"])
       (simp add: conflict_entry_def spaceless_def)
  then have a: "list_all conflict_entry_ok (dag_ordered_dag_conflict_diagnostics (cs_dag sample_confirmed_state))"
    by (simp add: sample_confirmed_state_def)
  have b: "list_all (\<lambda>b. spaceless (b_hash b)) (canonical_blocks sample_confirmed_state)" "spaceless ''cb''"
    by (simp_all add: canonical_blocks_def canonical_order_def ordered_replay_def ghostdag_metadata_active_def
        sample_confirmed_state_def map_filter_def spaceless_def sample_block_def)
  have "\<not> transaction_is_confirmed ''cb'' sample_confirmed_state"
    by (simp add: transaction_is_confirmed_def canonical_blocks_def canonical_order_def ordered_replay_def
        ghostdag_metadata_active_def sample_confirmed_state_def map_filter_def sample_block_def
        ordered_block_skipped_transaction_def starts_with_def)
  with confirmed_occurrences_agree [OF a b] show ?thesis by simp
qed

end
