(* ===== verification/Pulse_PowTarget.thy ===== *)
theory Pulse_PowTarget
  imports Pulse_Bytes
begin

text \<open>
  Compact proof-of-work targets (\<open>pow.rs\<close>): the 32-byte target a compact \<open>bits\<close> field denotes, the
  compact form of a target, and the comparison of a hash with a target. A target is a big-endian
  byte string of length 32.
\<close>

type_synonym PowTarget = bytes

section \<open>Operations\<close>

definition target_from_bits :: "u32 \<Rightarrow> PowTarget" where
  "target_from_bits bits =
    (if drop_bit 24 bits = 0 then
       let difficulty = max (ucast bits :: u64) 1; legacy = - 1 div difficulty
       in to_be_bytes legacy @ replicate 24 0xff
     else
       let exponent = unat (drop_bit 24 bits AND 0xff); mantissa = bits AND 0x007fffff
       in if exponent = 0 \<or> mantissa = 0 then replicate 32 0
          else if exponent \<le> 3 then
            let shifted = drop_bit (8 * (3 - exponent)) mantissa
            in replicate 29 0 @
              [ucast (drop_bit 16 shifted AND 0xff), ucast (drop_bit 8 shifted AND 0xff),
               ucast (shifted AND 0xff)]
          else
            let start = 32 - exponent
            in if 32 \<le> start \<or> 32 < start + 3 then replicate 32 0xff
               else replicate start 0 @
                 [ucast (drop_bit 16 mantissa AND 0xff), ucast (drop_bit 8 mantissa AND 0xff),
                  ucast (mantissa AND 0xff)] @ replicate (29 - start) 0)"

definition bits_from_target :: "PowTarget \<Rightarrow> u32" where
  "bits_from_target target =
    (if list_all (\<lambda>b. b = 0) target then 0
     else
       let first_nonzero = length (takeWhile (\<lambda>b. b = 0) target);
           exponent = word_of_nat (32 - first_nonzero) :: u32
       in if 0x7f < target ! first_nonzero then
            let m = push_bit 8 (ucast (target ! first_nonzero) :: u32);
                m = (if first_nonzero + 1 < 32 then m OR ucast (target ! (first_nonzero + 1)) else m)
            in push_bit 24 (exponent + 1) OR (m AND 0x007fffff)
          else
            let m = push_bit 16 (ucast (target ! first_nonzero) :: u32);
                m = (if first_nonzero + 1 < 32
                     then m OR push_bit 8 (ucast (target ! (first_nonzero + 1))) else m);
                m = (if first_nonzero + 2 < 32 then m OR ucast (target ! (first_nonzero + 2)) else m)
            in push_bit 24 exponent OR (m AND 0x007fffff))"

definition compare_pow_hash_to_target :: "bytes \<Rightarrow> PowTarget \<Rightarrow> bool" where
  "compare_pow_hash_to_target hash target \<longleftrightarrow> hash \<le> target"

definition leading_u64 :: "PowTarget \<Rightarrow> u64" where
  "leading_u64 target = from_be_bytes (take 8 target)"

definition u64_to_target :: "u64 \<Rightarrow> PowTarget" where
  "u64_to_target v = to_be_bytes v @ replicate 24 0"

definition target_from_compact :: "u32 \<Rightarrow> u64" where
  "target_from_compact compact_difficulty = leading_u64 (target_from_bits compact_difficulty)"

definition compact_from_target :: "u64 \<Rightarrow> u32" where
  "compact_from_target target_u64 = bits_from_target (u64_to_target target_u64)"

definition pow_target_u64 :: "u64 \<Rightarrow> u64" where
  "pow_target_u64 difficulty = leading_u64 (target_from_bits (ucast difficulty))"

section \<open>Lemmas\<close>

lemma length_target_from_bits [simp]: "length (target_from_bits bits) = 32"
proof -
  have "32 - e + (3 + (29 - (32 - e))) = 32" if "3 < e" "32 - e < 32 \<and> \<not> 32 < 32 - e + 3" for e :: nat
    using that by simp
  then show ?thesis by (auto simp: target_from_bits_def Let_def)
qed

text \<open>The fields of a compact word built from an exponent and a mantissa.\<close>

definition compact :: "u32 \<Rightarrow> u32 \<Rightarrow> u32" where
  "compact e m = push_bit 24 e OR (m AND 0x007fffff)"

lemma mask23: "(0x007fffff :: u32) = mask 23" by (simp add: mask_eq_exp_minus_1)
lemma mask8: "(0xff :: u32) = mask 8" by (simp add: mask_eq_exp_minus_1)

lemma compact_exponent:
  assumes "unat e < 256"
  shows "drop_bit 24 (compact e m) = e"
proof (rule bit_word_eqI)
  fix n assume n: "n < LENGTH(32)"
  have e: "take_bit 8 e = e"
    using assms by (simp add: word_unat_eq_iff unsigned_take_bit_eq take_bit_nat_eq_self)
  have "bit e n \<Longrightarrow> n < 8" by (metis bit_take_bit_iff e)
  then show "bit (drop_bit 24 (compact e m)) n = bit e n"
    using n unfolding compact_def mask23 by (auto simp: bit_simps)
qed

lemma compact_mantissa: "compact e m AND 0x007fffff = m AND 0x007fffff"
  unfolding compact_def mask23 by (rule bit_word_eqI) (auto simp: bit_simps)

text \<open>A mantissa assembled from three bytes.\<close>

definition mant :: "u8 \<Rightarrow> u8 \<Rightarrow> u8 \<Rightarrow> u32" where
  "mant a b c = push_bit 16 (ucast a) OR push_bit 8 (ucast b) OR ucast c"

lemma u8_bit_bound: "bit (w :: u8) n \<Longrightarrow> n < 8"
  using bit_imp_le_length [of w n] by simp

lemma u8_le_7f_bit: "(a :: u8) \<le> 0x7f \<Longrightarrow> bit a n \<Longrightarrow> n < 7"
proof -
  assume "a \<le> 0x7f" "bit a n"
  then have "take_bit 7 a = a"
    by (simp add: word_unat_eq_iff unsigned_take_bit_eq take_bit_nat_eq_self word_le_nat_alt)
  with \<open>bit a n\<close> show "n < 7" by (metis bit_take_bit_iff)
qed

lemma mant_bytes:
  "ucast (drop_bit 16 (mant a b c) AND 0xff) = a"
  "ucast (drop_bit 8 (mant a b c) AND 0xff) = b"
  "ucast (mant a b c AND 0xff) = c"
  unfolding mant_def mask8
  by (rule bit_word_eqI; auto simp: bit_simps dest: u8_bit_bound)+

lemma mant_masked: "a \<le> 0x7f \<Longrightarrow> mant a b c AND 0x007fffff = mant a b c"
  unfolding mant_def mask23
  by (rule bit_word_eqI) (auto simp: bit_simps dest: u8_bit_bound u8_le_7f_bit)

lemma mant_shift:
  "drop_bit 8 (mant a b c) = mant 0 a b" "drop_bit 16 (mant a b c) = mant 0 0 a"
  unfolding mant_def
  by (rule bit_word_eqI; auto simp: bit_simps dest: u8_bit_bound)+

lemma mant_eq_0: "mant a b c = 0 \<longleftrightarrow> a = 0 \<and> b = 0 \<and> c = 0"
proof
  assume *: "mant a b c = 0"
  show "a = 0 \<and> b = 0 \<and> c = 0" using mant_bytes [of a b c] unfolding * by simp
qed (simp add: mant_def)

text \<open>The target a compact word with a positive exponent and mantissa bytes \<open>a b c\<close> denotes.\<close>

definition place :: "nat \<Rightarrow> bytes \<Rightarrow> PowTarget" where
  "place start bs = take 32 (replicate start 0 @ bs @ replicate 32 0)"

lemma decode_compact:
  assumes e: "0 < e" "e \<le> 32" and a: "a \<le> 0x7f" and nz: "mant a b c \<noteq> 0"
  shows "target_from_bits (compact (word_of_nat e) (mant a b c)) = place (32 - e) [a, b, c]"
proof -
  have ue: "unat (word_of_nat e :: u32) = e" using e by (simp add: unat_word_of_nat_small)
  have dr: "drop_bit 24 (compact (word_of_nat e) (mant a b c)) = word_of_nat e"
    by (rule compact_exponent) (use e ue in simp)
  have e0: "(word_of_nat e :: u32) \<noteq> 0" using e ue by (metis unat_0 less_irrefl)
  have ff: "(word_of_nat e AND 0xff :: u32) = word_of_nat e"
    unfolding mask8 using e ue
    by (simp add: word_unat_eq_iff unsigned_take_bit_eq take_bit_nat_eq_self flip: take_bit_eq_mask)
  have mm: "compact (word_of_nat e) (mant a b c) AND 0x007fffff = mant a b c"
    by (simp only: compact_mantissa mant_masked [OF a])
  have *: "target_from_bits (compact (word_of_nat e) (mant a b c)) =
    (if e \<le> 3 then let shifted = drop_bit (8 * (3 - e)) (mant a b c) in replicate 29 0 @
        [ucast (drop_bit 16 shifted AND 0xff), ucast (drop_bit 8 shifted AND 0xff),
               ucast (shifted AND 0xff)]
     else replicate (32 - e) 0 @ [a, b, c] @ replicate (29 - (32 - e)) 0)"
    unfolding target_from_bits_def Let_def dr ff mm ue mant_bytes using e e0 nz by auto
  have z: "replicate 31 (0 :: u8) = replicate 29 0 @ [0, 0]" "replicate 30 (0 :: u8) = replicate 29 0 @ [0]"
    by (simp_all add: numeral_eq_Suc)
  consider "e = 1" | "e = 2" | "e = 3" | "3 < e" using e by linarith
  then show ?thesis
  proof cases
    case 1
    then show ?thesis unfolding * place_def by (simp add: mant_shift mant_bytes z)
  next
    case 2
    then show ?thesis unfolding * place_def by (simp add: mant_shift mant_bytes z)
  next
    case 3
    then show ?thesis unfolding * place_def by (simp add: mant_bytes)
  next
    case 4
    then have "take e [a, b, c] = [a, b, c]" "32 - (32 - e) = e" "min 32 (32 - e) = 32 - e"
      "min (e - 3) 32 = e - 3" "29 - (32 - e) = e - 3" using e by auto
    then show ?thesis using 4 unfolding * place_def take_append by simp
  qed
qed

text \<open>The compact form of a non-zero target, through its first non-zero byte.\<close>

definition lead :: "PowTarget \<Rightarrow> nat" where
  "lead t = length (takeWhile (\<lambda>b. b = 0) t)"

definition byte_at :: "PowTarget \<Rightarrow> nat \<Rightarrow> u8" where
  "byte_at t i = (if i < 32 then t ! i else 0)"

lemma lead_lt: "\<not> list_all (\<lambda>b. b = 0) t \<Longrightarrow> lead t < length t"
  unfolding lead_def by (induction t) auto

lemma lead_facts:
  assumes "\<not> list_all (\<lambda>b. b = 0) t"
  shows "lead t < length t" "t ! lead t \<noteq> 0" "\<And>i. i < lead t \<Longrightarrow> t ! i = 0"
proof -
  show l: "lead t < length t" using assms by (rule lead_lt)
  then show "t ! lead t \<noteq> 0"
    unfolding lead_def by (rule nth_length_takeWhile)
  fix i assume "i < lead t"
  then have i: "i < length (takeWhile (\<lambda>b. b = 0) t)" by (simp add: lead_def)
  then have "takeWhile (\<lambda>b. b = 0) t ! i = 0" by (rule set_takeWhileD [OF nth_mem, THEN conjunct2])
  then show "t ! i = 0" by (simp add: takeWhile_nth [OF i])
qed

lemma bits_from_target_compact:
  assumes t: "length t = 32" "\<not> list_all (\<lambda>b. b = 0) t"
  shows "bits_from_target t =
    (if 0x7f < t ! lead t
     then compact (word_of_nat (33 - lead t)) (mant 0 (t ! lead t) (byte_at t (lead t + 1)))
     else compact (word_of_nat (32 - lead t))
       (mant (t ! lead t) (byte_at t (lead t + 1)) (byte_at t (lead t + 2))))"
proof -
  have l: "lead t < 32" using lead_facts(1) [OF t(2)] t(1) by simp
  then have "Suc (32 - lead t) = 33 - lead t" by simp
  then have e: "word_of_nat (32 - lead t) + 1 = (word_of_nat (33 - lead t) :: u32)"
    by (metis Suc_eq_plus1 of_nat_Suc of_nat_add of_nat_1)
  show ?thesis
    unfolding bits_from_target_def lead_def [symmetric] Let_def e
    using t(2) by (auto simp: compact_def mant_def byte_at_def or.assoc)
qed

lemma place_byte_at:
  assumes t: "length t = 32" and z: "\<And>i. i < n \<Longrightarrow> t ! i = 0"
  shows "place n [byte_at t n, byte_at t (n + 1), byte_at t (n + 2)]
    = take (n + 3) t @ replicate (32 - (n + 3)) 0" (is "place n ?bs = _")
proof (rule nth_equalityI)
  fix i assume "i < length (place n ?bs)"
  then have i: "i < 32" by (simp add: place_def)
  consider "i < n" | "i = n" | "i = n + 1" | "i = n + 2" | "n + 3 \<le> i" by linarith
  then show "place n ?bs ! i = (take (n + 3) t @ replicate (32 - (n + 3)) 0) ! i"
  proof cases
    case 5
    then obtain k where k: "i = n + 3 + k" using le_Suc_ex by blast
    then show ?thesis using i t by (simp add: place_def nth_append)
  qed (use i t z in \<open>simp_all add: place_def nth_append byte_at_def\<close>)
qed (use t in \<open>simp add: place_def\<close>)

definition kept :: "PowTarget \<Rightarrow> nat" where
  "kept t = lead t + (if 0x7f < t ! lead t then 2 else 3)"

text \<open>Encoding a target in the compact range and decoding it keeps its two or three leading bytes.\<close>

lemma decode_encode_truncates:
  assumes t: "length t = 32" "\<not> list_all (\<lambda>b. b = 0) t" "t ! 0 \<le> 0x7f"
  shows "target_from_bits (bits_from_target t) = take (kept t) t @ replicate (32 - kept t) 0"
proof -
  note lf = lead_facts [OF t(2)]
  have at: "byte_at t (lead t) = t ! lead t" using lf(1) t(1) by (simp add: byte_at_def)
  show ?thesis
  proof (cases "0x7f < t ! lead t")
    case True
    then have "lead t \<noteq> 0" using t(3) by (metis leD)
    then obtain n where n: "lead t = n + 1" by (metis Suc_eq_plus1 not0_implies_Suc)
    have n32: "0 < 33 - lead t" "33 - lead t \<le> 32" "32 - (33 - lead t) = n" "n < 32"
      using lf(1) t(1) n by auto
    have nz: "mant 0 (t ! lead t) (byte_at t (lead t + 1)) \<noteq> 0" using lf(2) by (simp add: mant_eq_0)
    have "target_from_bits (bits_from_target t) =
        place (32 - (33 - lead t)) [0, t ! lead t, byte_at t (lead t + 1)]"
      unfolding bits_from_target_compact [OF t(1,2)] if_P [OF True]
      by (rule decode_compact) (use n32 nz in auto)
    moreover have "byte_at t n = 0" using lf(3) [of n] n n32 by (simp add: byte_at_def)
    moreover have "place n [byte_at t n, byte_at t (n + 1), byte_at t (n + 2)]
        = take (n + 3) t @ replicate (32 - (n + 3)) 0"
      by (rule place_byte_at) (use t(1) lf(3) n in auto)
    moreover have "kept t = n + 3" using True n by (simp add: kept_def)
    ultimately show ?thesis using n n32(3) at by simp
  next
    case False
    have l: "0 < 32 - lead t" "32 - lead t \<le> 32" "32 - (32 - lead t) = lead t"
      using lf(1) t(1) by auto
    have nz: "mant (t ! lead t) (byte_at t (lead t + 1)) (byte_at t (lead t + 2)) \<noteq> 0"
      using lf(2) by (simp add: mant_eq_0)
    have "target_from_bits (bits_from_target t) = place (32 - (32 - lead t))
        [t ! lead t, byte_at t (lead t + 1), byte_at t (lead t + 2)]"
      unfolding bits_from_target_compact [OF t(1,2)] if_not_P [OF False]
      by (rule decode_compact) (use False l nz in auto)
    moreover have "place (lead t) [byte_at t (lead t), byte_at t (lead t + 1), byte_at t (lead t + 2)]
        = take (lead t + 3) t @ replicate (32 - (lead t + 3)) 0"
      by (rule place_byte_at) (use t(1) lf(3) in auto)
    moreover have "kept t = lead t + 3" using False by (simp add: kept_def)
    ultimately show ?thesis by (simp only: l(3) at)
  qed
qed


text \<open>A target whose first byte exceeds \<open>0x7f\<close> gets exponent 33, which is decoded one byte too low.\<close>

lemma decode_encode_high:
  assumes t: "length t = 32" "0x7f < t ! 0"
  shows "target_from_bits (bits_from_target t) = 0 # take 2 t @ replicate 29 0"
proof -
  obtain a t1 where "t = a # t1" using t(1) by (cases t) auto
  moreover obtain b u where "t1 = b # u" using t(1) calculation by (cases t1) auto
  ultimately have ab: "t = a # b # u" by simp
  have a0: "a \<noteq> 0" and a7: "0x7f < a" using t(2) by (auto simp: ab)
  have lead: "lead t = 0" "t ! 0 = a" "byte_at t 1 = b" "\<not> list_all (\<lambda>b. b = 0) t"
    using a0 by (simp_all add: ab lead_def byte_at_def)
  have bits: "bits_from_target t = compact (word_of_nat 33) (mant 0 a b)"
    using bits_from_target_compact [OF t(1) lead(4)] a7 by (simp only: lead if_True add_0 diff_zero)
  have u: "unat (word_of_nat 33 :: u32) = 33" by simp
  have dr: "drop_bit 24 (compact (word_of_nat 33) (mant 0 a b)) = word_of_nat 33"
    by (rule compact_exponent) simp
  have ff: "(word_of_nat 33 AND 0xff :: u32) = word_of_nat 33" by simp
  have mm: "compact (word_of_nat 33) (mant 0 a b) AND 0x007fffff = mant 0 a b"
    by (simp only: compact_mantissa mant_masked [OF word_zero_le])
  have nz: "mant 0 a b \<noteq> 0" using a0 by (simp add: mant_eq_0)
  have n33: "word_of_nat 33 \<noteq> (0 :: u32)" by simp
  have "target_from_bits (bits_from_target t) =
    replicate (32 - 33) 0 @ [0, a, b] @ replicate (29 - (32 - 33)) 0"
    unfolding bits target_from_bits_def Let_def dr ff mm mant_bytes u using nz n33 by simp
  then show ?thesis by (simp add: ab)
qed

lemma decode_encode_zero:
  "list_all (\<lambda>b. b = 0) t \<Longrightarrow> target_from_bits (bits_from_target t) = replicate 32 0xff"
proof -
  assume "list_all (\<lambda>b. b = 0) t"
  then have "bits_from_target t = 0" by (simp add: bits_from_target_def)
  moreover have "to_be_bytes (- 1 :: u64) = [0xff, 0xff, 0xff, 0xff, 0xff, 0xff, 0xff, 0xff]"
    by (simp add: to_be_bytes_def to_le_bytes_def unat_minus_one_word)
  moreover have "replicate 32 (0xff :: u8) =
      [0xff, 0xff, 0xff, 0xff, 0xff, 0xff, 0xff, 0xff] @ replicate 24 0xff"
    by (simp add: numeral_eq_Suc)
  ultimately show ?thesis by (simp add: target_from_bits_def)
qed

lemma not_all_zero_if_positive: "0 < be_value t \<Longrightarrow> \<not> list_all (\<lambda>b. b = 0) t"
proof
  assume "0 < be_value t" "list_all (\<lambda>b. b = 0) t"
  then have "t = replicate (length t) 0" by (simp add: list_all_iff replicate_eqI)
  then show False using \<open>0 < be_value t\<close> by (metis be_value_replicate_0 less_irrefl)
qed

lemma be_value_truncate:
  assumes "length t = 32" "k \<le> 32"
  shows "be_value t = be_value (take k t @ replicate (32 - k) 0) + be_value (drop k t)"
    and "be_value (drop k t) < 256 ^ (32 - k)"
proof -
  have "be_value t = be_value (take k t) * 256 ^ (32 - k) + be_value (drop k t)"
    using be_value_append [of "take k t" "drop k t"] assms by simp
  then show "be_value t = be_value (take k t @ replicate (32 - k) 0) + be_value (drop k t)"
    by (simp add: be_value_append)
  show "be_value (drop k t) < 256 ^ (32 - k)" using be_value_bound [of "drop k t"] assms by simp
qed

text \<open>Decoding after encoding never raises a target of the compact range.\<close>

lemma decode_encode_le:
  assumes t: "length t = 32" "0 < be_value t" "t ! 0 \<le> 0x7f"
  shows "be_value (target_from_bits (bits_from_target t)) \<le> be_value t"
proof (cases "kept t \<le> 32")
  case True
  then show ?thesis
    using decode_encode_truncates [OF t(1) not_all_zero_if_positive [OF t(2)] t(3)]
      be_value_truncate(1) [OF t(1) True] by simp
next
  case False
  then show ?thesis
    using decode_encode_truncates [OF t(1) not_all_zero_if_positive [OF t(2)] t(3)] t(1) by simp
qed

lemma lead_value:
  assumes t: "length t = 32" "0 < be_value t" "t ! 0 \<le> 0x7f" "kept t < 32"
  shows "2 ^ 15 * 256 ^ (32 - kept t) \<le> be_value t"
proof -
  note nz = not_all_zero_if_positive [OF t(2)]
  let ?n = "lead t"
  have n: "?n < 32" using lead_facts(1) [OF nz] t(1) by simp
  have "be_value t = be_value (take ?n t) * 256 ^ (32 - ?n) + be_value (drop ?n t)"
    using be_value_append [of "take ?n t" "drop ?n t"] t(1) by simp
  moreover have "drop ?n t = t ! ?n # drop (Suc ?n) t" using n t(1) by (simp add: Cons_nth_drop_Suc)
  ultimately have val: "unat (t ! ?n) * 256 ^ (31 - ?n) \<le> be_value t" using t(1) by simp
  show ?thesis
  proof (cases "0x7f < t ! ?n")
    case True
    then have k: "kept t = ?n + 2" by (simp add: kept_def)
    have "128 \<le> unat (t ! ?n)" using True by (simp add: word_less_nat_alt)
    then have "128 * 256 ^ (31 - ?n) \<le> unat (t ! ?n) * 256 ^ (31 - ?n)" by (rule mult_le_mono1)
    moreover have "(256 :: nat) ^ (31 - ?n) = 256 * 256 ^ (32 - kept t)"
    proof -
      have "31 - ?n = 1 + (32 - kept t)" using k t(4) by simp
      then show ?thesis by (simp only: power_add) simp
    qed
    ultimately have "32768 * 256 ^ (32 - kept t) \<le> be_value t" using val by linarith
    then show ?thesis by simp
  next
    case False
    then have k: "kept t = ?n + 3" by (simp add: kept_def)
    have "1 \<le> unat (t ! ?n)" using lead_facts(2) [OF nz] by (simp add: unat_gt_0 Suc_le_eq)
    then have "1 * 256 ^ (31 - ?n) \<le> unat (t ! ?n) * 256 ^ (31 - ?n)" by (rule mult_le_mono1)
    moreover have "(256 :: nat) ^ (31 - ?n) = 65536 * 256 ^ (32 - kept t)"
    proof -
      have "31 - ?n = 2 + (32 - kept t)" using k t(4) by simp
      then show ?thesis by (simp only: power_add) simp
    qed
    ultimately have "32768 * 256 ^ (32 - kept t) \<le> be_value t" using val by linarith
    then show ?thesis by simp
  qed
qed

lemma compact_precision:
  assumes "length t = 32" "0 < be_value t" "t ! 0 \<le> 0x7f"
  shows "be_value (target_from_bits (bits_from_target t)) \<le> be_value t"
    and "(be_value t - be_value (target_from_bits (bits_from_target t))) * 2 ^ 15 < be_value t"
proof -
  let ?c = "target_from_bits (bits_from_target t)"
  note nz = not_all_zero_if_positive [OF assms(2)]
  have c: "?c = take (kept t) t @ replicate (32 - kept t) 0"
    using assms nz by (simp add: decode_encode_truncates)
  show "(be_value t - be_value ?c) * 2 ^ 15 < be_value t"
  proof (cases "kept t < 32")
    case True
    then have k: "kept t \<le> 32" by simp
    have "be_value t - be_value ?c = be_value (drop (kept t) t)"
      using be_value_truncate(1) [OF assms(1) k] c by simp
    also have "\<dots> < 256 ^ (32 - kept t)" by (rule be_value_truncate(2) [OF assms(1) k])
    finally have "(be_value t - be_value ?c) * 2 ^ 15 < 256 ^ (32 - kept t) * 2 ^ 15" by simp
    also have "\<dots> \<le> be_value t"
      using lead_value [OF assms(1-3) True] by (simp add: mult.commute)
    finally show ?thesis .
  next
    case False
    then show ?thesis using c assms by simp
  qed
  show "be_value ?c \<le> be_value t" using assms by (intro decode_encode_le) auto
qed

section \<open>Properties\<close>

text \<open>
  C21. Compact targets, all branches. Encoding a 32-byte target and decoding it again gives: the
  easiest possible target for the all-zero target; the target shifted down by one byte when its first
  byte exceeds \<open>0x7f\<close>; and otherwise the target with everything after its leading two or three
  significant bytes cleared.
\<close>

theorem compact_target_roundtrip:
  assumes "length t = 32"
  shows "target_from_bits (bits_from_target t) =
    (if list_all (\<lambda>b. b = 0) t then replicate 32 0xff
     else if 0x7f < t ! 0 then 0 # take 2 t @ replicate 29 0
     else take (kept t) t @ replicate (32 - kept t) 0)"
  using assms decode_encode_zero decode_encode_high decode_encode_truncates
  by (simp add: not_less)

theorem compact_target_roundtrip_witness:
  "length (replicate 29 0 @ [1, 2, 3 :: u8]) = 32
   \<and> target_from_bits (bits_from_target (replicate 29 0 @ [1, 2, 3])) = replicate 29 0 @ [1, 2, 3]"
proof -
  have "kept (replicate 29 0 @ [1, 2, 3]) = 32"
    by (simp add: kept_def lead_def takeWhile_append nth_append)
  then show ?thesis
    using compact_target_roundtrip [of "replicate 29 0 @ [1, 2, 3]"] by (simp add: nth_append)
qed

text \<open>
  C38. Within the compact range the canonical target is never easier than the exact one and is less than
  one part in \<open>2^15\<close> harder; comparing a hash with any decoded target is comparison of the two
  256-bit numbers.
\<close>

theorem compact_target_precision:
  assumes "length t = 32" "0 < be_value t" "t ! 0 \<le> 0x7f" "length hash = 32"
  shows "let c = target_from_bits (bits_from_target t) in
    be_value c \<le> be_value t \<and> (be_value t - be_value c) * 2 ^ 15 < be_value t
    \<and> (compare_pow_hash_to_target hash c \<longleftrightarrow> be_value hash \<le> be_value c)"
  using compact_precision [OF assms(1-3)] assms(4)
  by (simp add: Let_def compare_pow_hash_to_target_def be_value_le_iff)

theorem compact_target_precision_witness:
  "let t = replicate 28 0 @ [1, 2, 3, 4 :: u8]; c = target_from_bits (bits_from_target t) in
    length t = 32 \<and> 0 < be_value t \<and> t ! 0 \<le> 0x7f \<and> be_value c \<le> be_value t
    \<and> (be_value t - be_value c) * 2 ^ 15 < be_value t
    \<and> (compare_pow_hash_to_target (replicate 32 0) c \<longleftrightarrow> be_value (replicate 32 0) \<le> be_value c)"
  using compact_target_precision [of "replicate 28 0 @ [1, 2, 3, 4]" "replicate 32 0"]
  by (simp add: Let_def be_value_append nth_append)

end
