(* ===== verification/Pulse_Retarget.thy ===== *)
theory Pulse_Retarget
  imports Pulse_State Pulse_PowTarget "HOL-Library.Signed_Division"
begin

text \<open>
  Difficulty retargeting (\<open>retarget.rs\<close> for second timestamps, \<open>retarget_v3.rs\<close> for nanosecond windows):
  the window of recent blocks, the damped and clamped work multiplier, exact multiplication of a
  256-bit target by a ratio in 64-bit limbs, and the bounds of the resulting target. Sums of intervals
  wrap as in a release build. The walk along selected parents may run into a cycle of unusable blocks
  and not return; it is a partial function whose outer \<open>None\<close> is that outcome.
\<close>

section \<open>Operations\<close>

definition CONSENSUS_TARGET_BLOCK_INTERVAL_SECS :: u64 where "CONSENSUS_TARGET_BLOCK_INTERVAL_SECS = 60"
definition CONSENSUS_POW_LIMIT_BITS :: u32 where "CONSENSUS_POW_LIMIT_BITS = 0x207fffff"
definition CONSENSUS_MIN_TARGET_BITS :: u32 where "CONSENSUS_MIN_TARGET_BITS = 0x01010000"
definition CONSENSUS_DIFFICULTY_WINDOW :: nat where "CONSENSUS_DIFFICULTY_WINDOW = 20"
definition CONSENSUS_DIFFICULTY_USE_MEDIAN :: bool where "CONSENSUS_DIFFICULTY_USE_MEDIAN = False"
definition CONSENSUS_MAX_FUTURE_DRIFT_SECS :: u64 where
  "CONSENSUS_MAX_FUTURE_DRIFT_SECS = CONSENSUS_TARGET_BLOCK_INTERVAL_SECS * 2"
definition CONSENSUS_RETARGET_DEADBAND_BPS :: u64 where "CONSENSUS_RETARGET_DEADBAND_BPS = 800"
definition CONSENSUS_RETARGET_DAMPING_DIVISOR :: u64 where "CONSENSUS_RETARGET_DAMPING_DIVISOR = 2"
definition CONSENSUS_RETARGET_MIN_BPS :: u64 where "CONSENSUS_RETARGET_MIN_BPS = 8000"
definition CONSENSUS_RETARGET_MAX_BPS :: u64 where "CONSENSUS_RETARGET_MAX_BPS = 12500"
definition BPS_DENOMINATOR :: u64 where "BPS_DENOMINATOR = 10000"
definition BPS_RECIPROCAL_NUMERATOR :: u64 where
  "BPS_RECIPROCAL_NUMERATOR = BPS_DENOMINATOR * BPS_DENOMINATOR"

record ConsensusDifficultyPolicy =
  pol_target_block_interval_secs :: u64
  pol_window_size :: nat
  pol_use_median :: bool
  pol_max_future_drift_secs :: u64

record ConsensusDifficultySnapshot =
  sn_best_height :: u64
  sn_next_height :: u64
  sn_expected_difficulty :: u32
  sn_expected_bits :: u32
  sn_current_bits :: u32
  sn_expected_target_u64 :: u64
  sn_expected_target_hex :: string
  sn_current_target_hex :: string
  sn_pow_limit_bits :: u32
  sn_pow_limit_target_hex :: string
  sn_target_block_interval_secs :: u64
  sn_observed_block_count :: nat
  sn_avg_block_interval_secs :: u64
  sn_retarget_multiplier_bps :: u64
  sn_target_multiplier_bps :: u64
  sn_retarget_min_bps :: u64
  sn_retarget_max_bps :: u64
  sn_retarget_was_clamped :: bool
  sn_target_was_clamped_to_pow_limit :: bool
  sn_retarget_rationale :: string
  sn_retarget_signal_quality :: string
  sn_policy :: ConsensusDifficultyPolicy

definition consensus_pow_limit_target :: PowTarget where
  "consensus_pow_limit_target = target_from_bits CONSENSUS_POW_LIMIT_BITS"

definition consensus_min_target :: PowTarget where
  "consensus_min_target = target_from_bits CONSENSUS_MIN_TARGET_BITS"

definition usable :: "Block \<Rightarrow> bool" where
  "usable block \<longleftrightarrow> h_height (b_header block) > 0 \<and> h_timestamp (b_header block) > 0"

definition consensus_recent_blocks :: "ChainState \<Rightarrow> nat \<Rightarrow> Block list" where
  "consensus_recent_blocks state window_size =
    take (max window_size 2) (filter usable
      (List.map_filter (lookup (dag_blocks (cs_dag state))) (rev (dag_selected_chain (cs_dag state)))))"

partial_function (option) recent_blocks_loop ::
  "ChainState \<Rightarrow> nat \<Rightarrow> Hash option \<Rightarrow> Block list \<Rightarrow> bool \<Rightarrow> (Block list \<times> bool) option" where
  "recent_blocks_loop state limit cursor recent saw_known_block =
    (case cursor of
       None \<Rightarrow> Some (recent, saw_known_block)
     | Some hash \<Rightarrow>
       (case lookup (dag_blocks (cs_dag state)) hash of
          None \<Rightarrow> Some (recent, saw_known_block)
        | Some block \<Rightarrow>
          if list_ex (\<lambda>known. b_hash known = hash) recent then Some (recent, True)
          else if usable block then
            if length (recent @ [block]) \<ge> limit then Some (recent @ [block], True)
            else recent_blocks_loop state limit (selected_parent_of state hash) (recent @ [block]) True
          else recent_blocks_loop state limit (selected_parent_of state hash) recent True))"

definition consensus_recent_blocks_from_parent ::
  "ChainState \<Rightarrow> Hash \<Rightarrow> nat \<Rightarrow> Block list option option" where
  "consensus_recent_blocks_from_parent state parent_hash window_size =
    map_option (\<lambda>(recent, saw_known_block). if saw_known_block then Some recent else None)
      (recent_blocks_loop state (max window_size 2) (Some parent_hash) [] False)"

fun consensus_recent_intervals_secs :: "Block list \<Rightarrow> u64 list" where
  "consensus_recent_intervals_secs (newer # older # rest) =
    saturating_sub (h_timestamp (b_header newer)) (h_timestamp (b_header older))
      # consensus_recent_intervals_secs (older # rest)"
| "consensus_recent_intervals_secs _ = []"

definition consensus_median :: "u64 list \<Rightarrow> u64" where
  "consensus_median values =
    (if values = [] then 0
     else
       let values = sort values; mid = length values div 2
       in if even (length values) then saturating_add (values ! (mid - 1)) (values ! mid) div 2
          else values ! mid)"

definition consensus_recent_block_interval_secs_with_mode :: "Block list \<Rightarrow> bool \<Rightarrow> u64" where
  "consensus_recent_block_interval_secs_with_mode window use_median =
    (let intervals = consensus_recent_intervals_secs window
     in if intervals = [] then 0
        else if use_median then consensus_median intervals
        else sum_list intervals div of_nat (length intervals))"

definition consensus_average_block_interval_secs :: "Block list \<Rightarrow> ConsensusDifficultyPolicy \<Rightarrow> u64" where
  "consensus_average_block_interval_secs recent_blocks policy =
    (if length recent_blocks < 2 then pol_target_block_interval_secs policy
     else max (consensus_recent_block_interval_secs_with_mode recent_blocks (pol_use_median policy)) 1)"

definition consensus_current_bits_from_blocks :: "Block list \<Rightarrow> u32" where
  "consensus_current_bits_from_blocks recent_blocks =
    (case List.find (\<lambda>block. h_height (b_header block) > 0) recent_blocks of
       None \<Rightarrow> CONSENSUS_POW_LIMIT_BITS
     | Some block \<Rightarrow> h_difficulty (b_header block))"

definition consensus_difficulty_policy :: ConsensusDifficultyPolicy where
  "consensus_difficulty_policy = \<lparr>pol_target_block_interval_secs = CONSENSUS_TARGET_BLOCK_INTERVAL_SECS,
    pol_window_size = CONSENSUS_DIFFICULTY_WINDOW, pol_use_median = CONSENSUS_DIFFICULTY_USE_MEDIAN,
    pol_max_future_drift_secs = CONSENSUS_MAX_FUTURE_DRIFT_SECS\<rparr>"

definition consensus_retarget_multiplier_bps :: "u64 \<Rightarrow> u64" where
  "consensus_retarget_multiplier_bps avg_block_interval_secs =
    (if avg_block_interval_secs = 0 then BPS_DENOMINATOR
     else
       let raw = saturating_mul CONSENSUS_TARGET_BLOCK_INTERVAL_SECS BPS_DENOMINATOR
             div max avg_block_interval_secs 1;
           lower_bound = saturating_sub BPS_DENOMINATOR CONSENSUS_RETARGET_DEADBAND_BPS;
           upper_bound = saturating_add BPS_DENOMINATOR CONSENSUS_RETARGET_DEADBAND_BPS
       in if lower_bound \<le> raw \<and> raw \<le> upper_bound then BPS_DENOMINATOR
          else
            let deviation = sint raw - sint BPS_DENOMINATOR;
                damped = sint BPS_DENOMINATOR + (deviation sdiv sint CONSENSUS_RETARGET_DAMPING_DIVISOR)
            in max CONSENSUS_RETARGET_MIN_BPS (min (word_of_int damped) CONSENSUS_RETARGET_MAX_BPS))"

definition consensus_target_multiplier_bps_from_work_multiplier :: "u64 \<Rightarrow> u64" where
  "consensus_target_multiplier_bps_from_work_multiplier work_multiplier_bps =
    (case checked_div (saturating_add BPS_RECIPROCAL_NUMERATOR (work_multiplier_bps div 2))
       (max work_multiplier_bps 1) of None \<Rightarrow> BPS_DENOMINATOR | Some v \<Rightarrow> v)"

definition target_to_limbs :: "PowTarget \<Rightarrow> u64 list" where
  "target_to_limbs target = map (\<lambda>i. from_be_bytes (take 8 (drop (i * 8) target))) [0..<4]"

definition limbs_to_target :: "u64 list \<Rightarrow> PowTarget" where
  "limbs_to_target limbs = concat (map to_be_bytes limbs)"

text \<open>The multiplication loop, from the last limb to the first: the carry out and the product limbs.\<close>

fun mul_limbs :: "u64 \<Rightarrow> u64 list \<Rightarrow> u128 \<times> u64 list" where
  "mul_limbs numerator [] = (0, [])"
| "mul_limbs numerator (limb # limbs) =
    (let (carry, product) = mul_limbs numerator limbs;
         v = saturating_add (saturating_mul (ucast limb) (ucast numerator)) carry
     in (drop_bit 64 v, ucast v # product))"

text \<open>The long division loop, from the first limb to the last.\<close>

fun div_limbs :: "u128 \<Rightarrow> u128 \<Rightarrow> u64 list \<Rightarrow> u64 list" where
  "div_limbs divisor remainder [] = []"
| "div_limbs divisor remainder (limb # limbs) =
    (let dividend = push_bit 64 remainder OR ucast limb
     in ucast (dividend div divisor) # div_limbs divisor (dividend mod divisor) limbs)"

definition scale_target_ratio :: "PowTarget \<Rightarrow> u64 \<Rightarrow> u64 \<Rightarrow> PowTarget \<times> bool" where
  "scale_target_ratio target numerator denominator =
    (let (carry, product) = mul_limbs numerator (target_to_limbs target);
         quotient = div_limbs (ucast (max denominator 1)) 0 (ucast carry # product)
     in (limbs_to_target (tl quotient), hd quotient \<noteq> 0))"

definition consensus_adjust_target_for_interval :: "u32 \<Rightarrow> u64 \<Rightarrow> u32 \<times> PowTarget \<times> bool" where
  "consensus_adjust_target_for_interval current_bits avg_block_interval_secs =
    (let pow_limit = consensus_pow_limit_target;
         min_target = consensus_min_target;
         current_target = target_from_bits current_bits;
         current_was_above_pow_limit = current_target > pow_limit;
         bounded_current =
           (if current_was_above_pow_limit then pow_limit
            else if current_target < min_target then min_target
            else current_target);
         work_multiplier_bps = consensus_retarget_multiplier_bps avg_block_interval_secs;
         target_multiplier_bps = consensus_target_multiplier_bps_from_work_multiplier work_multiplier_bps;
         (scaled, overflow) = scale_target_ratio bounded_current target_multiplier_bps BPS_DENOMINATOR;
         scaled_was_above_pow_limit = (overflow \<or> scaled > pow_limit);
         target_was_clamped_to_pow_limit = (current_was_above_pow_limit \<or> scaled_was_above_pow_limit);
         bounded =
           (if scaled_was_above_pow_limit then pow_limit
            else if scaled < min_target then min_target
            else scaled);
         bits = bits_from_target bounded
     in (bits, target_from_bits bits, target_was_clamped_to_pow_limit))"

definition expected_difficulty_for_parent :: "ChainState \<Rightarrow> Hash \<Rightarrow> u32 option option" where
  "expected_difficulty_for_parent state parent_hash =
    map_option (map_option (\<lambda>recent_blocks.
        fst (consensus_adjust_target_for_interval (consensus_current_bits_from_blocks recent_blocks)
          (consensus_average_block_interval_secs recent_blocks consensus_difficulty_policy))))
      (consensus_recent_blocks_from_parent state parent_hash (pol_window_size consensus_difficulty_policy))"

definition consensus_difficulty_snapshot :: "crypto \<Rightarrow> ChainState \<Rightarrow> ConsensusDifficultySnapshot" where
  "consensus_difficulty_snapshot C state =
    (let policy = consensus_difficulty_policy;
         recent_blocks = consensus_recent_blocks state (pol_window_size policy);
         observed_block_count = length recent_blocks;
         avg_block_interval_secs = consensus_average_block_interval_secs recent_blocks policy;
         observed_intervals = observed_block_count - 1;
         current_bits = consensus_current_bits_from_blocks recent_blocks;
         current_target = target_from_bits current_bits;
         retarget_multiplier_bps = consensus_retarget_multiplier_bps avg_block_interval_secs;
         target_multiplier_bps =
           consensus_target_multiplier_bps_from_work_multiplier retarget_multiplier_bps;
         (expected_bits, expected_target, target_was_clamped_to_pow_limit) =
           consensus_adjust_target_for_interval current_bits avg_block_interval_secs;
         raw_multiplier_bps =
           (case checked_div (saturating_mul (pol_target_block_interval_secs policy) BPS_DENOMINATOR)
              (max avg_block_interval_secs 1) of None \<Rightarrow> BPS_DENOMINATOR | Some v \<Rightarrow> v);
         retarget_signal_quality = (if observed_intervals < 2 then ''low'' else ''normal'');
         retarget_rationale =
           (if observed_intervals < 2 then ''insufficient_signal''
            else if retarget_multiplier_bps = BPS_DENOMINATOR then ''within_deadband''
            else if retarget_multiplier_bps = CONSENSUS_RETARGET_MIN_BPS then ''clamped_to_min''
            else if retarget_multiplier_bps = CONSENSUS_RETARGET_MAX_BPS then ''clamped_to_max''
            else if raw_multiplier_bps > BPS_DENOMINATOR then ''damped_increase''
            else ''damped_decrease'');
         retarget_was_clamped =
           (retarget_multiplier_bps = CONSENSUS_RETARGET_MIN_BPS
            \<or> retarget_multiplier_bps = CONSENSUS_RETARGET_MAX_BPS)
     in \<lparr>sn_best_height = dag_best_height (cs_dag state),
         sn_next_height = saturating_add (dag_best_height (cs_dag state)) 1,
         sn_expected_difficulty = expected_bits,
         sn_expected_bits = expected_bits,
         sn_current_bits = current_bits,
         sn_expected_target_u64 = pow_target_u64 (ucast expected_bits),
         sn_expected_target_hex = hex_encode C expected_target,
         sn_current_target_hex = hex_encode C current_target,
         sn_pow_limit_bits = CONSENSUS_POW_LIMIT_BITS,
         sn_pow_limit_target_hex = hex_encode C consensus_pow_limit_target,
         sn_target_block_interval_secs = CONSENSUS_TARGET_BLOCK_INTERVAL_SECS,
         sn_observed_block_count = observed_block_count,
         sn_avg_block_interval_secs = avg_block_interval_secs,
         sn_retarget_multiplier_bps = retarget_multiplier_bps,
         sn_target_multiplier_bps = target_multiplier_bps,
         sn_retarget_min_bps = CONSENSUS_RETARGET_MIN_BPS,
         sn_retarget_max_bps = CONSENSUS_RETARGET_MAX_BPS,
         sn_retarget_was_clamped = retarget_was_clamped,
         sn_target_was_clamped_to_pow_limit = target_was_clamped_to_pow_limit,
         sn_retarget_rationale = retarget_rationale,
         sn_retarget_signal_quality = retarget_signal_quality,
         sn_policy = policy\<rparr>)"

definition expected_difficulty :: "crypto \<Rightarrow> ChainState \<Rightarrow> u32" where
  "expected_difficulty C state = sn_expected_bits (consensus_difficulty_snapshot C state)"

definition expected_target_u64 :: "crypto \<Rightarrow> ChainState \<Rightarrow> u64" where
  "expected_target_u64 C state = sn_expected_target_u64 (consensus_difficulty_snapshot C state)"

subsection \<open>Nanosecond windows\<close>

definition PRODUCTION_CADENCE_TARGET_INTERVAL_NS_V3 :: u64 where
  "PRODUCTION_CADENCE_TARGET_INTERVAL_NS_V3 = 500000000"
definition PRODUCTION_V3_RETARGET_WINDOW :: nat where "PRODUCTION_V3_RETARGET_WINDOW = 20"
definition PRODUCTION_V3_MAX_FUTURE_DRIFT_NS :: u64 where
  "PRODUCTION_V3_MAX_FUTURE_DRIFT_NS = PRODUCTION_CADENCE_TARGET_INTERVAL_NS_V3 * 2"
definition BASIS_POINTS :: u64 where "BASIS_POINTS = 10000"
definition DEADBAND_BPS :: u64 where "DEADBAND_BPS = 800"
definition MIN_WORK_MULTIPLIER_BPS :: u64 where "MIN_WORK_MULTIPLIER_BPS = 8000"
definition MAX_WORK_MULTIPLIER_BPS :: u64 where "MAX_WORK_MULTIPLIER_BPS = 12500"
definition DAMPING_DIVISOR :: int where "DAMPING_DIVISOR = 2"

record V3RetargetSample =
  sm_timestamp_ns :: u64
  sm_bits :: u32

record V3RetargetDecision =
  de_expected_bits :: u32
  de_observed_intervals :: nat
  de_average_interval_ns :: u64
  de_work_multiplier_bps :: u64

datatype V3SubsecondConsensusError =
    EmptyWindow
  | WindowTooLarge
  | ZeroTimestamp
  | NonMonotonicWindow
  | StaleCandidateTimestamp
  | TimestampOverflow
  | FutureTimestamp

definition retarget_work_multiplier_bps :: "u64 \<Rightarrow> u64" where
  "retarget_work_multiplier_bps average_interval_ns =
    (let raw = (ucast PRODUCTION_CADENCE_TARGET_INTERVAL_NS_V3 * ucast BASIS_POINTS :: u128)
           div ucast (max average_interval_ns 1);
         lower = ucast (BASIS_POINTS - DEADBAND_BPS);
         upper = ucast (BASIS_POINTS + DEADBAND_BPS)
     in if lower \<le> raw \<and> raw \<le> upper then BASIS_POINTS
        else
          let damped = int (unat BASIS_POINTS) + ((sint raw - int (unat BASIS_POINTS)) sdiv DAMPING_DIVISOR)
          in max MIN_WORK_MULTIPLIER_BPS (min (word_of_int damped) MAX_WORK_MULTIPLIER_BPS))"

text \<open>
  Adding one to a big-endian byte string in place, last byte first; the flag is the carry out. The
  argument is the reversed string.
\<close>

fun increment_bytes :: "bytes \<Rightarrow> bytes \<times> bool" where
  "increment_bytes [] = ([], True)"
| "increment_bytes (byte # rest) =
    (let next = byte + 1
     in if next \<noteq> 0 then (next # rest, False)
        else let (rest', carry) = increment_bytes rest in (next # rest', carry))"

text \<open>The only caller passes the nonzero denominator \<open>BASIS_POINTS\<close>; a zero one would panic.\<close>

definition scale_target_ratio_ceil_v3 :: "PowTarget \<Rightarrow> u64 \<Rightarrow> u64 \<Rightarrow> PowTarget \<times> bool" where
  "scale_target_ratio_ceil_v3 target numerator denominator =
    (let (quotient, overflow) = scale_target_ratio target numerator denominator;
         modulus = (ucast denominator :: u128);
         target_remainder = fold (\<lambda>byte remainder. (remainder * 256 + ucast byte) mod modulus) target 0
     in if (target_remainder * ucast numerator) mod modulus \<noteq> 0 then
          let (quotient', carry) = increment_bytes (rev quotient)
          in (rev quotient', if carry then True else overflow)
        else (quotient, overflow))"

fun total_interval_ns :: "u128 \<Rightarrow> V3RetargetSample list \<Rightarrow> V3SubsecondConsensusError + u128" where
  "total_interval_ns acc (newer # older # rest) =
    (case checked_sub (sm_timestamp_ns newer) (sm_timestamp_ns older) of
       None \<Rightarrow> Inl NonMonotonicWindow
     | Some delta_ns \<Rightarrow>
         if delta_ns > 0 then total_interval_ns (acc + ucast delta_ns) (older # rest)
         else Inl NonMonotonicWindow)"
| "total_interval_ns acc _ = Inr acc"

definition expected_difficulty_for_v3_window_ns ::
  "V3RetargetSample list \<Rightarrow> V3SubsecondConsensusError + V3RetargetDecision" where
  "expected_difficulty_for_v3_window_ns newest_first =
    (if newest_first = [] then Inl EmptyWindow
     else if length newest_first > PRODUCTION_V3_RETARGET_WINDOW then Inl WindowTooLarge
     else if list_ex (\<lambda>sample. sm_timestamp_ns sample = 0) newest_first then Inl ZeroTimestamp
     else
       rbind (total_interval_ns 0 newest_first) (\<lambda>acc.
       let intervals = length newest_first - 1;
           average_interval_ns =
             (if intervals = 0 then PRODUCTION_CADENCE_TARGET_INTERVAL_NS_V3
              else ucast (acc div of_nat intervals));
           work_multiplier_bps = retarget_work_multiplier_bps average_interval_ns;
           current_target = target_from_bits (sm_bits (hd newest_first));
           pow_limit = consensus_pow_limit_target;
           min_target = consensus_min_target;
           bounded_current = max min_target (min current_target pow_limit);
           target_multiplier_bps =
             consensus_target_multiplier_bps_from_work_multiplier work_multiplier_bps;
           (scaled, overflow) =
             (if target_multiplier_bps > BASIS_POINTS
              then scale_target_ratio_ceil_v3 bounded_current target_multiplier_bps BASIS_POINTS
              else scale_target_ratio bounded_current target_multiplier_bps BASIS_POINTS);
           bounded_target =
             (if overflow \<or> scaled > pow_limit then pow_limit
              else if scaled < min_target then min_target
              else scaled)
       in Inr \<lparr>de_expected_bits = bits_from_target bounded_target,
            de_observed_intervals = intervals,
            de_average_interval_ns = average_interval_ns,
            de_work_multiplier_bps = work_multiplier_bps\<rparr>))"

definition validate_candidate_timestamp_v3_ns ::
  "u64 \<Rightarrow> u64 \<Rightarrow> u64 \<Rightarrow> V3SubsecondConsensusError + unit" where
  "validate_candidate_timestamp_v3_ns timestamp_ns newest_parent_timestamp_ns now_ns =
    (if timestamp_ns = 0 \<or> newest_parent_timestamp_ns = 0 \<or> now_ns = 0 then Inl ZeroTimestamp
     else if timestamp_ns \<le> newest_parent_timestamp_ns then Inl StaleCandidateTimestamp
     else
       rbind (ok_or TimestampOverflow (checked_add now_ns PRODUCTION_V3_MAX_FUTURE_DRIFT_NS)) (\<lambda>upper.
       if timestamp_ns > upper then Inl FutureTimestamp else Inr ()))"

section \<open>Exact scaling\<close>

fun limbs_value :: "u64 list \<Rightarrow> nat" where
  "limbs_value [] = 0"
| "limbs_value (l # ls) = unat l * 2 ^ (64 * length ls) + limbs_value ls"

lemma limbs_value_bound: "limbs_value ls < 2 ^ (64 * length ls)"
proof (induction ls)
  case (Cons l ls)
  define P :: nat where "P = 2 ^ (64 * length ls)"
  have "unat l * P + limbs_value ls < (unat l + 1) * P" using Cons by (simp add: P_def)
  also have "\<dots> \<le> 18446744073709551616 * P"
    using unat_u64_bound [of l] by (intro mult_le_mono1) simp
  finally show ?case by (simp add: P_def power_add)
qed simp

lemma length_mul_limbs [simp]: "length (snd (mul_limbs n ls)) = length ls"
  by (induction ls) (auto simp: Let_def split: prod.splits)

lemma unat_ucast_u64_u128: "unat (ucast (x :: u64) :: u128) = unat x"
  by (simp add: unat_ucast_up)

lemma unat_ucast_u128_u64: "unat (ucast (x :: u128) :: u64) = unat x mod 2 ^ 64"
  by (simp add: unsigned_ucast_eq take_bit_eq_mod)

lemma mul_limbs_value:
  "unat (fst (mul_limbs n ls)) * 2 ^ (64 * length ls) + limbs_value (snd (mul_limbs n ls))
    = limbs_value ls * unat n \<and> unat (fst (mul_limbs n ls)) < 2 ^ 64"
proof (induction ls)
  case (Cons l ls)
  define P :: nat where "P = 2 ^ (64 * length ls)"
  obtain c p where cp: "mul_limbs n ls = (c, p)" by fastforce
  define v where "v = saturating_add (saturating_mul (ucast l) (ucast n)) c"
  have ih: "unat c * P + limbs_value p = limbs_value ls * unat n" "unat c < 18446744073709551616"
    using Cons by (simp_all add: cp P_def)
  have le: "unat l * unat n \<le> 18446744073709551615 * 18446744073709551615"
    using unat_u64_bound [of l] unat_u64_bound [of n] by (intro mult_le_mono) simp_all
  then have v: "unat v = unat l * unat n + unat c"
    using ih(2) by (simp add: v_def unat_saturating_add unat_saturating_mul unat_ucast_u64_u128)
  have vb: "unat v < 2 ^ 128" using unat_lt_len [of v] by simp
  have len: "length p = length ls" using length_mul_limbs [of n ls] by (simp add: cp)
  have "unat v = unat v div 2 ^ 64 * 2 ^ 64 + unat v mod 2 ^ 64" by simp
  then have "unat v div 2 ^ 64 * (2 ^ 64 * P) + (unat v mod 2 ^ 64) * P + limbs_value p
      = unat v * P + limbs_value p"
    by (metis (no_types, opaque_lifting) add_mult_distrib mult.assoc)
  also have "\<dots> = unat l * unat n * P + (unat c * P + limbs_value p)"
    by (simp add: v algebra_simps)
  also have "\<dots> = (unat l * P + limbs_value ls) * unat n"
    unfolding ih(1) by (simp add: algebra_simps)
  finally have main: "unat v div 2 ^ 64 * (2 ^ 64 * P) + ((unat v mod 2 ^ 64) * P + limbs_value p)
      = (unat l * P + limbs_value ls) * unat n" by simp
  have eq: "mul_limbs n (l # ls) = (drop_bit 64 v, ucast v # p)"
    by (simp add: cp v_def Let_def)
  have "unat v div 2 ^ 64 < 2 ^ 64" using vb by (simp add: less_mult_imp_div_less)
  with main show ?case
    unfolding eq by (simp add: unat_drop_bit_div unat_ucast_u128_u64 len P_def power_add)
qed simp

lemma length_div_limbs [simp]: "length (div_limbs d r ls) = length ls"
  by (induction ls arbitrary: r) (auto simp: Let_def)

lemma shift_or:
  assumes "unat r < 2 ^ 64"
  shows "unat (push_bit 64 r OR ucast (l :: u64) :: u128) = unat r * 2 ^ 64 + unat l"
proof -
  have z: "push_bit 64 r AND ucast l = (0 :: u128)"
  proof (rule bit_word_eqI)
    fix n assume "n < LENGTH(128)"
    show "bit (push_bit 64 r AND (ucast l :: u128)) n \<longleftrightarrow> bit (0 :: u128) n"
      using bit_imp_le_length [of l n] by (auto simp: bit_simps)
  qed
  then have "push_bit 64 r OR ucast l = push_bit 64 r + (ucast l :: u128)"
    by (rule disjunctive_add_eq_or [symmetric])
  moreover have "unat (push_bit 64 r :: u128) = unat r * 2 ^ 64"
    using assms by (simp add: push_bit_eq_mult unat_mul_small)
  moreover have "unat r * 2 ^ 64 + unat l < 2 ^ 128"
  proof -
    have "unat r * 2 ^ 64 + unat l < (unat r + 1) * 2 ^ 64" using unat_u64_bound [of l] by simp
    also have "\<dots> \<le> 2 ^ 64 * 2 ^ 64" using assms by (intro mult_le_mono1) simp
    finally show ?thesis by simp
  qed
  ultimately show ?thesis
    by (simp add: unat_add_small unat_ucast_u64_u128)
qed

lemma div_limbs_value:
  assumes "0 < unat d" "unat d < 2 ^ 64" "unat r < unat d"
  shows "limbs_value (div_limbs d r ls) = (unat r * 2 ^ (64 * length ls) + limbs_value ls) div unat d"
  using assms(3)
proof (induction ls arbitrary: r)
  case (Cons l ls)
  define P :: nat where "P = 2 ^ (64 * length ls)"
  define D where "D = unat r * 2 ^ 64 + unat l"
  define w where "w = (push_bit 64 r OR ucast l :: u128)"
  have w: "unat w = D" using shift_or [of r l] Cons.prems assms(2) by (simp add: w_def D_def)
  have "D < (unat r + 1) * 2 ^ 64" using unat_u64_bound [of l] by (simp add: D_def)
  also have "\<dots> \<le> unat d * 2 ^ 64" using Cons.prems by (intro mult_le_mono1) simp
  finally have q: "D div unat d < 2 ^ 64" by (simp add: less_mult_imp_div_less mult.commute)
  have r': "unat (w mod d) < unat d" using assms(1) by (simp add: unat_mod)
  have "limbs_value (div_limbs d r (l # ls)) = D div unat d * P + limbs_value (div_limbs d (w mod d) ls)"
    using q by (simp add: w_def [symmetric] Let_def unat_ucast_u128_u64 unat_div w P_def)
  also have "\<dots> = D div unat d * P + ((D mod unat d) * P + limbs_value ls) div unat d"
    using Cons.IH [OF r'] by (simp add: unat_mod w P_def)
  also have "\<dots> = (D div unat d * P * unat d + ((D mod unat d) * P + limbs_value ls)) div unat d"
    using assms(1) by simp
  also have "D div unat d * P * unat d + ((D mod unat d) * P + limbs_value ls)
      = (D div unat d * unat d + D mod unat d) * P + limbs_value ls"
    by (simp only: add_mult_distrib mult.assoc mult.commute [of P] add.assoc)
  also have "\<dots> = D * P + limbs_value ls" by simp
  also have "D * P = unat r * 2 ^ (64 * length (l # ls)) + unat l * P"
    by (simp add: D_def P_def add_mult_distrib power_add)
  finally show ?case by (simp add: P_def add.assoc)
qed simp

lemma be_value_limbs_to_target: "be_value (limbs_to_target ls) = limbs_value ls"
proof (induction ls)
  case (Cons l ls)
  have "length (limbs_to_target ls) = 8 * length ls"
    by (induction ls) (simp_all add: limbs_to_target_def)
  then show ?case
    using Cons by (simp add: limbs_to_target_def be_value_append be_value_to_be_bytes power_mult)
qed (simp add: limbs_to_target_def)

lemma length_limbs_to_target: "length (limbs_to_target ls) = 8 * length ls"
  by (induction ls) (simp_all add: limbs_to_target_def)

lemma unat_from_be_bytes:
  assumes "length bs = 8"
  shows "unat (from_be_bytes bs :: u64) = be_value bs"
  using be_value_bound [of bs] assms
  by (simp add: from_be_bytes_def unat_word_of_nat_small)

lemma limbs_value_target:
  assumes "length t = 32"
  shows "limbs_value (target_to_limbs t) = be_value t"
proof -
  have e: "drop k t = take 8 (drop k t) @ drop (k + 8) t" for k
    by (metis append_take_drop_id drop_drop add.commute)
  have v: "be_value (drop k t) = be_value (take 8 (drop k t)) * 256 ^ (24 - k) + be_value (drop (k + 8) t)"
    if "k \<le> 24" for k
    by (subst e [of k], subst be_value_append) (use assms that in simp)
  have u: "[0..<4] = [0, 1, 2, 3 :: nat]" by (simp add: upt_conv_Cons)
  define f where "f k = be_value (take 8 (drop k t))" for k
  have "be_value (drop 0 t) = f 0 * 256 ^ 24 + (f 8 * 256 ^ 16 + (f 16 * 256 ^ 8 + (f 24 * 256 ^ 0 + 0)))"
    using v [of 0] v [of 8] v [of 16] v [of 24] assms unfolding f_def [symmetric] by simp
  moreover have l: "unat (from_be_bytes (take 8 (drop k t)) :: u64) = f k" if "k \<le> 24" for k
    unfolding f_def by (rule unat_from_be_bytes) (use assms that in simp)
  have "target_to_limbs t = [from_be_bytes (take 8 (drop 0 t)), from_be_bytes (take 8 (drop 8 t)),
      from_be_bytes (take 8 (drop 16 t)), from_be_bytes (take 8 (drop 24 t))]"
    unfolding target_to_limbs_def u by simp
  then have "limbs_value (target_to_limbs t)
      = f 0 * 2 ^ (64 * 3) + (f 8 * 2 ^ (64 * 2) + (f 16 * 2 ^ (64 * 1) + (f 24 * 2 ^ (64 * 0) + 0)))"
    using l [of 0] l [of 8] l [of 16] l [of 24] by simp
  moreover have "(256 :: nat) ^ 24 = 2 ^ (64 * 3)" "(256 :: nat) ^ 16 = 2 ^ (64 * 2)" "(256 :: nat) ^ 8 = 2 ^ (64 * 1)"
    by simp_all
  ultimately show ?thesis by (simp only: drop_0 mult_0_right power_0)
qed

lemma unat_max_1: "unat (max (w :: u64) 1) = max (unat w) 1"
  by (simp add: max_def word_le_nat_alt)

lemma scale_target_ratio_value:
  assumes "length t = 32" and s: "scale_target_ratio t n d = (s, ovf)"
  shows "length s = 32"
    and "be_value s = (be_value t * unat n div unat (max d 1)) mod 2 ^ 256"
    and "ovf \<longleftrightarrow> 2 ^ 256 \<le> be_value t * unat n div unat (max d 1)"
proof -
  define D where "D = unat (max d 1)"
  define V where "V = be_value t * unat n div D"
  obtain c p where cp: "mul_limbs n (target_to_limbs t) = (c, p)" by fastforce
  have D: "0 < D" by (simp add: D_def unat_max_1)
  have len: "length (target_to_limbs t) = 4" "length p = 4"
    using length_mul_limbs [of n "target_to_limbs t"] unfolding cp by (simp_all add: target_to_limbs_def)
  have m: "unat c * 2 ^ 256 + limbs_value p = be_value t * unat n" "unat c < 2 ^ 64"
    using mul_limbs_value [of n "target_to_limbs t"] limbs_value_target [OF assms(1)]
    by (simp_all add: cp len)
  define q where "q = div_limbs (ucast (max d 1)) 0 (ucast c # p)"
  have dd: "unat (ucast (max d 1) :: u128) = D" by (simp add: unat_ucast_u64_u128 D_def)
  have "limbs_value q = limbs_value (ucast c # p) div D"
    unfolding q_def using div_limbs_value [of "ucast (max d 1)" 0 "ucast c # p"] D
      unat_u64_bound [of "max d 1"] by (simp only: dd) (simp add: D_def)
  also have "limbs_value (ucast c # p) = be_value t * unat n"
    using m by (simp add: len unat_ucast_u128_u64)
  finally have qv: "limbs_value q = V" by (simp add: V_def)
  have "length q = 5" unfolding q_def by (simp only: length_div_limbs) (simp add: len)
  then obtain h r where q: "q = h # r" "length r = 4" by (cases q) auto
  have hr: "unat h * 2 ^ 256 + limbs_value r = V" using qv q by simp
  have rb: "limbs_value r < 2 ^ 256" using limbs_value_bound [of r] q(2) by simp
  have out: "s = limbs_to_target r" "ovf \<longleftrightarrow> h \<noteq> 0"
    using s unfolding scale_target_ratio_def cp Let_def prod.case q_def [symmetric] q(1) by auto
  show "length s = 32" by (simp add: out(1) length_limbs_to_target q(2))
  have "limbs_value r = V mod 2 ^ 256" unfolding hr [symmetric] using rb by simp
  then show "be_value s = (be_value t * unat n div unat (max d 1)) mod 2 ^ 256"
    by (simp add: out(1) be_value_limbs_to_target V_def D_def)
  have "V div 2 ^ 256 = unat h" unfolding hr [symmetric] using rb by simp
  then have "2 ^ 256 \<le> V \<longleftrightarrow> h \<noteq> 0"
    using div_greater_zero_iff [of V "2 ^ 256"] by (simp add: unat_gt_0)
  then show "ovf \<longleftrightarrow> 2 ^ 256 \<le> be_value t * unat n div unat (max d 1)"
    by (simp add: out(2) V_def D_def)
qed

section \<open>Multipliers\<close>

text \<open>The damped and clamped work multiplier as a function of the raw ratio in basis points.\<close>

definition work_multiplier :: "nat \<Rightarrow> nat" where
  "work_multiplier raw =
    (if 9200 \<le> raw \<and> raw \<le> 10800 then 10000
     else if 10800 < raw then min 12500 (10000 + (raw - 10000) div 2)
     else max 8000 (10000 - (10000 - raw) div 2))"

lemma sint_small: "unat (w :: 'a::len word) < 2 ^ (LENGTH('a) - 1) \<Longrightarrow> sint w = int (unat w)"
proof -
  assume "unat w < 2 ^ (LENGTH('a) - 1)"
  then have "int (unat w) < int (2 ^ (LENGTH('a) - 1))" by (simp only: of_nat_less_iff)
  then have "signed_take_bit (LENGTH('a) - 1) (int (unat w)) = int (unat w)"
    by (intro signed_take_bit_int_eq_self) (simp_all only: of_nat_power of_nat_numeral, linarith?)
  then show ?thesis unfolding sint_uint [of w] uint_nat by simp
qed

lemma unat_clamp:
  "unat (max (a :: u64) (min w b)) = max (unat a) (min (unat w) (unat b))"
  by (simp add: max_def min_def word_le_nat_alt)

lemma damped_eq:
  assumes "raw < 2 ^ 60"
  shows "unat (word_of_int (10000 + ((int raw - 10000) sdiv 2)) :: u64)
    = (if 10000 \<le> raw then 10000 + (raw - 10000) div 2 else 10000 - (10000 - raw) div 2)"
proof (cases "10000 \<le> raw")
  case True
  define k where "k = (raw - 10000) div 2"
  have "(int raw - 10000) sdiv 2 = int k"
    using True by (simp add: signed_divide_int_def k_def zdiv_int of_nat_diff sgn_if)
  moreover have "unat (word_of_int (int (10000 + k)) :: u64) = 10000 + k"
    using assms by (simp only: of_int_of_nat_eq) (intro unat_word_of_nat_small, simp add: k_def)
  ultimately show ?thesis using True by (simp add: k_def)
next
  case False
  define k where "k = (10000 - raw) div 2"
  have "(int raw - 10000) sdiv 2 = - int k"
    using False by (simp add: signed_divide_int_def k_def zdiv_int of_nat_diff sgn_if)
  moreover have "k \<le> 5000" by (simp add: k_def)
  moreover have "unat (word_of_int (int (10000 - k)) :: u64) = 10000 - k"
    by (simp only: of_int_of_nat_eq) (intro unat_word_of_nat_small, simp)
  ultimately show ?thesis using False by (simp add: k_def [symmetric] of_nat_diff)
qed

lemma clamp_multiplier:
  assumes "unat (w :: u64) = (if 10000 \<le> r then 10000 + (r - 10000) div 2 else 10000 - (10000 - r) div 2)"
  shows "(if 9200 \<le> r \<and> r \<le> 10800 then 10000 else max 8000 (min (unat w) 12500)) = work_multiplier r"
proof -
  consider "r < 9200" | "9200 \<le> r \<and> r \<le> 10800" | "10800 < r" by linarith
  then show ?thesis
    by cases (simp_all add: work_multiplier_def assms min.commute)
qed

lemma consensus_multiplier_eq:
  "unat (consensus_retarget_multiplier_bps avg) = (if avg = 0 then 10000 else work_multiplier (600000 div unat avg))"
proof (cases "avg = 0")
  case False
  then have a: "unat (max avg 1) = unat avg" "0 < unat avg"
    using unat_gt_0 [of avg] by (simp_all add: unat_max_1 del: unat_gt_0)
  define raw where "raw = saturating_mul CONSENSUS_TARGET_BLOCK_INTERVAL_SECS BPS_DENOMINATOR div max avg 1"
  define r where "r = 600000 div unat avg"
  have raw: "unat raw = r"
    by (simp add: raw_def r_def unat_div unat_saturating_mul a CONSENSUS_TARGET_BLOCK_INTERVAL_SECS_def
        BPS_DENOMINATOR_def)
  have r: "r \<le> 600000" by (simp add: r_def)
  have si: "sint raw = int r" using sint_small [of raw] raw r by simp
  have c: "unat (saturating_sub BPS_DENOMINATOR CONSENSUS_RETARGET_DEADBAND_BPS) = 9200"
    "unat (saturating_add BPS_DENOMINATOR CONSENSUS_RETARGET_DEADBAND_BPS) = 10800"
    "sint BPS_DENOMINATOR = 10000" "sint CONSENSUS_RETARGET_DAMPING_DIVISOR = 2"
    by (simp_all add: unat_saturating_sub unat_saturating_add BPS_DENOMINATOR_def
        CONSENSUS_RETARGET_DEADBAND_BPS_def CONSENSUS_RETARGET_DAMPING_DIVISOR_def)
  define W :: u64 where "W = word_of_int (10000 + ((int r - 10000) sdiv 2))"
  have W: "unat W = (if 10000 \<le> r then 10000 + (r - 10000) div 2 else 10000 - (10000 - r) div 2)"
    unfolding W_def by (rule damped_eq) (use r in simp)
  have "unat (consensus_retarget_multiplier_bps avg)
      = (if 9200 \<le> r \<and> r \<le> 10800 then 10000 else max 8000 (min (unat W) 12500))"
    using False unfolding consensus_retarget_multiplier_bps_def raw_def [symmetric] Let_def c(3,4) si
      W_def [symmetric] word_le_nat_alt raw c(1,2)
    by (simp add: unat_clamp BPS_DENOMINATOR_def CONSENSUS_RETARGET_MIN_BPS_def CONSENSUS_RETARGET_MAX_BPS_def)
  with clamp_multiplier [OF W] False show ?thesis by (simp add: r_def)
qed (simp add: consensus_retarget_multiplier_bps_def BPS_DENOMINATOR_def)

lemma v3_multiplier_eq:
  "unat (retarget_work_multiplier_bps avg) = work_multiplier (5000000000000 div max (unat avg) 1)"
proof -
  define raw :: u128 where "raw = (ucast PRODUCTION_CADENCE_TARGET_INTERVAL_NS_V3 * ucast BASIS_POINTS)
    div ucast (max avg 1)"
  define r where "r = 5000000000000 div max (unat avg) 1"
  have raw: "unat raw = r"
    by (simp add: raw_def r_def unat_div unat_ucast_u64_u128 unat_max_1
        PRODUCTION_CADENCE_TARGET_INTERVAL_NS_V3_def BASIS_POINTS_def)
  have r: "r \<le> 5000000000000" by (simp add: r_def)
  have si: "sint raw = int r" using sint_small [of raw] raw r by simp
  have c: "unat (ucast (BASIS_POINTS - DEADBAND_BPS) :: u128) = 9200"
    "unat (ucast (BASIS_POINTS + DEADBAND_BPS) :: u128) = 10800" "int (unat BASIS_POINTS) = 10000"
    by (simp_all add: BASIS_POINTS_def DEADBAND_BPS_def)
  define W :: u64 where "W = word_of_int (10000 + ((int r - 10000) sdiv 2))"
  have W: "unat W = (if 10000 \<le> r then 10000 + (r - 10000) div 2 else 10000 - (10000 - r) div 2)"
    unfolding W_def by (rule damped_eq) (use r in simp)
  have "unat (retarget_work_multiplier_bps avg)
      = (if 9200 \<le> r \<and> r \<le> 10800 then 10000 else max 8000 (min (unat W) 12500))"
    unfolding retarget_work_multiplier_bps_def raw_def [symmetric] Let_def si c(3) DAMPING_DIVISOR_def
      W_def [symmetric] word_le_nat_alt raw c(1,2)
    by (simp add: unat_clamp BASIS_POINTS_def MIN_WORK_MULTIPLIER_BPS_def MAX_WORK_MULTIPLIER_BPS_def)
  with clamp_multiplier [OF W] show ?thesis by (simp add: r_def)
qed

lemma work_multiplier_bounds: "8000 \<le> work_multiplier r" "work_multiplier r \<le> 12500"
  by (auto simp: work_multiplier_def)

lemma work_multiplier_mono: "r \<le> r' \<Longrightarrow> work_multiplier r \<le> work_multiplier r'"
proof -
  assume le: "r \<le> r'"
  define a a' b b' where "a = (r - 10000) div 2" and "a' = (r' - 10000) div 2"
    and "b = (10000 - r) div 2" and "b' = (10000 - r') div 2"
  have ab: "a \<le> a'" "b' \<le> b" unfolding a_def a'_def b_def b'_def using le by (simp_all add: div_le_mono)
  consider "r' < 9200" | "9200 \<le> r' \<and> r' \<le> 10800" | "10800 < r'" by linarith
  then show "work_multiplier r \<le> work_multiplier r'"
    unfolding work_multiplier_def a_def [symmetric] a'_def [symmetric] b_def [symmetric] b'_def [symmetric]
    using le ab by cases auto
qed

lemma work_multiplier_slow: "work_multiplier r < 10000 \<Longrightarrow> work_multiplier r \<le> 9600"
proof -
  assume lt: "work_multiplier r < 10000"
  consider "r < 9200" | "9200 \<le> r \<and> r \<le> 10800" | "10800 < r" by linarith
  then show ?thesis
  proof cases
    case 1
    then have "801 div 2 \<le> (10000 - r) div 2" by (intro div_le_mono) simp
    with 1 show ?thesis by (simp add: work_multiplier_def)
  qed (use lt in \<open>simp_all add: work_multiplier_def\<close>)
qed

lemma target_multiplier_eq:
  assumes "unat w \<le> 12500" "8000 \<le> unat w"
  shows "unat (consensus_target_multiplier_bps_from_work_multiplier w) = (100000000 + unat w div 2) div unat w"
proof -
  have m: "max w 1 = w" using assms by (simp add: max_def word_le_nat_alt)
  have "w \<noteq> 0" using assms by auto
  moreover have "unat (saturating_add BPS_RECIPROCAL_NUMERATOR (w div 2)) = 100000000 + unat w div 2"
    using assms by (simp add: unat_saturating_add BPS_RECIPROCAL_NUMERATOR_def BPS_DENOMINATOR_def unat_div)
  ultimately show ?thesis
    by (simp add: consensus_target_multiplier_bps_from_work_multiplier_def m checked_div_def unat_div)
qed

lemma target_multiplier_bounds:
  assumes "8000 \<le> unat w" "unat w \<le> 12500"
  shows "8000 \<le> unat (consensus_target_multiplier_bps_from_work_multiplier w)"
    and "unat (consensus_target_multiplier_bps_from_work_multiplier w) \<le> 12500"
    and "unat w = 10000 \<Longrightarrow> unat (consensus_target_multiplier_bps_from_work_multiplier w) = 10000"
    and "unat w \<le> 9600 \<Longrightarrow> 10417 \<le> unat (consensus_target_multiplier_bps_from_work_multiplier w)"
proof -
  define k where "k = unat w"
  have k: "0 < k" "8000 \<le> k" "k \<le> 12500" using assms by (simp_all add: k_def)
  note e = target_multiplier_eq [OF assms(2,1), folded k_def]
  show "8000 \<le> unat (consensus_target_multiplier_bps_from_work_multiplier w)"
    unfolding e using k by (simp add: less_eq_div_iff_mult_less_eq)
  show "unat (consensus_target_multiplier_bps_from_work_multiplier w) \<le> 12500"
    unfolding e using k by (simp flip: less_Suc_eq_le add: div_less_iff_less_mult)
  show "unat w = 10000 \<Longrightarrow> unat (consensus_target_multiplier_bps_from_work_multiplier w) = 10000"
    unfolding e k_def by simp
  show "unat w \<le> 9600 \<Longrightarrow> 10417 \<le> unat (consensus_target_multiplier_bps_from_work_multiplier w)"
    unfolding e k_def [symmetric] using k by (simp add: less_eq_div_iff_mult_less_eq)
qed

section \<open>Bounds of the adjusted target\<close>

definition pow_limit_value :: nat where "pow_limit_value = 0x7fffff * 256 ^ 29"

lemma pow_limit_target: "consensus_pow_limit_target = [0x7f, 0xff, 0xff] @ replicate 29 0"
  by (simp add: consensus_pow_limit_target_def CONSENSUS_POW_LIMIT_BITS_def target_from_bits_def)

lemma min_target: "consensus_min_target = replicate 29 0 @ [0, 0, 1]"
  by (simp add: consensus_min_target_def CONSENSUS_MIN_TARGET_BITS_def target_from_bits_def)

lemma length_limits [simp]: "length consensus_pow_limit_target = 32" "length consensus_min_target = 32"
  by (simp_all add: pow_limit_target min_target)

lemma limit_values: "be_value consensus_pow_limit_target = pow_limit_value" "be_value consensus_min_target = 1"
  by (simp_all add: pow_limit_target min_target pow_limit_value_def be_value_append)

lemma pow_limit_small: "0 < pow_limit_value" "pow_limit_value * 12500 div 10000 < 2 ^ 256"
  by (simp_all add: pow_limit_value_def)

lemma consensus_pow_limit_target_canonical:
  "target_from_bits (bits_from_target consensus_pow_limit_target) = consensus_pow_limit_target"
proof -
  have "kept consensus_pow_limit_target = 3" "\<not> list_all (\<lambda>b. b = 0) consensus_pow_limit_target"
    by (simp_all add: kept_def lead_def pow_limit_target)
  then show ?thesis using decode_encode_truncates [of consensus_pow_limit_target]
    by (simp add: pow_limit_target)
qed

text \<open>Clamping a target between the two limits, by value.\<close>

definition clamp_value :: "nat \<Rightarrow> nat" where
  "clamp_value v = (if pow_limit_value < v then pow_limit_value else if v < 1 then 1 else v)"

lemma clamp_value_bounds: "1 \<le> clamp_value v" "clamp_value v \<le> pow_limit_value"
  using pow_limit_small(1) by (auto simp: clamp_value_def)

lemma clamp_target:
  assumes "length t = 32"
  defines "b \<equiv> (if t > consensus_pow_limit_target then consensus_pow_limit_target
    else if t < consensus_min_target then consensus_min_target else t)"
  shows "length b = 32" "be_value b = clamp_value (be_value t)"
  using assms(1) by (auto simp: b_def be_value_less_iff limit_values clamp_value_def)

lemma clamped_first_byte:
  assumes "length t = 32" "be_value t \<le> pow_limit_value"
  shows "t ! 0 \<le> 0x7f"
proof (rule ccontr)
  assume "\<not> t ! 0 \<le> 0x7f"
  then have "128 \<le> unat (t ! 0)" by (simp add: word_le_nat_alt)
  then have "128 * 256 ^ 31 \<le> unat (t ! 0) * 256 ^ 31" by simp
  also have "\<dots> \<le> be_value t" using assms(1) by (cases t) auto
  finally show False using assms(2) by (simp add: pow_limit_value_def)
qed

lemma clamped_canonical:
  assumes "length t = 32" "1 \<le> be_value t" "be_value t \<le> pow_limit_value"
  defines "c \<equiv> be_value (target_from_bits (bits_from_target t))"
  shows "c \<le> be_value t" "32767 * be_value t < 32768 * c"
proof -
  have p: "c \<le> be_value t" "(be_value t - c) * 2 ^ 15 < be_value t"
    using compact_precision [OF assms(1)] assms clamped_first_byte by simp_all
  then show "c \<le> be_value t" "32767 * be_value t < 32768 * c" by (simp_all add: diff_mult_distrib)
qed

text \<open>The exact target an adjustment encodes, by value.\<close>

definition legacy_target_multiplier :: "u64 \<Rightarrow> nat" where
  "legacy_target_multiplier avg =
    unat (consensus_target_multiplier_bps_from_work_multiplier (consensus_retarget_multiplier_bps avg))"

definition bounded_bits_value :: "u32 \<Rightarrow> nat" where
  "bounded_bits_value bits = clamp_value (be_value (target_from_bits bits))"

lemma work_multiplier_bounds_legacy:
  "8000 \<le> unat (consensus_retarget_multiplier_bps avg)" "unat (consensus_retarget_multiplier_bps avg) \<le> 12500"
  using work_multiplier_bounds by (simp_all add: consensus_multiplier_eq)

lemma legacy_multiplier_bounds:
  "8000 \<le> legacy_target_multiplier avg" "legacy_target_multiplier avg \<le> 12500"
  unfolding legacy_target_multiplier_def
  by (intro target_multiplier_bounds work_multiplier_bounds_legacy)+

lemma scale_bounded:
  assumes "length t = 32" "be_value t \<le> pow_limit_value" "unat n \<le> 12500" "unat d = 10000"
    and s: "scale_target_ratio t n d = (s, ovf)"
  shows "length s = 32" "be_value s = be_value t * unat n div 10000" "\<not> ovf"
proof -
  have d: "unat (max d 1) = 10000" using assms(4) by (simp add: unat_max_1)
  have "be_value t * unat n \<le> pow_limit_value * 12500" using assms(2,3) by (rule mult_le_mono)
  then have "be_value t * unat n div 10000 \<le> pow_limit_value * 12500 div 10000" by (rule div_le_mono)
  then have lt: "be_value t * unat n div 10000 < 2 ^ 256" using pow_limit_small(2) by (rule le_less_trans)
  note sv = scale_target_ratio_value [OF assms(1) s, unfolded d]
  show "length s = 32" by (rule sv(1))
  show "be_value s = be_value t * unat n div 10000" using sv(2) lt by simp
  show "\<not> ovf" using sv(3) lt by simp
qed

lemma adjust_value:
  obtains t where "length t = 32"
    and "be_value t = clamp_value (bounded_bits_value bits * legacy_target_multiplier avg div 10000)"
    and "fst (consensus_adjust_target_for_interval bits avg) = bits_from_target t"
    and "fst (snd (consensus_adjust_target_for_interval bits avg)) = target_from_bits (bits_from_target t)"
proof -
  define cur where "cur = (if target_from_bits bits > consensus_pow_limit_target then consensus_pow_limit_target
    else if target_from_bits bits < consensus_min_target then consensus_min_target else target_from_bits bits)"
  define tm where "tm = consensus_target_multiplier_bps_from_work_multiplier (consensus_retarget_multiplier_bps avg)"
  obtain s ovf where s: "scale_target_ratio cur tm BPS_DENOMINATOR = (s, ovf)" by fastforce
  have cur: "length cur = 32" "be_value cur = bounded_bits_value bits"
    unfolding cur_def bounded_bits_value_def by (intro clamp_target length_target_from_bits)+
  have tm: "unat tm \<le> 12500" "unat tm = legacy_target_multiplier avg"
    using legacy_multiplier_bounds(2) [of avg] by (simp_all add: tm_def legacy_target_multiplier_def)
  have "be_value cur \<le> pow_limit_value" "unat BPS_DENOMINATOR = 10000"
    by (simp_all add: cur(2) bounded_bits_value_def clamp_value_bounds BPS_DENOMINATOR_def)
  note sb = scale_bounded [OF cur(1) this(1) tm(1) this(2) s]
  define t where "t = (if s > consensus_pow_limit_target then consensus_pow_limit_target
    else if s < consensus_min_target then consensus_min_target else s)"
  have t: "length t = 32" "be_value t = clamp_value (be_value s)"
    unfolding t_def by (intro clamp_target sb(1))+
  have "consensus_adjust_target_for_interval bits avg
      = (bits_from_target t, target_from_bits (bits_from_target t),
         consensus_pow_limit_target < target_from_bits bits \<or> consensus_pow_limit_target < s)"
    unfolding consensus_adjust_target_for_interval_def Let_def cur_def [symmetric] tm_def [symmetric] s prod.case
    using sb(3) by (simp add: t_def)
  with t sb cur tm show thesis by (intro that [of t]) simp_all
qed

lemma adjusted_bounds:
  fixes c m :: nat
  assumes c: "1 \<le> c" "c \<le> pow_limit_value" and m: "8000 \<le> m" "m \<le> 12500"
  shows "4 * clamp_value (c * m div 10000) \<le> 5 * c" "8 * c div 10 \<le> clamp_value (c * m div 10000)"
proof -
  have "c * m div 10000 \<le> c * 12500 div 10000" using m by (intro div_le_mono mult_le_mono2)
  then have up: "4 * (c * m div 10000) \<le> 5 * c" by linarith
  have "c * 8000 div 10000 \<le> c * m div 10000" using m by (intro div_le_mono mult_le_mono2)
  then have lo: "8 * c div 10 \<le> c * m div 10000" by linarith
  have "8 * c div 10 \<le> c" by linarith
  with up lo c show "4 * clamp_value (c * m div 10000) \<le> 5 * c" "8 * c div 10 \<le> clamp_value (c * m div 10000)"
    by (auto simp: clamp_value_def)
qed

section \<open>Rounding up\<close>

lemma increment_bytes_value:
  "increment_bytes xs = (ys, carry) \<Longrightarrow>
    length ys = length xs \<and> be_value (rev ys) + (if carry then 256 ^ length xs else 0) = be_value (rev xs) + 1"
proof (induction xs arbitrary: ys carry)
  case (Cons b xs)
  show ?case
  proof (cases "b + 1 = 0")
    case False
    then have "unat (b + 1) = unat b + 1" by (simp add: unat_eq_zero unatSuc add.commute [of b])
    then show ?thesis using Cons.prems False by (auto simp: Let_def be_value_append)
  next
    case True
    then have b: "unat b = 255" 
      using unat_minus_one_word [where 'a = 8] by (simp add: add_eq_0_iff2)
    obtain zs c where z: "increment_bytes xs = (zs, c)" by fastforce
    from Cons.IH [OF z] Cons.prems True b z show ?thesis
      by (auto simp: Let_def be_value_append split: if_splits)
  qed
qed simp

lemma byte_remainder:
  fixes m :: u64
  assumes m: "0 < unat m" and r: "unat r < unat m"
  shows "unat (fold (\<lambda>byte r. (r * 256 + ucast byte) mod ucast m) (t :: bytes) (r :: u128))
    = (unat r * 256 ^ length t + be_value t) mod unat m"
  using r
proof (induction t arbitrary: r)
  case (Cons b t)
  define r' where "r' = (r * 256 + ucast b) mod (ucast m :: u128)"
  have b: "unat (ucast b :: u128) = unat b" "unat b < 256" using unat_u8_bound by (simp_all add: unat_ucast_up)
  have small: "unat r * 256 + unat b < 2 ^ 128"
    using Cons.prems unat_u64_bound [of m] b(2) by simp
  have "unat (r * 256 :: u128) = unat r * 256"
    using small by (subst unat_mul_small) simp_all
  then have "unat (r * 256 + ucast b :: u128) = unat r * 256 + unat b"
    using small b(1) by (subst unat_add_small) simp_all
  then have r': "unat r' = (unat r * 256 + unat b) mod unat m"
    by (simp add: r'_def unat_mod unat_ucast_u64_u128)
  have "unat r' < unat m" using m by (simp add: r')
  from Cons.IH [OF this] have "unat (fold (\<lambda>byte r. (r * 256 + ucast byte) mod ucast m) t r')
      = (unat r' * 256 ^ length t + be_value t) mod unat m" .
  also have "\<dots> = ((unat r * 256 + unat b) * 256 ^ length t + be_value t) mod unat m"
    unfolding r' by (metis mod_add_left_eq mod_mult_left_eq)
  finally show ?case by (simp add: r'_def algebra_simps)
qed simp

lemma ceil_bounded:
  assumes t: "length t = 32" "be_value t \<le> pow_limit_value" and n: "unat n \<le> 12500" and d: "unat d = 10000"
    and s: "scale_target_ratio_ceil_v3 t n d = (s, ovf)"
  shows "length s = 32" "be_value s = (be_value t * unat n + 9999) div 10000" "\<not> ovf"
proof -
  obtain q f where q: "scale_target_ratio t n d = (q, f)" by fastforce
  note sb = scale_bounded [OF t n d q]
  define V where "V = be_value t * unat n"
  define R :: u128 where "R = fold (\<lambda>byte r. (r * 256 + ucast byte) mod ucast d) t 0"
  have R: "unat R = be_value t mod 10000"
    using byte_remainder [of d 0 t] d by (simp add: R_def)
  then have "unat R < 10000" by simp
  then have "unat R * unat n < 2 ^ 128" using n
    by (intro le_less_trans [OF mult_le_mono [of "unat R" 10000 "unat n" 12500]]) simp_all
  then have "unat (R * ucast n) = unat R * unat n"
    by (subst unat_mul_small) (simp_all add: unat_ucast_u64_u128)
  then have "unat ((R * ucast n) mod ucast d) = (unat R * unat n) mod 10000"
    by (simp add: unat_mod unat_ucast_u64_u128 d)
  also have "\<dots> = V mod 10000" unfolding R V_def by (rule mod_mult_left_eq)
  finally have nz: "(R * ucast n) mod ucast d \<noteq> 0 \<longleftrightarrow> V mod 10000 \<noteq> 0"
    by (metis unat_eq_zero)
  obtain y cy where y: "increment_bytes (rev q) = (y, cy)" by fastforce
  have eq: "(s, ovf) = (if V mod 10000 \<noteq> 0 then (rev y, if cy then True else f) else (q, f))"
    using s unfolding scale_target_ratio_ceil_v3_def q Let_def prod.case R_def [symmetric] nz y by simp
  have inc: "length y = 32" "be_value (rev y) + (if cy then 256 ^ 32 else 0) = V div 10000 + 1"
    using increment_bytes_value [OF y] unfolding V_def sb(2) [symmetric] length_rev sb(1) rev_rev_ident
    by blast+
  have "V \<le> pow_limit_value * 12500" unfolding V_def by (intro mult_le_mono t n)
  then have "V div 10000 + 1 < 256 ^ 32"
    using div_le_mono [of V "pow_limit_value * 12500" 10000] by (simp add: pow_limit_value_def)
  with inc(2) have cy: "\<not> cy" by (auto split: if_splits)
  have ceil: "(V + 9999) div 10000 = (if V mod 10000 \<noteq> 0 then V div 10000 + 1 else V div 10000)"
  proof -
    define k r where "k = V div 10000" and "r = V mod 10000"
    have "V = k * 10000 + r" "r < 10000" by (simp_all add: k_def r_def)
    then have "(V + 9999) div 10000 = k + (r + 9999) div 10000" "r \<noteq> 0 \<Longrightarrow> (r + 9999) div 10000 = 1"
      by (simp_all add: div_nat_eqI add.assoc)
    then show ?thesis by (simp add: k_def [symmetric] r_def [symmetric])
  qed
  show "length s = 32" "be_value s = (be_value t * unat n + 9999) div 10000" "\<not> ovf"
    using eq inc sb cy unfolding V_def [symmetric] ceil by (auto simp: V_def split: if_splits)
qed

section \<open>Nanosecond windows\<close>

fun strictly_decreasing :: "nat list \<Rightarrow> bool" where
  "strictly_decreasing (x # y # r) \<longleftrightarrow> y < x \<and> strictly_decreasing (y # r)"
| "strictly_decreasing _ \<longleftrightarrow> True"

definition sample_times :: "V3RetargetSample list \<Rightarrow> nat list" where
  "sample_times ws = map (\<lambda>w. unat (sm_timestamp_ns w)) ws"

lemma strictly_decreasing_last_le: "strictly_decreasing xs \<Longrightarrow> xs \<noteq> [] \<Longrightarrow> last xs \<le> hd xs"
  by (induction xs rule: strictly_decreasing.induct) auto

lemma total_interval_exact:
  assumes "ws \<noteq> []" "unat acc + hd (sample_times ws) < 2 ^ 128"
  shows "total_interval_ns acc ws =
    (if strictly_decreasing (sample_times ws)
     then Inr (word_of_nat (unat acc + (hd (sample_times ws) - last (sample_times ws))))
     else Inl NonMonotonicWindow)"
  using assms
proof (induction acc ws rule: total_interval_ns.induct)
  case (1 acc x y r)
  show ?case
  proof (cases "unat (sm_timestamp_ns y) < unat (sm_timestamp_ns x)")
    case True
    define d where "d = sm_timestamp_ns x - sm_timestamp_ns y"
    have le: "sm_timestamp_ns y \<le> sm_timestamp_ns x" using True by (simp add: word_le_nat_alt)
    have d: "checked_sub (sm_timestamp_ns x) (sm_timestamp_ns y) = Some d"
      using le by (simp add: checked_sub_def d_def)
    have ud: "unat d = unat (sm_timestamp_ns x) - unat (sm_timestamp_ns y)"
      using le by (simp add: d_def unat_sub_le)
    then have pos: "d > 0" using True by (simp add: word_less_nat_alt)
    have acc: "unat (acc + ucast d) = unat acc + unat d"
      using "1.prems"(2) ud by (subst unat_add_small) (simp_all add: unat_ucast_u64_u128 sample_times_def)
    have "last (sample_times (y # r)) \<le> hd (sample_times (y # r))" if "strictly_decreasing (sample_times (y # r))"
      using strictly_decreasing_last_le [OF that] by (simp add: sample_times_def)
    moreover have "unat (acc + ucast d) + hd (sample_times (y # r)) < 2 ^ 128"
      using "1.prems"(2) True by (simp add: acc ud sample_times_def)
    ultimately show ?thesis
      using "1.IH" [OF d pos] True d pos by (auto simp: acc ud sample_times_def)
  next
    case False
    then have "checked_sub (sm_timestamp_ns x) (sm_timestamp_ns y) = None
        \<or> checked_sub (sm_timestamp_ns x) (sm_timestamp_ns y) = Some 0"
      by (auto simp: checked_sub_def word_le_nat_alt dest: word_eqI_unat)
    then show ?thesis using False by (auto simp: sample_times_def)
  qed
qed (auto simp: sample_times_def)

lemma clamp_order:
  "max consensus_min_target (min t consensus_pow_limit_target)
    = (if t > consensus_pow_limit_target then consensus_pow_limit_target
       else if t < consensus_min_target then consensus_min_target else t)"
proof -
  have "consensus_min_target \<le> consensus_pow_limit_target"
    using pow_limit_small(1) by (simp add: be_value_le_iff limit_values)
  then show ?thesis by (auto simp: max_def min_def)
qed

definition v3_window_ok :: "V3RetargetSample list \<Rightarrow> bool" where
  "v3_window_ok ws \<longleftrightarrow> ws \<noteq> [] \<and> length ws \<le> 20 \<and> 0 \<notin> set (sample_times ws)
    \<and> strictly_decreasing (sample_times ws)"

definition v3_average :: "V3RetargetSample list \<Rightarrow> nat" where
  "v3_average ws = (if length ws = 1 then 500000000
    else (hd (sample_times ws) - last (sample_times ws)) div (length ws - 1))"

definition v3_scaled :: "nat \<Rightarrow> nat \<Rightarrow> nat" where
  "v3_scaled c m = (if 10000 < m then (c * m + 9999) div 10000 else c * m div 10000)"

lemma sample_times_basic:
  "0 \<notin> set (sample_times ws) \<longleftrightarrow> \<not> list_ex (\<lambda>w. sm_timestamp_ns w = 0) ws"
  "ws \<noteq> [] \<Longrightarrow> hd (sample_times ws) < 2 ^ 64"
  using unat_u64_bound [of "sm_timestamp_ns (hd ws)"]
  by (auto simp: sample_times_def list_ex_iff hd_map image_iff simp flip: unat_eq_zero)

lemma total_interval_window:
  assumes "ws \<noteq> []"
  shows "total_interval_ns 0 ws =
    (if strictly_decreasing (sample_times ws)
     then Inr (word_of_nat (hd (sample_times ws) - last (sample_times ws)))
     else Inl NonMonotonicWindow)"
  using total_interval_exact [OF assms, of 0] sample_times_basic(2) [OF assms] by simp

lemma v3_window_rejects:
  "\<not> v3_window_ok ws \<Longrightarrow> \<exists>e. expected_difficulty_for_v3_window_ns ws = Inl e"
  by (auto simp: v3_window_ok_def sample_times_basic(1) expected_difficulty_for_v3_window_ns_def
      total_interval_window PRODUCTION_V3_RETARGET_WINDOW_def)

lemma v3_average_word:
  assumes "v3_window_ok ws"
  shows "unat (if length ws - 1 = 0 then PRODUCTION_CADENCE_TARGET_INTERVAL_NS_V3
      else ucast ((word_of_nat (hd (sample_times ws) - last (sample_times ws)) :: u128)
        div of_nat (length ws - 1))) = v3_average ws"
proof (cases "length ws = 1")
  case False
  define n where "n = length ws - 1"
  define D where "D = hd (sample_times ws) - last (sample_times ws)"
  have ws: "ws \<noteq> []" "length ws \<le> 20" using assms by (auto simp: v3_window_ok_def)
  then have n: "0 < n" "n < 20" using False by (cases ws; simp add: n_def)+
  have D: "D < 2 ^ 64" using sample_times_basic(2) [OF ws(1)] by (simp add: D_def)
  have "unat ((word_of_nat D :: u128) div of_nat n) = D div n"
    using D n by (simp add: unat_div unat_word_of_nat_small)
  moreover have "D div n < 2 ^ 64" using D div_le_dividend [of D n] by (rule le_less_trans [rotated])
  ultimately show ?thesis
    using False n unfolding v3_average_def n_def [symmetric] D_def [symmetric]
    by (simp add: unat_ucast_u128_u64)
qed (simp add: v3_average_def PRODUCTION_CADENCE_TARGET_INTERVAL_NS_V3_def)

lemma v3_window_value:
  assumes ok: "v3_window_ok ws"
  obtains d t where "expected_difficulty_for_v3_window_ns ws = Inr d"
    and "length t = 32" "de_expected_bits d = bits_from_target t"
    and "unat (de_average_interval_ns d) = v3_average ws"
    and "unat (de_work_multiplier_bps d) = work_multiplier (5000000000000 div max (v3_average ws) 1)"
    and "be_value t = clamp_value (v3_scaled (bounded_bits_value (sm_bits (hd ws)))
      (unat (consensus_target_multiplier_bps_from_work_multiplier (de_work_multiplier_bps d))))"
proof -
  define avg where "avg = (if length ws - 1 = 0 then PRODUCTION_CADENCE_TARGET_INTERVAL_NS_V3
    else ucast ((word_of_nat (hd (sample_times ws) - last (sample_times ws)) :: u128) div of_nat (length ws - 1)))"
  define w where "w = retarget_work_multiplier_bps avg"
  define tm where "tm = consensus_target_multiplier_bps_from_work_multiplier w"
  define cur where "cur = max consensus_min_target (min (target_from_bits (sm_bits (hd ws))) consensus_pow_limit_target)"
  have avg: "unat avg = v3_average ws" unfolding avg_def by (rule v3_average_word [OF ok])
  have w: "unat w = work_multiplier (5000000000000 div max (v3_average ws) 1)"
    by (simp add: w_def v3_multiplier_eq avg)
  have tm: "unat tm \<le> 12500"
    unfolding tm_def by (rule target_multiplier_bounds(2)) (simp_all add: w work_multiplier_bounds)
  have cur: "length cur = 32" "be_value cur = bounded_bits_value (sm_bits (hd ws))"
    unfolding cur_def clamp_order bounded_bits_value_def by (intro clamp_target length_target_from_bits)+
  have cl: "be_value cur \<le> pow_limit_value" by (simp add: cur(2) bounded_bits_value_def clamp_value_bounds)
  have bp: "unat BASIS_POINTS = 10000" by (simp add: BASIS_POINTS_def)
  obtain s ovf where s: "(if tm > BASIS_POINTS then scale_target_ratio_ceil_v3 cur tm BASIS_POINTS
      else scale_target_ratio cur tm BASIS_POINTS) = (s, ovf)" by fastforce
  have sv: "length s = 32" "be_value s = v3_scaled (be_value cur) (unat tm)" "\<not> ovf"
    using ceil_bounded [OF cur(1) cl tm bp, of s ovf] scale_bounded [OF cur(1) cl tm bp, of s ovf] s
    by (auto simp: v3_scaled_def word_less_nat_alt bp split: if_splits)
  define t where "t = (if s > consensus_pow_limit_target then consensus_pow_limit_target
    else if s < consensus_min_target then consensus_min_target else s)"
  have t: "length t = 32" "be_value t = clamp_value (be_value s)"
    unfolding t_def by (intro clamp_target sv(1))+
  define d where "d = \<lparr>de_expected_bits = bits_from_target t, de_observed_intervals = length ws - 1,
    de_average_interval_ns = avg, de_work_multiplier_bps = w\<rparr>"
  have c: "(ws = []) = False" "(length ws > PRODUCTION_V3_RETARGET_WINDOW) = False"
    "list_ex (\<lambda>sample. sm_timestamp_ns sample = 0) ws = False"
    "total_interval_ns 0 ws = Inr (word_of_nat (hd (sample_times ws) - last (sample_times ws)))"
    using ok by (simp_all add: v3_window_ok_def sample_times_basic(1) total_interval_window
        PRODUCTION_V3_RETARGET_WINDOW_def)
  have "expected_difficulty_for_v3_window_ns ws = Inr d"
    unfolding expected_difficulty_for_v3_window_ns_def c if_False rbind_simps Let_def avg_def [symmetric]
      w_def [symmetric] tm_def [symmetric] cur_def [symmetric] s prod.case
    using sv(3) by (simp add: d_def t_def)
  then show thesis
    by (rule that [of d t]) (simp_all add: d_def t avg w sv(2) cur(2) tm_def)
qed

section \<open>The walk along selected parents\<close>

text \<open>Heights fall along the selected parents of known blocks.\<close>

definition heights_fall :: "ChainState \<Rightarrow> bool" where
  "heights_fall s \<longleftrightarrow> (\<forall>h p b b'. lookup (dag_blocks (cs_dag s)) h = Some b \<and> selected_parent_of s h = Some p
    \<and> lookup (dag_blocks (cs_dag s)) p = Some b' \<longrightarrow> h_height (b_header b') < h_height (b_header b))"

definition cursor_height :: "ChainState \<Rightarrow> Hash option \<Rightarrow> nat" where
  "cursor_height s cursor = (case cursor of None \<Rightarrow> 0 | Some h \<Rightarrow>
    (case lookup (dag_blocks (cs_dag s)) h of None \<Rightarrow> 0 | Some b \<Rightarrow> Suc (unat (h_height (b_header b)))))"

lemma cursor_height_falls:
  assumes "heights_fall s" "lookup (dag_blocks (cs_dag s)) h = Some b"
  shows "cursor_height s (selected_parent_of s h) < cursor_height s (Some h)"
  using assms by (auto simp: cursor_height_def heights_fall_def word_less_nat_alt split: option.splits)

lemma recent_blocks_loop_returns:
  assumes fall: "heights_fall s"
  shows "\<exists>rs saw'. recent_blocks_loop s limit cursor recent saw = Some (rs, saw')
    \<and> (saw' \<longleftrightarrow> saw \<or> cursor_height s cursor \<noteq> 0)
    \<and> (length recent < limit \<longrightarrow> length rs \<le> limit) \<and> (list_all usable recent \<longrightarrow> list_all usable rs)"
proof (induction "cursor_height s cursor" arbitrary: cursor recent saw rule: less_induct)
  case less
  show ?case
  proof (cases cursor)
    case None
    then show ?thesis by (subst recent_blocks_loop.simps) (simp add: cursor_height_def)
  next
    case (Some h)
    show ?thesis
    proof (cases "lookup (dag_blocks (cs_dag s)) h")
      case None
      then show ?thesis using Some by (subst recent_blocks_loop.simps) (simp add: cursor_height_def)
    next
      case b: (Some b)
      have pos: "cursor_height s cursor \<noteq> 0" using Some b by (simp add: cursor_height_def)
      have lt: "cursor_height s (selected_parent_of s h) < cursor_height s cursor"
        using cursor_height_falls [OF fall b] Some by simp
      show ?thesis
        using less [OF lt, of "recent @ [b]" True] less [OF lt, of recent True] pos Some b
        by (subst recent_blocks_loop.simps) auto
    qed
  qed
qed

text \<open>A selected chain, newest first: each block's selected parent is the next one.\<close>

fun linked :: "ChainState \<Rightarrow> Hash list \<Rightarrow> bool" where
  "linked s [] \<longleftrightarrow> True"
| "linked s [h] \<longleftrightarrow> contains_key (dag_blocks (cs_dag s)) h
    \<and> (case selected_parent_of s h of None \<Rightarrow> True | Some p \<Rightarrow> \<not> contains_key (dag_blocks (cs_dag s)) p)"
| "linked s (h # p # r) \<longleftrightarrow> contains_key (dag_blocks (cs_dag s)) h \<and> selected_parent_of s h = Some p
    \<and> linked s (p # r)"

lemma recent_blocks_loop_linked:
  assumes "linked s (h # hs)" "distinct (h # hs)" "length recent < limit"
    and keys: "\<forall>h b. lookup (dag_blocks (cs_dag s)) h = Some b \<longrightarrow> b_hash b = h"
    and "\<forall>r \<in> set recent. b_hash r \<notin> set (h # hs)"
  shows "recent_blocks_loop s limit (Some h) recent saw = Some (recent @ take (limit - length recent)
    (filter usable (List.map_filter (lookup (dag_blocks (cs_dag s))) (h # hs))), True)"
  using assms(1,2,3,5)
proof (induction hs arbitrary: h recent saw)
  case Nil
  then obtain b where b: "lookup (dag_blocks (cs_dag s)) h = Some b" by auto
  have fresh: "\<not> list_ex (\<lambda>known. b_hash known = h) recent" using Nil by (auto simp: list_ex_iff)
  have stop: "recent_blocks_loop s limit (selected_parent_of s h) r True = Some (r, True)" for r
    using Nil by (subst recent_blocks_loop.simps) (auto split: option.splits)
  obtain k where "limit - length recent = Suc k" using Nil by (cases "limit - length recent") auto
  then show ?case using b fresh stop
    by (subst recent_blocks_loop.simps) (auto simp: map_filter_simps)
next
  case (Cons p hs)
  then obtain b where b: "lookup (dag_blocks (cs_dag s)) h = Some b" by auto
  have fresh: "\<not> list_ex (\<lambda>known. b_hash known = h) recent" using Cons by (auto simp: list_ex_iff)
  have next': "selected_parent_of s h = Some p" "linked s (p # hs)" "distinct (p # hs)" using Cons by auto
  have bh: "b_hash b = h" using keys b by blast
  obtain k where k: "limit - length recent = Suc k" using Cons by (cases "limit - length recent") auto
  show ?case
  proof (cases "usable b")
    case False
    have "recent_blocks_loop s limit (Some p) recent True = Some (recent @ take (limit - length recent)
        (filter usable (List.map_filter (lookup (dag_blocks (cs_dag s))) (p # hs))), True)"
      using Cons.prems next' by (intro Cons.IH) auto
    with False b fresh next'(1) show ?thesis
      by (subst recent_blocks_loop.simps) (simp add: map_filter_simps)
  next
    case True
    show ?thesis
    proof (cases "limit \<le> Suc (length recent)")
      case stop: True
      then have "k = 0" using k by simp
      with stop True b fresh k show ?thesis
        by (subst recent_blocks_loop.simps) (simp add: map_filter_simps)
    next
      case False
      have "recent_blocks_loop s limit (Some p) (recent @ [b]) True
          = Some ((recent @ [b]) @ take (limit - length (recent @ [b]))
            (filter usable (List.map_filter (lookup (dag_blocks (cs_dag s))) (p # hs))), True)"
        using Cons.prems next' False bh by (intro Cons.IH) auto
      moreover have "limit - Suc (length recent) = k" using k by simp
      ultimately show ?thesis using False True b fresh next'(1) k
        by (subst recent_blocks_loop.simps) (simp add: map_filter_simps)
    qed
  qed
qed

section \<open>Properties\<close>

text \<open>
  C23. Scaling a target by a ratio is exact 256-bit arithmetic: the limb multiplication and long division
  give the floor of \<open>target * numerator / denominator\<close> reduced modulo \<open>2 ^ 256\<close>, the flag is set
  exactly when the reduction loses something, no intermediate 128-bit value saturates or wraps, and a zero
  denominator counts as one.
\<close>

theorem scale_target_ratio_exact:
  assumes "length target = 32"
  shows "let v = be_value target * unat numerator div max (unat denominator) 1;
      (scaled, overflow) = scale_target_ratio target numerator denominator
    in length scaled = 32 \<and> be_value scaled = v mod 2 ^ 256 \<and> (overflow \<longleftrightarrow> 2 ^ 256 \<le> v)"
  using scale_target_ratio_value [OF assms, of numerator denominator]
  by (cases "scale_target_ratio target numerator denominator") (auto simp: Let_def unat_max_1)

theorem scale_target_ratio_exact_witness:
  "length (0x80 # replicate 31 0 :: PowTarget) = 32 \<and> snd (scale_target_ratio (0x80 # replicate 31 0) 2 1)"
proof -
  have "be_value (0x80 # replicate 31 0) * unat (2 :: u64) div max (unat (1 :: u64)) 1 = 2 ^ 256" by simp
  then show ?thesis
    using scale_target_ratio_exact [of "0x80 # replicate 31 0" 2 1]
    by (cases "scale_target_ratio (0x80 # replicate 31 0) 2 1") (simp only: Let_def, simp)
qed

text \<open>
  C22. One retarget step is bounded. Whatever the current bits and the observed interval, the new canonical
  target is positive and at most the proof-of-work limit; it is at most a quarter easier than the
  (clamped) current target and at most a fifth harder, up to the precision of the compact form; and an
  average interval between 56 and 65 seconds leaves the exact target unchanged.
\<close>

theorem retarget_step_bounded:
  shows "let c = bounded_bits_value bits;
      new = be_value (fst (snd (consensus_adjust_target_for_interval bits avg)))
    in 0 < new \<and> new \<le> pow_limit_value \<and> 4 * new \<le> 5 * c \<and> 32767 * (8 * c div 10) \<le> 32768 * new
      \<and> (56 \<le> avg \<and> avg \<le> 65 \<longrightarrow> new \<le> c \<and> 32767 * c < 32768 * new)"
proof -
  define c where "c = bounded_bits_value bits"
  define m where "m = legacy_target_multiplier avg"
  obtain t where t: "length t = 32" "be_value t = clamp_value (c * m div 10000)"
    "fst (snd (consensus_adjust_target_for_interval bits avg)) = target_from_bits (bits_from_target t)"
    using adjust_value [of bits avg] by (metis c_def m_def)
  define new where "new = be_value (target_from_bits (bits_from_target t))"
  have tb: "1 \<le> be_value t" "be_value t \<le> pow_limit_value" unfolding t(2) by (rule clamp_value_bounds)+
  have new: "new \<le> be_value t" "32767 * be_value t < 32768 * new"
    unfolding new_def using clamped_canonical [OF t(1) tb] by simp_all
  have c: "1 \<le> c" "c \<le> pow_limit_value"
    unfolding c_def bounded_bits_value_def by (rule clamp_value_bounds)+
  have ab: "4 * be_value t \<le> 5 * c" "8 * c div 10 \<le> be_value t"
    unfolding t(2) m_def by (intro adjusted_bounds c legacy_multiplier_bounds)+
  have "be_value t = c" if "56 \<le> avg \<and> avg \<le> 65"
  proof -
    define a where "a = unat avg"
    have a: "56 \<le> a" "a \<le> 65" using that by (simp_all add: word_le_nat_alt a_def)
    then have "9200 \<le> 600000 div a" "600000 div a \<le> 10800"
      using div_le_mono2 [of 56 a 600000] by (simp_all add: less_eq_div_iff_mult_less_eq)
    then have "unat (consensus_retarget_multiplier_bps avg) = 10000"
      using a by (auto simp: consensus_multiplier_eq work_multiplier_def a_def)
    then have "m = 10000"
      unfolding m_def legacy_target_multiplier_def
      by (intro target_multiplier_bounds(3) work_multiplier_bounds_legacy)
    with c show ?thesis by (simp add: t(2) clamp_value_def)
  qed
  with new ab tb show ?thesis
    unfolding Let_def c_def [symmetric] t(3) new_def [symmetric] by fastforce
qed

theorem retarget_step_bounded_witness:
  "be_value (fst (snd (consensus_adjust_target_for_interval CONSENSUS_POW_LIMIT_BITS 60))) \<le> pow_limit_value
    \<and> 32767 * pow_limit_value < 32768 * be_value (fst (snd (consensus_adjust_target_for_interval CONSENSUS_POW_LIMIT_BITS 60)))"
proof -
  have "bounded_bits_value CONSENSUS_POW_LIMIT_BITS = pow_limit_value"
    using pow_limit_small(1) limit_values(1)
    by (simp add: bounded_bits_value_def consensus_pow_limit_target_def [symmetric] clamp_value_def)
  with retarget_step_bounded [of CONSENSUS_POW_LIMIT_BITS 60] show ?thesis by (simp add: Let_def)
qed

text \<open>
  C16. A nanosecond window is accepted exactly when it has one to twenty nonzero, strictly decreasing
  timestamps; the average interval is then exactly the difference of the newest and oldest timestamps
  divided by the number of intervals, with no overflow, and the new bits are the compact form of the
  clamped target scaled by the multiplier, rounding up when the target gets easier.
\<close>

theorem v3_window_exact:
  "(if v3_window_ok ws
    then \<exists>d t. expected_difficulty_for_v3_window_ns ws = Inr d \<and> length t = 32
      \<and> de_expected_bits d = bits_from_target t
      \<and> unat (de_average_interval_ns d) = v3_average ws
      \<and> unat (de_work_multiplier_bps d) = work_multiplier (5000000000000 div max (v3_average ws) 1)
      \<and> be_value t = clamp_value (v3_scaled (bounded_bits_value (sm_bits (hd ws)))
          (unat (consensus_target_multiplier_bps_from_work_multiplier (de_work_multiplier_bps d))))
    else \<exists>e. expected_difficulty_for_v3_window_ns ws = Inl e)"
  using v3_window_value [of ws] v3_window_rejects [of ws] by (metis (no_types, lifting))

text \<open>
  C17. Recovery from a target that is too hard. When blocks come too slowly for the deadband, every
  nanosecond-window decision makes the target strictly easier until the limit is reached, from any
  current target, the hardest included; under the second-based rule the hardest target is a fixed point,
  so no number of slow blocks ever makes it easier.
\<close>

theorem v3_target_recovers:
  assumes "expected_difficulty_for_v3_window_ns ws = Inr d" "unat (de_work_multiplier_bps d) < 10000"
    and "bounded_bits_value (sm_bits (hd ws)) < pow_limit_value"
  shows "bounded_bits_value (sm_bits (hd ws)) < be_value (target_from_bits (de_expected_bits d))
    \<and> (\<forall>avg. be_value (fst (snd (consensus_adjust_target_for_interval CONSENSUS_MIN_TARGET_BITS avg))) = 1)"
proof
  have "v3_window_ok ws" using v3_window_rejects [of ws] assms(1) by auto
  then obtain t where t: "length t = 32" "de_expected_bits d = bits_from_target t"
    and w: "unat (de_work_multiplier_bps d) = work_multiplier (5000000000000 div max (v3_average ws) 1)"
    and tv: "be_value t = clamp_value (v3_scaled (bounded_bits_value (sm_bits (hd ws)))
      (unat (consensus_target_multiplier_bps_from_work_multiplier (de_work_multiplier_bps d))))"
    using v3_window_value [of ws] assms(1) by (metis Inr_inject)
  define c where "c = bounded_bits_value (sm_bits (hd ws))"
  define m where "m = unat (consensus_target_multiplier_bps_from_work_multiplier (de_work_multiplier_bps d))"
  have c: "1 \<le> c" "c < pow_limit_value"
    using assms(3) clamp_value_bounds(1) by (simp_all only: c_def bounded_bits_value_def)
  have "unat (de_work_multiplier_bps d) \<le> 9600"
    using assms(2) unfolding w by (rule work_multiplier_slow)
  then have m: "10417 \<le> m"
    unfolding m_def by (intro target_multiplier_bounds(4)) (simp_all add: w work_multiplier_bounds)
  have "c * m + 9999 = 10000 * ((c * m + 9999) div 10000) + (c * m + 9999) mod 10000"
    "(c * m + 9999) mod 10000 \<le> 9999" by simp_all
  then have "c * m \<le> 10000 * v3_scaled c m" using m by (simp add: v3_scaled_def)
  moreover have "c * 10417 \<le> c * m" using m by simp
  ultimately have sc: "c * 10417 \<le> 10000 * v3_scaled c m" "c < v3_scaled c m" using c(1) by linarith+
  have tb: "1 \<le> be_value t" "be_value t \<le> pow_limit_value" unfolding tv by (rule clamp_value_bounds)+
  have canon: "32767 * be_value t < 32768 * be_value (target_from_bits (bits_from_target t))"
    by (rule clamped_canonical(2) [OF t(1) tb])
  show "bounded_bits_value (sm_bits (hd ws)) < be_value (target_from_bits (de_expected_bits d))"
  proof (cases "pow_limit_value < v3_scaled c m")
    case True
    then have "t = consensus_pow_limit_target"
      using tv t(1) by (intro be_value_inj) (simp_all add: c_def [symmetric] m_def [symmetric] clamp_value_def limit_values)
    then have "target_from_bits (bits_from_target t) = consensus_pow_limit_target"
      by (simp add: consensus_pow_limit_target_canonical)
    with c t(2) show ?thesis by (simp add: limit_values c_def)
  next
    case False
    then have "be_value t = v3_scaled c m"
      using tv c sc(2) by (simp add: c_def [symmetric] m_def [symmetric] clamp_value_def)
    with canon sc(1) c t(2) show ?thesis by (simp add: c_def [symmetric])
  qed
next
  show "\<forall>avg. be_value (fst (snd (consensus_adjust_target_for_interval CONSENSUS_MIN_TARGET_BITS avg))) = 1"
  proof
    fix avg
    have one: "bounded_bits_value CONSENSUS_MIN_TARGET_BITS = 1"
      using pow_limit_small(1) limit_values(2)
      by (simp add: bounded_bits_value_def consensus_min_target_def [symmetric] clamp_value_def)
    have "clamp_value (1 * legacy_target_multiplier avg div 10000) = 1"
      using legacy_multiplier_bounds [of avg] pow_limit_small(1)
      by (auto simp: clamp_value_def div_nat_eqI)
    then obtain t where t: "length t = 32" "be_value t = 1"
      "fst (snd (consensus_adjust_target_for_interval CONSENSUS_MIN_TARGET_BITS avg))
        = target_from_bits (bits_from_target t)"
      using adjust_value [of CONSENSUS_MIN_TARGET_BITS avg] one by metis
    have "be_value (target_from_bits (bits_from_target t)) \<le> 1"
      "32767 * 1 < 32768 * be_value (target_from_bits (bits_from_target t))"
      using clamped_canonical [OF t(1)] t(2) pow_limit_small(1) by simp_all
    then show "be_value (fst (snd (consensus_adjust_target_for_interval CONSENSUS_MIN_TARGET_BITS avg))) = 1"
      unfolding t(3) by simp
  qed
qed

definition slow_window :: "V3RetargetSample list" where
  "slow_window = [\<lparr>sm_timestamp_ns = 2000000000, sm_bits = CONSENSUS_MIN_TARGET_BITS\<rparr>,
    \<lparr>sm_timestamp_ns = 1000000000, sm_bits = CONSENSUS_MIN_TARGET_BITS\<rparr>]"

theorem v3_target_recovers_witness:
  "\<exists>d. expected_difficulty_for_v3_window_ns slow_window = Inr d \<and> 1 < be_value (target_from_bits (de_expected_bits d))"
proof -
  have ok: "v3_window_ok slow_window"
    by (simp add: v3_window_ok_def slow_window_def sample_times_def)
  have avg: "v3_average slow_window = 1000000000"
    by (simp add: v3_average_def slow_window_def sample_times_def)
  have one: "bounded_bits_value (sm_bits (hd slow_window)) = 1"
    using pow_limit_small(1) limit_values(2)
    by (simp add: slow_window_def bounded_bits_value_def consensus_min_target_def [symmetric] clamp_value_def)
  obtain d where d: "expected_difficulty_for_v3_window_ns slow_window = Inr d"
    and w: "unat (de_work_multiplier_bps d) = work_multiplier (5000000000000 div max (v3_average slow_window) 1)"
    using v3_window_value [OF ok] by metis
  have "unat (de_work_multiplier_bps d) < 10000" unfolding w avg by (simp add: work_multiplier_def)
  moreover have "bounded_bits_value (sm_bits (hd slow_window)) < pow_limit_value"
    unfolding one by (simp add: pow_limit_value_def)
  ultimately show ?thesis using v3_target_recovers [OF d] d by (auto simp: one)
qed



end
