(* ===== verification/Pulse_Compare.thy ===== *)
theory Pulse_Compare
  imports Pulse_Prelude "HOL-Library.Multiset" "HOL-Library.Product_Lexorder"
begin

text \<open>
  Comparison functions of the standard library: \<open>Ordering\<close>, \<open>cmp\<close>, \<open>then_with\<close>, \<open>Reverse\<close>, the stable
  \<open>sort_by\<close> and \<open>max_by\<close> (which returns the last of several maxima), with the laws a comparison function has
  to satisfy for sorting to be independent of the order of its input.
\<close>

section \<open>Operations\<close>

datatype Ordering = Less | Equal | Greater

definition cmp :: "'a::linorder \<Rightarrow> 'a \<Rightarrow> Ordering" where
  "cmp a b = (if a < b then Less else if a = b then Equal else Greater)"

definition then_with :: "Ordering \<Rightarrow> Ordering \<Rightarrow> Ordering" where
  "then_with o1 o2 = (case o1 of Equal \<Rightarrow> o2 | _ \<Rightarrow> o1)"

fun flip_ordering :: "Ordering \<Rightarrow> Ordering" where
  "flip_ordering Less = Greater"
| "flip_ordering Equal = Equal"
| "flip_ordering Greater = Less"

fun insert_by :: "('a \<Rightarrow> 'a \<Rightarrow> Ordering) \<Rightarrow> 'a \<Rightarrow> 'a list \<Rightarrow> 'a list" where
  "insert_by f x [] = [x]"
| "insert_by f x (y # ys) = (if f x y = Greater then y # insert_by f x ys else x # y # ys)"

definition sort_by :: "('a \<Rightarrow> 'a \<Rightarrow> Ordering) \<Rightarrow> 'a list \<Rightarrow> 'a list" where
  "sort_by f xs = foldr (insert_by f) xs []"

fun max_by :: "('a \<Rightarrow> 'a \<Rightarrow> Ordering) \<Rightarrow> 'a list \<Rightarrow> 'a option" where
  "max_by f [] = None"
| "max_by f (x # xs) = Some (fold (\<lambda>y best. if f best y = Greater then best else y) xs x)"

definition max_of :: "'a::linorder list \<Rightarrow> 'a option" where
  "max_of = max_by cmp"

definition min_of :: "'a::linorder list \<Rightarrow> 'a option" where
  "min_of xs = (case xs of [] \<Rightarrow> None | x # r \<Rightarrow> Some (fold (\<lambda>y best. if y < best then y else best) r x))"

text \<open>\<open>Vec::dedup\<close>: consecutive equal elements collapse.\<close>

fun dedup :: "'a list \<Rightarrow> 'a list" where
  "dedup (x # y # r) = (if x = y then dedup (y # r) else x # dedup (y # r))"
| "dedup xs = xs"

datatype 'a reverse = Reverse 'a

instantiation reverse :: (linorder) linorder
begin

definition less_eq_reverse :: "'a reverse \<Rightarrow> 'a reverse \<Rightarrow> bool" where
  "x \<le> y \<longleftrightarrow> (case (x, y) of (Reverse a, Reverse b) \<Rightarrow> b \<le> a)"

definition less_reverse :: "'a reverse \<Rightarrow> 'a reverse \<Rightarrow> bool" where
  "x < y \<longleftrightarrow> (case (x, y) of (Reverse a, Reverse b) \<Rightarrow> b < a)"

instance
  by standard (auto simp: less_eq_reverse_def less_reverse_def split: reverse.splits)

end

section \<open>Laws of a comparison function\<close>

locale comparison =
  fixes f :: "'a \<Rightarrow> 'a \<Rightarrow> Ordering"
  assumes cmp_flip: "f y x = flip_ordering (f x y)"
    and cmp_trans: "f x y \<noteq> Greater \<Longrightarrow> f y z \<noteq> Greater \<Longrightarrow> f x z \<noteq> Greater"
begin

lemma cmp_refl: "f x x = Equal"
  using cmp_flip [of x x] by (cases "f x x") auto

lemma cmp_total: "f x y \<noteq> Greater \<or> f y x \<noteq> Greater"
  using cmp_flip [of x y] by (cases "f x y") auto

lemma cmp_antisym: "f x y \<noteq> Greater \<Longrightarrow> f y x \<noteq> Greater \<Longrightarrow> f x y = Equal"
  using cmp_flip [of y x] by (cases "f x y") auto

lemma set_insert_by: "set (insert_by f x xs) = insert x (set xs)"
  by (induction xs) auto

lemma mset_insert_by: "mset (insert_by f x xs) = add_mset x (mset xs)"
  by (induction xs) auto

lemma mset_sort_by: "mset (sort_by f xs) = mset xs"
  unfolding sort_by_def by (induction xs) (simp_all add: mset_insert_by)

lemma set_sort_by: "set (sort_by f xs) = set xs"
  using mset_sort_by mset_eq_setD by blast

lemma sorted_insert_by:
  "sorted_wrt (\<lambda>x y. f x y \<noteq> Greater) xs \<Longrightarrow> sorted_wrt (\<lambda>x y. f x y \<noteq> Greater) (insert_by f x xs)"
proof (induction xs)
  case (Cons y ys)
  show ?case
  proof (cases "f x y = Greater")
    case True
    then have "f y x \<noteq> Greater" using cmp_total by blast
    with True Cons show ?thesis by (auto simp: set_insert_by)
  next
    case False
    with Cons.prems show ?thesis using cmp_trans [of x y] by auto
  qed
qed simp

lemma sorted_sort_by: "sorted_wrt (\<lambda>x y. f x y \<noteq> Greater) (sort_by f xs)"
  unfolding sort_by_def by (induction xs) (simp_all add: sorted_insert_by)

text \<open>When the comparison separates the elements, sorting depends only on the multiset of the input.\<close>

lemma sorted_unique:
  assumes "sorted_wrt (\<lambda>x y. f x y \<noteq> Greater) xs" "sorted_wrt (\<lambda>x y. f x y \<noteq> Greater) ys"
    and "mset xs = mset ys" "\<And>x y. x \<in> set xs \<Longrightarrow> y \<in> set xs \<Longrightarrow> f x y = Equal \<Longrightarrow> x = y"
  shows "xs = ys"
  using assms
proof (induction xs arbitrary: ys)
  case (Cons x xs)
  from Cons.prems(3) obtain y ys' where ys: "ys = y # ys'" by (cases ys) auto
  have x: "x \<in> set ys" and y: "y \<in> set (x # xs)" using Cons.prems(3) ys by (metis list.set_intros(1) mset_eq_setD)+
  have "f x y \<noteq> Greater" using Cons.prems(1) y cmp_refl by auto
  moreover have "f y x \<noteq> Greater" using Cons.prems(2) x ys cmp_refl by auto
  ultimately have "f x y = Equal" by (rule cmp_antisym)
  then have "x = y" using Cons.prems(4) y by simp
  moreover have "xs = ys'" using Cons.prems ys \<open>x = y\<close> by (intro Cons.IH) auto
  ultimately show ?case by (simp add: ys)
qed simp

lemma sort_by_cong:
  assumes "mset xs = mset ys" "\<And>x y. x \<in> set xs \<Longrightarrow> y \<in> set xs \<Longrightarrow> f x y = Equal \<Longrightarrow> x = y"
  shows "sort_by f xs = sort_by f ys"
  using assms by (intro sorted_unique sorted_sort_by) (simp_all add: mset_sort_by set_sort_by)

lemma max_by_None: "max_by f xs = None \<longleftrightarrow> xs = []"
  by (cases xs) auto

lemma fold_max:
  "let m = fold (\<lambda>y best. if f best y = Greater then best else y) xs x
   in m \<in> set (x # xs) \<and> (\<forall>y \<in> set (x # xs). f y m \<noteq> Greater)"
proof (induction xs arbitrary: x)
  case Nil
  then show ?case by (simp add: cmp_refl Let_def)
next
  case (Cons y xs)
  define b where "b = (if f x y = Greater then x else y)"
  define m where "m = fold (\<lambda>y best. if f best y = Greater then best else y) xs b"
  have ih: "m \<in> set (b # xs)" "\<forall>z \<in> set (b # xs). f z m \<noteq> Greater"
    using Cons [of b] unfolding Let_def m_def [symmetric] by blast+
  have "f x b \<noteq> Greater" "f y b \<noteq> Greater" using cmp_total [of x y] by (auto simp: b_def cmp_refl)
  with ih have "f x m \<noteq> Greater" "f y m \<noteq> Greater" using cmp_trans by (meson list.set_intros(1))+
  moreover have "m \<in> set (x # y # xs)" using ih(1) by (auto simp: b_def split: if_splits)
  moreover have "fold (\<lambda>y best. if f best y = Greater then best else y) (y # xs) x = m"
    by (simp add: m_def b_def)
  ultimately show ?case using ih(2) by (simp add: Let_def)
qed

lemma max_by_Some:
  assumes "max_by f xs = Some m"
  shows "m \<in> set xs" "y \<in> set xs \<Longrightarrow> f y m \<noteq> Greater"
  using assms fold_max by (cases xs; fastforce simp: Let_def)+

lemma max_by_unique:
  assumes "m \<in> set xs" "\<And>y. y \<in> set xs \<Longrightarrow> f y m \<noteq> Greater"
    and "\<And>x y. x \<in> set xs \<Longrightarrow> y \<in> set xs \<Longrightarrow> f x y = Equal \<Longrightarrow> x = y"
  shows "max_by f xs = Some m"
proof -
  obtain m' where m': "max_by f xs = Some m'" using assms(1) max_by_None by (cases "max_by f xs") auto
  have "f m m' \<noteq> Greater" "f m' m \<noteq> Greater" using max_by_Some [OF m'] assms by auto
  then have "f m m' = Equal" by (rule cmp_antisym)
  then have "m = m'" using assms(1,3) max_by_Some(1) [OF m'] by blast
  with m' show ?thesis by simp
qed

lemma max_by_cong:
  assumes "set xs = set ys" "\<And>x y. x \<in> set xs \<Longrightarrow> y \<in> set xs \<Longrightarrow> f x y = Equal \<Longrightarrow> x = y"
  shows "max_by f xs = max_by f ys"
proof (cases "max_by f xs")
  case None
  then show ?thesis using assms(1) by (simp add: max_by_None)
next
  case (Some m)
  with max_by_Some [OF Some] assms show ?thesis by (metis max_by_unique)
qed

end

interpretation cmp: comparison cmp
  by unfold_locales (auto simp: cmp_def split: if_splits)

text \<open>Comparison by a key, and lexicographic combination, are comparison functions again.\<close>

lemma comparison_key: "comparison f \<Longrightarrow> comparison (\<lambda>x y. f (k x) (k y))"
  unfolding comparison_def by blast

lemma comparison_flip: "comparison f \<Longrightarrow> comparison (\<lambda>x y. f y x)"
  unfolding comparison_def by blast

lemma flip_then_with: "flip_ordering (then_with a b) = then_with (flip_ordering a) (flip_ordering b)"
  by (cases a) (simp_all add: then_with_def)

lemma comparison_then_with:
  assumes "comparison f" "comparison g"
  shows "comparison (\<lambda>x y. then_with (f x y) (g x y))"
proof
  show "then_with (f y x) (g y x) = flip_ordering (then_with (f x y) (g x y))" for x y
    unfolding flip_then_with comparison.cmp_flip [OF assms(1), of y x] comparison.cmp_flip [OF assms(2), of y x] ..
  fix x y z
  assume "then_with (f x y) (g x y) \<noteq> Greater" "then_with (f y z) (g y z) \<noteq> Greater"
  moreover have "f x z \<noteq> Greater" if "f x y \<noteq> Greater" "f y z \<noteq> Greater"
    using comparison.cmp_trans [OF assms(1)] that by blast
  moreover have "g x z \<noteq> Greater" if "g x y \<noteq> Greater" "g y z \<noteq> Greater"
    using comparison.cmp_trans [OF assms(2)] that by blast
  moreover have "f x y = Equal \<and> f y z = Equal" if "f x z = Equal" "f x y \<noteq> Greater" "f y z \<noteq> Greater"
  proof -
    have zx: "f z x \<noteq> Greater" using comparison.cmp_flip [OF assms(1), of z x] that(1) by simp
    have "f y x \<noteq> Greater" by (rule comparison.cmp_trans [OF assms(1) that(3) zx])
    moreover have "f z y \<noteq> Greater" by (rule comparison.cmp_trans [OF assms(1) zx that(2)])
    ultimately show ?thesis using comparison.cmp_antisym [OF assms(1)] that by blast
  qed
  ultimately show "then_with (f x z) (g x z) \<noteq> Greater"
    by (auto simp: then_with_def split: Ordering.splits)
qed

lemma then_with_Equal: "then_with a b = Equal \<longleftrightarrow> a = Equal \<and> b = Equal"
  by (cases a) (simp_all add: then_with_def)

lemma cmp_Equal: "cmp a b = Equal \<longleftrightarrow> a = b"
  by (simp add: cmp_def)

lemma max_of_Some: "max_of xs = Some m \<longleftrightarrow> m \<in> set xs \<and> (\<forall>y \<in> set xs. y \<le> m)"
proof
  assume "max_of xs = Some m"
  then show "m \<in> set xs \<and> (\<forall>y \<in> set xs. y \<le> m)"
    using cmp.max_by_Some [of xs m] unfolding max_of_def cmp_def by (metis Ordering.distinct not_le order.order_iff_strict)
next
  assume "m \<in> set xs \<and> (\<forall>y \<in> set xs. y \<le> m)"
  then show "max_of xs = Some m"
    unfolding max_of_def by (intro cmp.max_by_unique) (auto simp: cmp_def split: if_splits)
qed

lemma max_of_None: "max_of xs = None \<longleftrightarrow> xs = []"
  by (simp add: max_of_def cmp.max_by_None)

end
