(* ===== verification/Pulse_Selection.thy ===== *)
theory Pulse_Selection
  imports Pulse_State Pulse_Compare
begin

text \<open>
  Tip and parent selection: the legacy rules (\<open>selection.rs\<close>) and the reserved, fail-closed rules
  (\<open>selection_v2.rs\<close>), with the selected-chain walks of both. A walk stops at the first repeated or unknown
  block, so it terminates on every state, cyclic metadata included.
\<close>

section \<open>Operations\<close>

subsection \<open>Legacy selection\<close>

definition compare_tip_blocks :: "Block \<Rightarrow> Block \<Rightarrow> Ordering" where
  "compare_tip_blocks a b =
    then_with (cmp (h_height (b_header a)) (h_height (b_header b)))
    (then_with (cmp (h_blue_score (b_header a)) (h_blue_score (b_header b)))
    (then_with (cmp (h_timestamp (b_header a)) (h_timestamp (b_header b)))
    (cmp (b_hash a) (b_hash b))))"

definition compare_selected_parent_candidates :: "Block \<Rightarrow> Block \<Rightarrow> Ordering" where
  "compare_selected_parent_candidates a b =
    then_with (cmp (h_blue_score (b_header a)) (h_blue_score (b_header b)))
    (then_with (cmp (h_height (b_header a)) (h_height (b_header b)))
    (cmp (b_hash b) (b_hash a)))"

text \<open>Pairs of a hash and the block known under it; unknown hashes are dropped.\<close>

definition known_blocks :: "ChainState \<Rightarrow> Hash list \<Rightarrow> (Hash \<times> Block) list" where
  "known_blocks state hashes =
    List.map_filter (\<lambda>hash. map_option (Pair hash) (lookup (dag_blocks (cs_dag state)) hash)) hashes"

definition sorted_tip_hashes_with_policy :: "ChainState \<Rightarrow> SelectedParentPolicy \<Rightarrow> Hash list" where
  "sorted_tip_hashes_with_policy state policy =
    (let tips = known_blocks state (dag_tips (cs_dag state));
         tips = (case policy of
           LegacyTip \<Rightarrow> sort_by (\<lambda>a b. compare_tip_blocks (snd b) (snd a)) tips
         | GhostdagInspired \<Rightarrow> sort_by (\<lambda>a b. compare_selected_parent_candidates (snd b) (snd a)) tips)
     in map fst tips)"

definition sorted_tip_hashes :: "ChainState \<Rightarrow> Hash list" where
  "sorted_tip_hashes state = sorted_tip_hashes_with_policy state (dag_selected_parent_policy (cs_dag state))"

definition sorted_legacy_tip_hashes :: "ChainState \<Rightarrow> Hash list" where
  "sorted_legacy_tip_hashes state = sorted_tip_hashes_with_policy state LegacyTip"

definition first_of :: "'a list \<Rightarrow> 'a option" where
  "first_of xs = (case xs of [] \<Rightarrow> None | x # _ \<Rightarrow> Some x)"

definition last_of :: "'a list \<Rightarrow> 'a option" where
  "last_of xs = (if xs = [] then None else Some (last xs))"

definition preferred_tip_hash :: "ChainState \<Rightarrow> Hash option" where
  "preferred_tip_hash state = first_of (sorted_tip_hashes state)"

definition legacy_preferred_tip_hash :: "ChainState \<Rightarrow> Hash option" where
  "legacy_preferred_tip_hash state = first_of (sorted_legacy_tip_hashes state)"

definition calculate_selected_parent :: "Block \<Rightarrow> ChainState \<Rightarrow> Hash option" where
  "calculate_selected_parent block state =
    map_option fst (max_by (\<lambda>a b. compare_selected_parent_candidates (snd a) (snd b))
      (known_blocks state (h_parents (b_header block))))"

text \<open>Blocks of the map whose key is not in a list: what a walk has still to visit.\<close>

definition unvisited :: "ChainState \<Rightarrow> Hash list \<Rightarrow> Hash list" where
  "unvisited state visited = filter (\<lambda>k. k \<notin> set visited) (map fst (dag_blocks (cs_dag state)))"

lemma unvisited_less:
  assumes "lookup (dag_blocks (cs_dag state)) h \<noteq> None" "h \<notin> set visited"
  shows "length (unvisited state (h # visited)) < length (unvisited state visited)"
proof -
  have h: "h \<in> set (map fst (dag_blocks (cs_dag state)))"
    using assms(1) by (metis map_of_eq_None_iff image_set)
  have "unvisited state (h # visited) = filter (\<lambda>k. k \<noteq> h) (unvisited state visited)"
    by (simp add: unvisited_def conj_commute)
  moreover have "h \<in> set (unvisited state visited)" using h assms(2) by (simp add: unvisited_def)
  ultimately show ?thesis by (simp add: length_filter_less)
qed

function selected_chain_loop :: "ChainState \<Rightarrow> Hash option \<Rightarrow> Hash list \<Rightarrow> Hash list \<Rightarrow> Hash list" where
  "selected_chain_loop state None visited chain = chain"
| "selected_chain_loop state (Some hash) visited chain =
    (if \<not> contains_key (dag_blocks (cs_dag state)) hash \<or> hash \<in> set visited then chain
     else selected_chain_loop state (selected_parent_of state hash) (hash # visited) (chain @ [hash]))"
  by pat_completeness auto
termination
  by (relation "measure (\<lambda>(state, _, visited, _). length (unvisited state visited))")
    (auto intro: unvisited_less)

definition rebuild_selected_chain_from_tip :: "ChainState \<Rightarrow> Hash option \<Rightarrow> Hash list" where
  "rebuild_selected_chain_from_tip state tip = rev (selected_chain_loop state tip [] [])"

definition refresh_selected_chain :: "ChainState \<Rightarrow> ChainState" where
  "refresh_selected_chain state =
    state\<lparr>cs_dag := (cs_dag state)\<lparr>dag_selected_chain :=
      rebuild_selected_chain_from_tip state (preferred_tip_hash state)\<rparr>\<rparr>"

subsection \<open>Fail-closed selection\<close>

definition GHOSTDAG_V1_MAX_PARENTS :: nat where "GHOSTDAG_V1_MAX_PARENTS = 64"

datatype SelectionV2Error =
    TooManyParents nat nat
  | DuplicateParent Hash
  | MissingParent Hash
  | MissingParentBlueWork Hash
  | MissingTipBlock Hash
  | MissingTipBlueWork Hash
  | MissingSelectedParentMetadata Hash
  | SelectedParentCycle Hash

record SelectionScoreV1 =
  ss_blue_work :: u128
  ss_blue_score :: u64
  ss_height :: u64
  ss_hash :: Hash

definition score_for_known_block ::
  "Hash \<Rightarrow> Block \<Rightarrow> ChainState \<Rightarrow> (Hash \<Rightarrow> SelectionV2Error) \<Rightarrow> SelectionV2Error + SelectionScoreV1" where
  "score_for_known_block hash block state missing_work =
    rbind (ok_or (missing_work hash) (lookup (dag_blue_work (cs_dag state)) hash)) (\<lambda>blue_work.
    Inr \<lparr>ss_blue_work = blue_work, ss_blue_score = h_blue_score (b_header block),
      ss_height = h_height (b_header block), ss_hash = hash\<rparr>)"

definition compare_selection_scores_v1 :: "SelectionScoreV1 \<Rightarrow> SelectionScoreV1 \<Rightarrow> Ordering" where
  "compare_selection_scores_v1 a b =
    then_with (cmp (ss_blue_work a) (ss_blue_work b))
    (then_with (cmp (ss_blue_score a) (ss_blue_score b))
    (then_with (cmp (ss_height a) (ss_height b))
    (cmp (ss_hash b) (ss_hash a))))"

fun parent_scores ::
  "ChainState \<Rightarrow> Hash list \<Rightarrow> Hash list \<Rightarrow> SelectionV2Error + SelectionScoreV1 list" where
  "parent_scores state [] seen = Inr []"
| "parent_scores state (parent # parents) seen =
    (if parent \<in> set seen then Inl (DuplicateParent parent)
     else
       rbind (ok_or (MissingParent parent) (lookup (dag_blocks (cs_dag state)) parent)) (\<lambda>parent_block.
       rbind (score_for_known_block parent parent_block state MissingParentBlueWork) (\<lambda>score.
       rbind (parent_scores state parents (insort_insert parent seen)) (\<lambda>scores. Inr (score # scores)))))"

definition calculate_selected_parent_v1 :: "Block \<Rightarrow> ChainState \<Rightarrow> SelectionV2Error + Hash option" where
  "calculate_selected_parent_v1 block state =
    (if length (h_parents (b_header block)) > GHOSTDAG_V1_MAX_PARENTS then
       Inl (TooManyParents (length (h_parents (b_header block))) GHOSTDAG_V1_MAX_PARENTS)
     else
       rbind (parent_scores state (h_parents (b_header block)) []) (\<lambda>scores.
       Inr (map_option ss_hash (max_by compare_selection_scores_v1 scores))))"

fun tip_scores :: "ChainState \<Rightarrow> Hash list \<Rightarrow> SelectionV2Error + SelectionScoreV1 list" where
  "tip_scores state [] = Inr []"
| "tip_scores state (hash # hashes) =
    rbind (ok_or (MissingTipBlock hash) (lookup (dag_blocks (cs_dag state)) hash)) (\<lambda>block.
    rbind (score_for_known_block hash block state MissingTipBlueWork) (\<lambda>score.
    rbind (tip_scores state hashes) (\<lambda>scores. Inr (score # scores))))"

definition calculate_selected_tip_v1 :: "ChainState \<Rightarrow> SelectionV2Error + Hash option" where
  "calculate_selected_tip_v1 state =
    rbind (tip_scores state (sort (dag_tips (cs_dag state)))) (\<lambda>scores.
    Inr (map_option ss_hash (max_by compare_selection_scores_v1 scores)))"

function selected_chain_v1_loop ::
  "ChainState \<Rightarrow> Hash option \<Rightarrow> Hash list \<Rightarrow> Hash list \<Rightarrow> SelectionV2Error + Hash list" where
  "selected_chain_v1_loop state None seen reversed = Inr reversed"
| "selected_chain_v1_loop state (Some hash) seen reversed =
    (if hash \<in> set seen then Inl (SelectedParentCycle hash)
     else if \<not> contains_key (dag_blocks (cs_dag state)) hash then Inl (MissingTipBlock hash)
     else
       case lookup (dag_selected_parents (cs_dag state)) hash of
         None \<Rightarrow> Inl (MissingSelectedParentMetadata hash)
       | Some cursor \<Rightarrow> selected_chain_v1_loop state cursor (hash # seen) (reversed @ [hash]))"
  by pat_completeness auto
termination
  by (relation "measure (\<lambda>(state, _, seen, _). length (unvisited state seen))")
    (auto intro: unvisited_less)

definition rebuild_selected_chain_v1 :: "ChainState \<Rightarrow> Hash option \<Rightarrow> SelectionV2Error + Hash list" where
  "rebuild_selected_chain_v1 state selected_tip =
    rbind (selected_chain_v1_loop state selected_tip [] []) (\<lambda>reversed. Inr (rev reversed))"

section \<open>Comparison functions\<close>

lemmas comparison_intros =
  comparison_then_with comparison_key [OF cmp.comparison_axioms]
  comparison_flip [OF comparison_key [OF cmp.comparison_axioms]]

interpretation tip_order: comparison compare_tip_blocks
  unfolding compare_tip_blocks_def by (intro comparison_intros)

interpretation parent_order: comparison compare_selected_parent_candidates
  unfolding compare_selected_parent_candidates_def by (intro comparison_intros)

interpretation score_order: comparison compare_selection_scores_v1
  unfolding compare_selection_scores_v1_def by (intro comparison_intros)

lemma compare_selection_scores_Equal: "compare_selection_scores_v1 a b = Equal \<longleftrightarrow> a = b"
  by (cases a, cases b) (auto simp: compare_selection_scores_v1_def then_with_Equal cmp_Equal)

section \<open>Fail-closed selection\<close>

definition score :: "ChainState \<Rightarrow> Hash \<Rightarrow> SelectionScoreV1" where
  "score s h = \<lparr>ss_blue_work = the (lookup (dag_blue_work (cs_dag s)) h),
    ss_blue_score = h_blue_score (b_header (the (lookup (dag_blocks (cs_dag s)) h))),
    ss_height = h_height (b_header (the (lookup (dag_blocks (cs_dag s)) h))), ss_hash = h\<rparr>"

definition scored :: "ChainState \<Rightarrow> Hash \<Rightarrow> bool" where
  "scored s h \<longleftrightarrow> contains_key (dag_blocks (cs_dag s)) h \<and> contains_key (dag_blue_work (cs_dag s)) h"

text \<open>The preferred one of several hashes.\<close>

definition best :: "ChainState \<Rightarrow> Hash list \<Rightarrow> Hash \<Rightarrow> bool" where
  "best s hs h \<longleftrightarrow> h \<in> set hs
    \<and> list_all (\<lambda>x. compare_selection_scores_v1 (score s x) (score s h) \<noteq> Greater) hs"

lemma score_for_known_block_Inr:
  "lookup (dag_blocks (cs_dag s)) h = Some b \<Longrightarrow>
    score_for_known_block h b s f = Inr x \<longleftrightarrow> contains_key (dag_blue_work (cs_dag s)) h \<and> x = score s h"
  by (auto simp: score_for_known_block_def result_simps score_def)

lemma parent_scores_Inr:
  "parent_scores s ps seen = Inr xs \<longleftrightarrow>
    distinct ps \<and> set ps \<inter> set seen = {} \<and> list_all (scored s) ps \<and> xs = map (score s) ps"
proof (induction ps arbitrary: seen xs)
  case (Cons p ps)
  show ?case
  proof (cases "lookup (dag_blocks (cs_dag s)) p")
    case None
    then show ?thesis by (auto simp: scored_def)
  next
    case (Some b)
    then show ?thesis
      by (auto simp: result_simps Cons.IH score_for_known_block_Inr [OF Some] scored_def set_insort_insert)
  qed
qed auto

lemma tip_scores_Inr: "tip_scores s hs = Inr xs \<longleftrightarrow> list_all (scored s) hs \<and> xs = map (score s) hs"
proof (induction hs arbitrary: xs)
  case (Cons h hs)
  show ?case
  proof (cases "lookup (dag_blocks (cs_dag s)) h")
    case None
    then show ?thesis by (auto simp: scored_def)
  next
    case (Some b)
    then show ?thesis
      by (auto simp: result_simps Cons.IH score_for_known_block_Inr [OF Some] scored_def)
  qed
qed auto

lemma max_score:
  "map_option ss_hash (max_by compare_selection_scores_v1 (map (score s) hs)) = r \<longleftrightarrow>
    (case r of None \<Rightarrow> hs = [] | Some h \<Rightarrow> best s hs h)"
proof (cases hs)
  case Nil
  then show ?thesis by (cases r) (auto simp: best_def)
next
  case (Cons x xs)
  then obtain m where m: "max_by compare_selection_scores_v1 (map (score s) hs) = Some m"
    by (cases "max_by compare_selection_scores_v1 (map (score s) hs)") (auto simp: score_order.max_by_None)
  obtain h where h: "h \<in> set hs" "m = score s h" using score_order.max_by_Some(1) [OF m] by auto
  have b: "best s hs h" using score_order.max_by_Some(2) [OF m] h by (auto simp: best_def list_all_iff)
  have "h' = h" if "best s hs h'" for h'
  proof -
    have "compare_selection_scores_v1 (score s h) (score s h') = Equal"
      using that b by (intro score_order.cmp_antisym) (auto simp: best_def list_all_iff)
    then show ?thesis by (simp add: compare_selection_scores_Equal score_def)
  qed
  then have "best s hs h' \<longleftrightarrow> h = h'" for h' using b by blast
  moreover have e: "map_option ss_hash (max_by compare_selection_scores_v1 (map (score s) hs)) = Some h"
    unfolding m by (simp add: h(2) score_def)
  moreover have "hs \<noteq> []" using Cons by simp
  ultimately show ?thesis unfolding e by (cases r) simp_all
qed

section \<open>Selected chains\<close>

text \<open>
  \<open>chain_from s c hs\<close>: following complete selected-parent metadata from the cursor \<open>c\<close> visits exactly
  the known blocks \<open>hs\<close> and ends at a block without selected parent.
\<close>

fun chain_from :: "ChainState \<Rightarrow> Hash option \<Rightarrow> Hash list \<Rightarrow> bool" where
  "chain_from s c [] \<longleftrightarrow> c = None"
| "chain_from s c (h # hs) \<longleftrightarrow> c = Some h \<and> contains_key (dag_blocks (cs_dag s)) h
    \<and> (case lookup (dag_selected_parents (cs_dag s)) h of None \<Rightarrow> False | Some p \<Rightarrow> chain_from s p hs)"

lemma selected_chain_v1_loop_Inr:
  "selected_chain_v1_loop s c seen acc = Inr xs \<longleftrightarrow>
    (\<exists>hs. xs = acc @ hs \<and> chain_from s c hs \<and> distinct hs \<and> set hs \<inter> set seen = {})"
proof (induction s c seen acc rule: selected_chain_v1_loop.induct)
  case (1 s seen acc)
  have "chain_from s None hs \<longleftrightarrow> hs = []" for hs by (cases hs) auto
  then show ?case by auto
next
  case (2 s h seen acc)
  show ?case
  proof (cases "h \<in> set seen \<or> \<not> contains_key (dag_blocks (cs_dag s)) h
      \<or> lookup (dag_selected_parents (cs_dag s)) h = None")
    case True
    have "\<not> (chain_from s (Some h) hs \<and> distinct hs \<and> set hs \<inter> set seen = {})" for hs
      using True by (cases hs) (auto split: option.splits)
    with True show ?thesis by (auto split: option.splits)
  next
    case False
    then obtain p where p: "lookup (dag_selected_parents (cs_dag s)) h = Some p" by auto
    have "(\<exists>hs. xs = acc @ hs \<and> chain_from s (Some h) hs \<and> distinct hs \<and> set hs \<inter> set seen = {}) \<longleftrightarrow>
      (\<exists>hs. xs = (acc @ [h]) @ hs \<and> chain_from s p hs \<and> distinct hs \<and> set hs \<inter> set (h # seen) = {})"
      (is "?l \<longleftrightarrow> ?r")
    proof
      assume ?l
      then obtain hs where hs: "xs = acc @ hs" "chain_from s (Some h) hs" "distinct hs" "set hs \<inter> set seen = {}"
        by blast
      then obtain r where "hs = h # r" "chain_from s p r" using p by (cases hs) auto
      with hs show ?r by (intro exI [of _ r]) auto
    next
      assume ?r
      then obtain hs where hs: "xs = (acc @ [h]) @ hs" "chain_from s p hs" "distinct hs"
        "set hs \<inter> set (h # seen) = {}" by blast
      with False p show ?l by (intro exI [of _ "h # hs"]) auto
    qed
    with 2 False p show ?thesis by auto
  qed
qed

lemma selected_chain_loop_follows:
  "chain_from s c hs \<Longrightarrow> distinct hs \<Longrightarrow> set hs \<inter> set visited = {} \<Longrightarrow>
    selected_chain_loop s c visited acc = acc @ hs"
proof (induction hs arbitrary: c visited acc)
  case (Cons h hs)
  then obtain p where p: "lookup (dag_selected_parents (cs_dag s)) h = Some p" "chain_from s p hs"
    by (auto split: option.splits)
  have "selected_chain_loop s p (h # visited) (acc @ [h]) = (acc @ [h]) @ hs"
    using Cons.prems p by (intro Cons.IH) auto
  with Cons.prems p show ?case by (auto simp: selected_parent_of_def)
qed simp

section \<open>Properties\<close>


text \<open>
  C25. The fail-closed chain walk returns a chain exactly when the metadata is complete: the chain then ends
  at the tip, has no repetition, consists of known blocks each followed from its recorded selected
  parent, and starts at a block recorded as having none. On such metadata the lenient legacy walk
  returns the same chain; otherwise the fail-closed walk reports an error on every state.
\<close>

theorem selected_chain_walks_agree:
  "(rebuild_selected_chain_v1 s tip = Inr chain \<longleftrightarrow> chain_from s tip (rev chain) \<and> distinct chain)
   \<and> (case rebuild_selected_chain_v1 s tip of
        Inr c \<Rightarrow> rebuild_selected_chain_from_tip s tip = c
      | Inl e \<Rightarrow> \<not> (\<exists>hs. chain_from s tip hs \<and> distinct hs))"
proof -
  have iff: "rebuild_selected_chain_v1 s tip = Inr c \<longleftrightarrow> chain_from s tip (rev c) \<and> distinct c" for c
    by (auto simp: rebuild_selected_chain_v1_def result_simps selected_chain_v1_loop_Inr)
  show ?thesis
  proof (cases "rebuild_selected_chain_v1 s tip")
    case (Inl e)
    then have "\<not> (chain_from s tip hs \<and> distinct hs)" for hs using iff [of "rev hs"] by auto
    with iff Inl show ?thesis by auto
  next
    case (Inr c)
    with iff [of c] have "selected_chain_loop s tip [] [] = rev c"
      using selected_chain_loop_follows [of s tip "rev c" "[]" "[]"] by simp
    with iff Inr show ?thesis by (simp add: rebuild_selected_chain_from_tip_def)
  qed
qed

end
