(* ===== verification/Pulse_Ghostdag.thy ===== *)
theory Pulse_Ghostdag
  imports Pulse_Selection
begin

text \<open>
  Merge sets and their blue/red classification: the legacy calculator (\<open>ghostdag.rs\<close>) and the bounded,
  fail-closed one (\<open>ghostdag_v1.rs\<close>). Worklists are lists: a stack has its top first, an ordered set is a
  sorted list whose head is what \<open>pop_first\<close> returns. A visit counter passed by mutable reference is
  returned with the result.
\<close>

section \<open>Operations\<close>

subsection \<open>Legacy calculator\<close>

definition DEFAULT_MERGE_SET_K :: nat where "DEFAULT_MERGE_SET_K = 2"

record MergeSetClassification =
  ms_selected_parent :: "Hash option"
  ms_merge_set :: "Hash list"
  ms_blues :: "Hash list"
  ms_reds :: "Hash list"
  ms_blue_score :: u64
  ms_blue_work :: u128
  ms_diagnostics :: MergeSetDiagnostics

definition parents_of :: "ChainState \<Rightarrow> Hash \<Rightarrow> Hash list" where
  "parents_of state hash =
    (case lookup (dag_blocks (cs_dag state)) hash of None \<Rightarrow> [] | Some block \<Rightarrow> h_parents (b_header block))"

text \<open>Every hash a block of the state names as a parent.\<close>

definition all_parents :: "ChainState \<Rightarrow> Hash set" where
  "all_parents state = (\<Union>(h, b) \<in> set (dag_blocks (cs_dag state)). set (h_parents (b_header b)))"

lemma finite_all_parents [simp]: "finite (all_parents state)"
  by (auto simp: all_parents_def)

lemma parents_of_subset: "set (parents_of state h) \<subseteq> all_parents state"
proof (cases "lookup (dag_blocks (cs_dag state)) h")
  case (Some b)
  then have "(h, b) \<in> set (dag_blocks (cs_dag state))" by (rule map_of_SomeD)
  with Some show ?thesis by (auto simp: parents_of_def all_parents_def)
qed (simp add: parents_of_def)

definition worklist_rel :: "((ChainState \<times> Hash list \<times> Hash list) \<times> (ChainState \<times> Hash list \<times> Hash list)) set" where
  "worklist_rel = measures [\<lambda>(state, seen, stack). card ((all_parents state \<union> set stack) - set seen),
    \<lambda>(state, seen, stack). length stack]"

lemma wf_worklist_rel [simp]: "wf worklist_rel"
  by (simp add: worklist_rel_def)

lemma worklist_skip:
  assumes "c \<in> set seen"
  shows "((state, seen, stack), (state, seen, c # stack)) \<in> worklist_rel"
proof -
  have "(all_parents state \<union> set (c # stack)) - set seen = (all_parents state \<union> set stack) - set seen"
    using assms by auto
  then show ?thesis by (simp add: worklist_rel_def)
qed

lemma worklist_visit:
  assumes "c \<notin> set seen"
  shows "((state, c # seen, rev (parents_of state c) @ stack), (state, seen, c # stack)) \<in> worklist_rel"
proof -
  have "card ((all_parents state \<union> set (rev (parents_of state c) @ stack)) - set (c # seen))
      < card ((all_parents state \<union> set (c # stack)) - set seen)"
    using assms parents_of_subset [of state c] by (intro psubset_card_mono) auto
  then show ?thesis by (simp add: worklist_rel_def)
qed

function ancestors_loop :: "ChainState \<Rightarrow> Hash list \<Rightarrow> Hash list \<Rightarrow> Hash list" where
  "ancestors_loop state seen [] = seen"
| "ancestors_loop state seen (cursor # stack) =
    (if cursor \<in> set seen then ancestors_loop state seen stack
     else ancestors_loop state (cursor # seen) (rev (parents_of state cursor) @ stack))"
  by pat_completeness auto
termination
  by (relation worklist_rel) (simp_all add: worklist_skip worklist_visit)

definition ancestors_inclusive :: "Hash \<Rightarrow> ChainState \<Rightarrow> Hash list" where
  "ancestors_inclusive hash state = ancestors_loop state [] [hash]"

function is_ancestor_loop :: "Hash \<Rightarrow> ChainState \<Rightarrow> Hash list \<Rightarrow> Hash list \<Rightarrow> bool" where
  "is_ancestor_loop candidate state seen [] = False"
| "is_ancestor_loop candidate state seen (cursor # stack) =
    (if cursor \<in> set seen then is_ancestor_loop candidate state seen stack
     else if cursor = candidate then True
     else is_ancestor_loop candidate state (cursor # seen) (rev (parents_of state cursor) @ stack))"
  by pat_completeness auto
termination
  by (relation "inv_image worklist_rel (\<lambda>(_, state, seen, stack). (state, seen, stack))")
    (simp_all add: worklist_skip worklist_visit)

definition is_ancestor_of :: "Hash \<Rightarrow> Hash \<Rightarrow> ChainState \<Rightarrow> bool" where
  "is_ancestor_of candidate descendant state =
    (if candidate = descendant then True else is_ancestor_loop candidate state [] [descendant])"

definition are_related :: "Hash \<Rightarrow> Hash \<Rightarrow> ChainState \<Rightarrow> bool" where
  "are_related a b state \<longleftrightarrow> is_ancestor_of a b state \<or> is_ancestor_of b a state"

definition calculate_merge_set :: "Block \<Rightarrow> ChainState \<Rightarrow> Hash list" where
  "calculate_merge_set block state =
    (case calculate_selected_parent block state of
       None \<Rightarrow> []
     | Some selected_parent \<Rightarrow>
       let selected_parent_past = ancestors_inclusive selected_parent state
       in fold insort_insert
         (filter (\<lambda>ancestor. ancestor \<notin> set selected_parent_past)
           (concat (map (\<lambda>parent. ancestors_inclusive parent state)
             (filter (\<lambda>parent. parent \<noteq> selected_parent) (h_parents (b_header block)))))) [])"

definition compare_merge_candidates :: "ChainState \<Rightarrow> Hash \<Rightarrow> Hash \<Rightarrow> Ordering" where
  "compare_merge_candidates state a b =
    (case (lookup (dag_blocks (cs_dag state)) a, lookup (dag_blocks (cs_dag state)) b) of
       (Some a_block, Some b_block) \<Rightarrow>
         then_with (compare_selected_parent_candidates b_block a_block) (cmp a b)
     | _ \<Rightarrow> cmp a b)"

fun classify_loop ::
  "ChainState \<Rightarrow> nat \<Rightarrow> Hash list \<Rightarrow> Hash list \<Rightarrow> Hash list \<Rightarrow> Hash list \<times> Hash list" where
  "classify_loop state k [] blues reds = (blues, reds)"
| "classify_loop state k (candidate # rest) blues reds =
    (let anticone_blues = length (filter (\<lambda>blue. \<not> are_related candidate blue state) blues)
     in if anticone_blues < k then classify_loop state k rest (blues @ [candidate]) reds
        else classify_loop state k rest blues (reds @ [candidate]))"

definition classify_merge_set_with_k :: "Block \<Rightarrow> ChainState \<Rightarrow> nat \<Rightarrow> MergeSetClassification" where
  "classify_merge_set_with_k block state k =
    (let selected_parent = calculate_selected_parent block state;
         merge_set = sort_by (compare_merge_candidates state) (calculate_merge_set block state);
         (blues, reds) = classify_loop state k merge_set [] [];
         selected_parent_score =
           (case Option.bind selected_parent (lookup (dag_blocks (cs_dag state))) of
              None \<Rightarrow> 0 | Some b \<Rightarrow> h_blue_score (b_header b));
         blue_score = saturating_add (saturating_add selected_parent_score 1) (of_nat (length blues));
         selected_parent_work =
           (case Option.bind selected_parent (lookup (dag_blue_work (cs_dag state))) of
              None \<Rightarrow> ucast selected_parent_score | Some w \<Rightarrow> w);
         blue_work = saturating_add (saturating_add selected_parent_work 1) (of_nat (length blues))
     in \<lparr>ms_selected_parent = selected_parent, ms_merge_set = merge_set, ms_blues = blues, ms_reds = reds,
         ms_blue_score = blue_score, ms_blue_work = blue_work,
         ms_diagnostics = \<lparr>md_selected_parent = selected_parent, md_blue_score = blue_score,
           md_merge_set_size = length blues + length reds, md_merge_set_blues_count = length blues,
           md_merge_set_reds_count = length reds\<rparr>\<rparr>)"

definition classify_merge_set :: "Block \<Rightarrow> ChainState \<Rightarrow> MergeSetClassification" where
  "classify_merge_set block state =
    classify_merge_set_with_k block state (dag_merge_set_k (cs_dag state))"

subsection \<open>Bounded calculator\<close>

definition GHOSTDAG_V1_K :: nat where "GHOSTDAG_V1_K = 2"
definition GHOSTDAG_V1_MAX_ANCESTOR_VISITS :: nat where "GHOSTDAG_V1_MAX_ANCESTOR_VISITS = 65536"
definition GHOSTDAG_V1_MAX_MERGE_SET_BLOCKS :: nat where "GHOSTDAG_V1_MAX_MERGE_SET_BLOCKS = 4096"
definition GHOSTDAG_V1_MAX_RELATION_VISITS :: nat where "GHOSTDAG_V1_MAX_RELATION_VISITS = 262144"
definition CLASSIFICATION_DIGEST_DOMAIN :: bytes where
  "CLASSIFICATION_DIGEST_DOMAIN = as_bytes ''PulseDAG:ghostdag-v1-classification:v1''"

record GhostdagV1Limits =
  li_k :: nat
  li_max_ancestor_visits :: nat
  li_max_merge_set_blocks :: nat
  li_max_relation_visits :: nat

definition default_limits :: GhostdagV1Limits where
  "default_limits = \<lparr>li_k = GHOSTDAG_V1_K, li_max_ancestor_visits = GHOSTDAG_V1_MAX_ANCESTOR_VISITS,
    li_max_merge_set_blocks = GHOSTDAG_V1_MAX_MERGE_SET_BLOCKS,
    li_max_relation_visits = GHOSTDAG_V1_MAX_RELATION_VISITS\<rparr>"

datatype GhostdagV1Error =
    Selection SelectionV2Error
  | MissingBlock Hash
  | MissingBlueWork Hash
  | AncestorVisitLimitExceeded nat
  | MergeSetSizeLimitExceeded nat nat
  | RelationVisitLimitExceeded nat

record BoundedMergeSetV1 =
  bm_selected_parent :: "Hash option"
  bm_merge_set :: "Hash list"
  bm_ancestor_visits :: nat

record GhostdagV1Classification =
  gc_selected_parent :: "Hash option"
  gc_merge_set :: "Hash list"
  gc_blues :: "Hash list"
  gc_reds :: "Hash list"
  gc_blue_score :: u64
  gc_blue_work :: u128
  gc_k :: nat
  gc_ancestor_visits :: nat
  gc_relation_visits :: nat
  gc_classification_digest :: string

definition consume_visit :: "nat \<Rightarrow> nat \<Rightarrow> bool \<Rightarrow> GhostdagV1Error + nat" where
  "consume_visit counter max_visits relation =
    (if counter \<ge> max_visits then
       if relation then Inl (RelationVisitLimitExceeded max_visits)
       else Inl (AncestorVisitLimitExceeded max_visits)
     else Inr (counter + 1))"

definition insert_unseen :: "Hash list \<Rightarrow> Hash list \<Rightarrow> Hash list \<Rightarrow> Hash list" where
  "insert_unseen seen parents pending =
    fold (\<lambda>parent pending. if parent \<in> set seen then pending else insort_insert parent pending) parents pending"

function ancestors_bounded_loop ::
  "ChainState \<Rightarrow> nat \<Rightarrow> Hash list \<Rightarrow> Hash list \<Rightarrow> nat \<Rightarrow> GhostdagV1Error + (Hash list \<times> nat)" where
  "ancestors_bounded_loop state max_visits seen [] visits = Inr (seen, visits)"
| "ancestors_bounded_loop state max_visits seen (cursor # pending) visits =
    (if cursor \<in> set seen then ancestors_bounded_loop state max_visits seen pending visits
     else
       case consume_visit visits max_visits False of
         Inl e \<Rightarrow> Inl e
       | Inr visits' \<Rightarrow>
         (case lookup (dag_blocks (cs_dag state)) cursor of
            None \<Rightarrow> Inl (MissingBlock cursor)
          | Some block \<Rightarrow>
              let seen' = insort_insert cursor seen
              in ancestors_bounded_loop state max_visits seen'
                   (insert_unseen seen' (h_parents (b_header block)) pending) visits'))"
  by pat_completeness auto
termination
  by (relation "measures [\<lambda>(_, max_visits, _, _, visits). max_visits - visits,
      \<lambda>(_, _, _, pending, _). length pending]")
    (auto simp: consume_visit_def split: if_splits)

definition ancestors_inclusive_bounded ::
  "Hash \<Rightarrow> ChainState \<Rightarrow> nat \<Rightarrow> nat \<Rightarrow> GhostdagV1Error + (Hash list \<times> nat)" where
  "ancestors_inclusive_bounded hash state visits max_visits =
    ancestors_bounded_loop state max_visits [] [hash] visits"

fun collect_ancestors ::
  "nat \<Rightarrow> Hash list \<Rightarrow> Hash list \<Rightarrow> Hash list \<Rightarrow> GhostdagV1Error + Hash list" where
  "collect_ancestors max_blocks selected_parent_past [] merge_set = Inr merge_set"
| "collect_ancestors max_blocks selected_parent_past (ancestor # rest) merge_set =
    (if ancestor \<in> set selected_parent_past then
       collect_ancestors max_blocks selected_parent_past rest merge_set
     else
       let merge_set' = insort_insert ancestor merge_set
       in if length merge_set' > max_blocks then
            Inl (MergeSetSizeLimitExceeded (length merge_set') max_blocks)
          else collect_ancestors max_blocks selected_parent_past rest merge_set')"

fun collect_parents ::
  "ChainState \<Rightarrow> GhostdagV1Limits \<Rightarrow> Hash \<Rightarrow> Hash list \<Rightarrow> Hash list \<Rightarrow> Hash list \<Rightarrow> nat \<Rightarrow>
    GhostdagV1Error + (Hash list \<times> nat)" where
  "collect_parents state limits selected_parent_hash past [] merge_set visits = Inr (merge_set, visits)"
| "collect_parents state limits selected_parent_hash past (parent # parents) merge_set visits =
    (if parent = selected_parent_hash then
       collect_parents state limits selected_parent_hash past parents merge_set visits
     else
       rbind (ancestors_inclusive_bounded parent state visits (li_max_ancestor_visits limits))
         (\<lambda>(ancestors, visits').
       rbind (collect_ancestors (li_max_merge_set_blocks limits) past ancestors merge_set) (\<lambda>merge_set'.
       collect_parents state limits selected_parent_hash past parents merge_set' visits')))"

definition calculate_bounded_merge_set_with_limits ::
  "Block \<Rightarrow> ChainState \<Rightarrow> GhostdagV1Limits \<Rightarrow> GhostdagV1Error + BoundedMergeSetV1" where
  "calculate_bounded_merge_set_with_limits block state limits =
    rbind (map_err Selection (calculate_selected_parent_v1 block state)) (\<lambda>selected_parent.
    case selected_parent of
      None \<Rightarrow> Inr \<lparr>bm_selected_parent = None, bm_merge_set = [], bm_ancestor_visits = 0\<rparr>
    | Some selected_parent_hash \<Rightarrow>
        rbind (ancestors_inclusive_bounded selected_parent_hash state 0 (li_max_ancestor_visits limits))
          (\<lambda>(past, visits).
        rbind (collect_parents state limits selected_parent_hash past
            (sort (h_parents (b_header block))) [] visits) (\<lambda>(merge_set, visits').
        Inr \<lparr>bm_selected_parent = selected_parent, bm_merge_set = merge_set,
          bm_ancestor_visits = visits'\<rparr>)))"

definition calculate_bounded_merge_set_v1 :: "Block \<Rightarrow> ChainState \<Rightarrow> GhostdagV1Error + BoundedMergeSetV1" where
  "calculate_bounded_merge_set_v1 block state =
    calculate_bounded_merge_set_with_limits block state default_limits"

function is_ancestor_bounded_loop ::
  "Hash \<Rightarrow> ChainState \<Rightarrow> nat \<Rightarrow> Hash list \<Rightarrow> Hash list \<Rightarrow> nat \<Rightarrow> GhostdagV1Error + (bool \<times> nat)" where
  "is_ancestor_bounded_loop ancestor state max_visits seen [] visits = Inr (False, visits)"
| "is_ancestor_bounded_loop ancestor state max_visits seen (cursor # pending) visits =
    (if cursor \<in> set seen then is_ancestor_bounded_loop ancestor state max_visits seen pending visits
     else
       case consume_visit visits max_visits True of
         Inl e \<Rightarrow> Inl e
       | Inr visits' \<Rightarrow>
         if cursor = ancestor then Inr (True, visits')
         else
           (case lookup (dag_blocks (cs_dag state)) cursor of
              None \<Rightarrow> Inl (MissingBlock cursor)
            | Some block \<Rightarrow>
                let seen' = insort_insert cursor seen
                in is_ancestor_bounded_loop ancestor state max_visits seen'
                     (insert_unseen seen' (h_parents (b_header block)) pending) visits'))"
  by pat_completeness auto
termination
  by (relation "measures [\<lambda>(_, _, max_visits, _, _, visits). max_visits - visits,
      \<lambda>(_, _, _, _, pending, _). length pending]")
    (auto simp: consume_visit_def split: if_splits)

definition is_ancestor_bounded ::
  "Hash \<Rightarrow> Hash \<Rightarrow> ChainState \<Rightarrow> nat \<Rightarrow> nat \<Rightarrow> GhostdagV1Error + (bool \<times> nat)" where
  "is_ancestor_bounded ancestor descendant state visits max_visits =
    (if ancestor = descendant then Inr (True, visits)
     else is_ancestor_bounded_loop ancestor state max_visits [] [descendant] visits)"

definition are_related_bounded ::
  "Hash \<Rightarrow> Hash \<Rightarrow> ChainState \<Rightarrow> nat \<Rightarrow> nat \<Rightarrow> GhostdagV1Error + (bool \<times> nat)" where
  "are_related_bounded a b state visits max_visits =
    rbind (is_ancestor_bounded a b state visits max_visits) (\<lambda>(r, visits').
    if r then Inr (True, visits') else is_ancestor_bounded b a state visits' max_visits)"

definition write_hash :: "string \<Rightarrow> bytes" where
  "write_hash hash = to_le_bytes (of_nat (length hash) :: u32) @ as_bytes hash"

definition write_hashes :: "Hash list \<Rightarrow> bytes" where
  "write_hashes hashes = to_le_bytes (of_nat (length hashes) :: u32) @ concat (map write_hash hashes)"

definition classification_digest ::
  "crypto \<Rightarrow> Hash option \<Rightarrow> Hash list \<Rightarrow> Hash list \<Rightarrow> Hash list \<Rightarrow> nat \<Rightarrow> string" where
  "classification_digest C selected_parent merge_set blues reds k =
    hex_encode C (sha256 C (CLASSIFICATION_DIGEST_DOMAIN @ to_le_bytes (of_nat k :: u64)
      @ (case selected_parent of Some hash \<Rightarrow> [1] @ write_hash hash | None \<Rightarrow> [0])
      @ write_hashes merge_set @ write_hashes blues @ write_hashes reds))"

definition derive_score_work_v1 ::
  "Hash option \<Rightarrow> Hash list \<Rightarrow> ChainState \<Rightarrow> GhostdagV1Error + (u64 \<times> u128)" where
  "derive_score_work_v1 selected_parent blues state =
    rbind (case selected_parent of
        Some hash \<Rightarrow>
          rbind (ok_or (MissingBlock hash) (lookup (dag_blocks (cs_dag state)) hash)) (\<lambda>parent.
          rbind (ok_or (MissingBlueWork hash) (lookup (dag_blue_work (cs_dag state)) hash)) (\<lambda>work.
          Inr (h_blue_score (b_header parent), work)))
      | None \<Rightarrow> Inr (0, 0))
      (\<lambda>(selected_parent_score, selected_parent_work).
    let blue_count_score = (case try_from_nat (length blues) of None \<Rightarrow> - 1 | Some n \<Rightarrow> n);
        blue_count_work = of_nat (length blues)
    in Inr (saturating_add (saturating_add selected_parent_score 1) blue_count_score,
            saturating_add (saturating_add selected_parent_work 1) blue_count_work))"

fun candidate_scores ::
  "ChainState \<Rightarrow> Hash list \<Rightarrow> GhostdagV1Error + (Hash \<times> SelectionScoreV1) list" where
  "candidate_scores state [] = Inr []"
| "candidate_scores state (hash # hashes) =
    rbind (ok_or (MissingBlock hash) (lookup (dag_blocks (cs_dag state)) hash)) (\<lambda>candidate.
    rbind (ok_or (MissingBlueWork hash) (lookup (dag_blue_work (cs_dag state)) hash)) (\<lambda>blue_work.
    rbind (candidate_scores state hashes) (\<lambda>rest.
    Inr ((hash, \<lparr>ss_blue_work = blue_work, ss_blue_score = h_blue_score (b_header candidate),
      ss_height = h_height (b_header candidate), ss_hash = hash\<rparr>) # rest))))"

fun count_anticone ::
  "ChainState \<Rightarrow> GhostdagV1Limits \<Rightarrow> Hash \<Rightarrow> Hash list \<Rightarrow> nat \<Rightarrow> nat \<Rightarrow> GhostdagV1Error + (nat \<times> nat)" where
  "count_anticone state limits candidate [] anticone_blues visits = Inr (anticone_blues, visits)"
| "count_anticone state limits candidate (blue # blues) anticone_blues visits =
    rbind (are_related_bounded candidate blue state visits (li_max_relation_visits limits))
      (\<lambda>(related, visits').
    if \<not> related then
      if anticone_blues + 1 \<ge> li_k limits then Inr (anticone_blues + 1, visits')
      else count_anticone state limits candidate blues (anticone_blues + 1) visits'
    else count_anticone state limits candidate blues anticone_blues visits')"

fun classify_bounded_loop ::
  "ChainState \<Rightarrow> GhostdagV1Limits \<Rightarrow> Hash list \<Rightarrow> Hash list \<Rightarrow> Hash list \<Rightarrow> nat \<Rightarrow>
    GhostdagV1Error + (Hash list \<times> Hash list \<times> nat)" where
  "classify_bounded_loop state limits [] blues reds visits = Inr (blues, reds, visits)"
| "classify_bounded_loop state limits (candidate # rest) blues reds visits =
    rbind (count_anticone state limits candidate blues 0 visits) (\<lambda>(anticone_blues, visits').
    if anticone_blues < li_k limits
    then classify_bounded_loop state limits rest (blues @ [candidate]) reds visits'
    else classify_bounded_loop state limits rest blues (reds @ [candidate]) visits')"

definition classify_merge_set_with_limits ::
  "crypto \<Rightarrow> Block \<Rightarrow> ChainState \<Rightarrow> GhostdagV1Limits \<Rightarrow> GhostdagV1Error + GhostdagV1Classification" where
  "classify_merge_set_with_limits C block state limits =
    rbind (calculate_bounded_merge_set_with_limits block state limits) (\<lambda>bounded.
    rbind (candidate_scores state (bm_merge_set bounded)) (\<lambda>candidates.
    let merge_set = map fst (sort_by (\<lambda>a b. compare_selection_scores_v1 (snd b) (snd a)) candidates)
    in
    rbind (classify_bounded_loop state limits merge_set [] [] 0) (\<lambda>(blues, reds, relation_visits).
    rbind (derive_score_work_v1 (bm_selected_parent bounded) blues state) (\<lambda>(blue_score, blue_work).
    Inr \<lparr>gc_selected_parent = bm_selected_parent bounded, gc_merge_set = merge_set, gc_blues = blues,
      gc_reds = reds, gc_blue_score = blue_score, gc_blue_work = blue_work, gc_k = li_k limits,
      gc_ancestor_visits = bm_ancestor_visits bounded, gc_relation_visits = relation_visits,
      gc_classification_digest =
        classification_digest C (bm_selected_parent bounded) merge_set blues reds (li_k limits)\<rparr>))))"

definition classify_merge_set_v1 ::
  "crypto \<Rightarrow> Block \<Rightarrow> ChainState \<Rightarrow> GhostdagV1Error + GhostdagV1Classification" where
  "classify_merge_set_v1 C block state = classify_merge_set_with_limits C block state default_limits"

section \<open>Pasts\<close>

definition edges :: "ChainState \<Rightarrow> (Hash \<times> Hash) set" where
  "edges s = {(c, p). p \<in> set (parents_of s c)}"

text \<open>The inclusive past of a block: everything reachable through parents.\<close>

definition past :: "ChainState \<Rightarrow> Hash \<Rightarrow> Hash set" where
  "past s h = {x. (h, x) \<in> (edges s)\<^sup>*}"

lemma past_self [simp]: "h \<in> past s h" by (simp add: past_def)

lemma past_step: "c \<in> past s h \<Longrightarrow> p \<in> set (parents_of s c) \<Longrightarrow> p \<in> past s h"
  by (auto simp: past_def edges_def intro: rtrancl_into_rtrancl)

lemma past_closed:
  assumes "h \<in> S" "\<And>c. c \<in> S \<Longrightarrow> set (parents_of s c) \<subseteq> S"
  shows "past s h \<subseteq> S"
proof
  fix x assume "x \<in> past s h"
  then have "(h, x) \<in> (edges s)\<^sup>*" by (simp add: past_def)
  then show "x \<in> S" by induction (use assms in \<open>auto simp: edges_def\<close>)
qed

lemma past_trans: "x \<in> past s h \<Longrightarrow> past s x \<subseteq> past s h"
  by (auto simp: past_def)

lemma finite_past [simp]: "finite (past s h)"
proof (rule finite_subset)
  show "past s h \<subseteq> insert h (all_parents s)"
    using parents_of_subset by (intro past_closed) auto
qed simp

text \<open>
  The invariant of a search from \<open>h\<close>: what has been seen and what is pending lies in the past of \<open>h\<close>, the root
  is among them, and the parents of what has been seen are too.
\<close>

definition search_inv :: "ChainState \<Rightarrow> Hash \<Rightarrow> Hash set \<Rightarrow> Hash set \<Rightarrow> bool" where
  "search_inv s h seen pending \<longleftrightarrow> seen \<subseteq> past s h \<and> pending \<subseteq> past s h \<and> h \<in> seen \<union> pending
    \<and> (\<forall>c \<in> seen. set (parents_of s c) \<subseteq> seen \<union> pending)"

lemma search_inv_init: "search_inv s h {} {h}"
  by (simp add: search_inv_def)

lemma search_inv_done: "search_inv s h seen {} \<Longrightarrow> seen = past s h"
  using past_closed [of h seen s] by (auto simp: search_inv_def)

lemma search_inv_skip: "search_inv s h seen (insert c pending) \<Longrightarrow> c \<in> seen \<Longrightarrow> search_inv s h seen pending"
  by (auto simp: search_inv_def)

lemma search_inv_visit:
  assumes "search_inv s h seen (insert c pending)"
    and "pending' \<subseteq> pending \<union> set (parents_of s c)"
    and "pending \<union> set (parents_of s c) \<subseteq> insert c seen \<union> pending'"
  shows "search_inv s h (insert c seen) pending'"
  unfolding search_inv_def
proof (intro conjI ballI)
  have c: "c \<in> past s h" "seen \<subseteq> past s h" "pending \<subseteq> past s h" using assms(1) by (auto simp: search_inv_def)
  then have "set (parents_of s c) \<subseteq> past s h" using past_step by blast
  with c assms(2) show "insert c seen \<subseteq> past s h" "pending' \<subseteq> past s h" by auto
  show "h \<in> insert c seen \<union> pending'" using assms(1,3) by (auto simp: search_inv_def)
  fix x assume x: "x \<in> insert c seen"
  show "set (parents_of s x) \<subseteq> insert c seen \<union> pending'"
  proof (cases "x = c")
    case False
    with x assms(1) have "set (parents_of s x) \<subseteq> insert c (seen \<union> pending)" by (auto simp: search_inv_def)
    with assms(3) show ?thesis by blast
  qed (use assms(3) in blast)
qed

lemma ancestors_loop_past:
  "search_inv s h (set seen) (set stack) \<Longrightarrow> set (ancestors_loop s seen stack) = past s h"
proof (induction s seen stack rule: ancestors_loop.induct)
  case (1 s seen)
  then show ?case by (simp add: search_inv_done)
next
  case (2 s seen c stack)
  show ?case
  proof (cases "c \<in> set seen")
    case True
    with 2 show ?thesis by (simp add: search_inv_skip)
  next
    case False
    have "search_inv s h (set (c # seen)) (set (rev (parents_of s c) @ stack))"
      using 2(3) by (simp, intro search_inv_visit) auto
    with 2 False show ?thesis by simp
  qed
qed

lemma set_ancestors_inclusive: "set (ancestors_inclusive h s) = past s h"
  unfolding ancestors_inclusive_def by (rule ancestors_loop_past) (simp add: search_inv_init)

lemma is_ancestor_loop_past:
  "search_inv s h (set seen) (set stack) \<Longrightarrow> c \<notin> set seen \<Longrightarrow> is_ancestor_loop c s seen stack \<longleftrightarrow> c \<in> past s h"
proof (induction c s seen stack rule: is_ancestor_loop.induct)
  case (1 c s seen)
  then show ?case using search_inv_done [of s h "set seen"] by simp
next
  case (2 c s seen x stack)
  consider "x \<in> set seen" | "x \<notin> set seen" "x = c" | "x \<notin> set seen" "x \<noteq> c" by blast
  then show ?case
  proof cases
    case 1
    with 2 show ?thesis by (simp add: search_inv_skip)
  next
    case 2
    with "2.prems" show ?thesis by (auto simp: search_inv_def)
  next
    case 3
    have "search_inv s h (set (x # seen)) (set (rev (parents_of s x) @ stack))"
      using "2.prems"(1) by (simp, intro search_inv_visit) auto
    with 2 3 show ?thesis by simp
  qed
qed

lemma is_ancestor_of_past: "is_ancestor_of c d s \<longleftrightarrow> c \<in> past s d"
  using is_ancestor_loop_past [of s d "[]" "[d]" c] by (auto simp: is_ancestor_of_def search_inv_init)

definition related :: "ChainState \<Rightarrow> Hash \<Rightarrow> Hash \<Rightarrow> bool" where
  "related s a b \<longleftrightarrow> a \<in> past s b \<or> b \<in> past s a"

lemma are_related_iff: "are_related a b s \<longleftrightarrow> related s a b"
  by (simp add: are_related_def is_ancestor_of_past related_def)

section \<open>Bounded search\<close>

lemma set_insert_unseen: "set (insert_unseen seen ps pending) = set pending \<union> (set ps - set seen)"
  unfolding insert_unseen_def
  by (induction ps arbitrary: pending) (auto simp: set_insort_insert)

lemma btree_insert_unseen: "btree pending \<Longrightarrow> btree (insert_unseen seen ps pending)"
  unfolding insert_unseen_def by (induction ps arbitrary: pending) auto

definition known :: "ChainState \<Rightarrow> Hash \<Rightarrow> bool" where
  "known s h \<longleftrightarrow> contains_key (dag_blocks (cs_dag s)) h"

lemma parents_of_Some: "lookup (dag_blocks (cs_dag s)) h = Some b \<Longrightarrow> parents_of s h = h_parents (b_header b)"
  by (simp add: parents_of_def)

lemma btree_eq_sorted_list: "btree xs \<Longrightarrow> xs = sorted_list_of_set (set xs)"
  by (simp add: btree_def sorted_list_of_set.idem_if_sorted_distinct)

lemma ancestors_bounded_loop_exact:
  assumes "search_inv s h (set seen) (set pending)" "btree seen" "btree pending"
    "set seen \<inter> set pending = {}" "v \<le> m"
  shows "ancestors_bounded_loop s m seen pending v = Inr (res, v') \<longleftrightarrow>
    (\<forall>x \<in> past s h - set seen. known s x) \<and> v + card (past s h - set seen) \<le> m
    \<and> res = sorted_list_of_set (past s h) \<and> v' = v + card (past s h - set seen)"
  using assms
proof (induction s m seen pending v rule: ancestors_bounded_loop.induct)
  case (1 s m seen v)
  then have "set seen = past s h" using search_inv_done [of s h "set seen"] by simp
  with 1 btree_eq_sorted_list [of seen] show ?case by auto
next
  case (2 s m seen c pending v)
  have c: "c \<notin> set seen" "c \<in> past s h" using "2.prems" by (auto simp: search_inv_def)
  have fin: "finite (past s h - set seen)" by simp
  define U where "U = past s h - set seen"
  have cU: "c \<in> U" "finite U" using c by (simp_all add: U_def)
  show ?case
  proof (cases "m \<le> v")
    case True
    have "0 < card U" using cU by (auto simp: card_gt_0_iff)
    with True c show ?thesis by (auto simp: consume_visit_def U_def [symmetric])
  next
    case False
    show ?thesis
    proof (cases "lookup (dag_blocks (cs_dag s)) c")
      case None
      then have "\<not> known s c" by (simp add: known_def)
      with None False c cU show ?thesis by (auto simp: consume_visit_def U_def [symmetric])
    next
      case (Some b)
      define seen' where "seen' = insort_insert c seen"
      define pending' where "pending' = insert_unseen seen' (h_parents (b_header b)) pending"
      have seen': "set seen' = insert c (set seen)" "btree seen'"
        using "2.prems" by (simp_all add: seen'_def set_insort_insert)
      have p': "set pending' = set pending \<union> (set (parents_of s c) - set seen')"
        by (simp add: pending'_def set_insert_unseen parents_of_Some [OF Some])
      have cp: "c \<notin> set pending" using "2.prems"(3) by (simp add: btree_def)
      have inv: "search_inv s h (set seen') (set pending')"
        unfolding seen'(1) by (rule search_inv_visit [where pending = "set pending"])
          (use "2.prems"(1) p' seen'(1) in auto)
      have bt: "btree pending'" using "2.prems"(3) btree_tl [of "c # pending"]
        by (auto simp: pending'_def intro!: btree_insert_unseen)
      have dis: "set seen' \<inter> set pending' = {}" using "2.prems"(4) cp by (auto simp: p' seen'(1))
      have U': "past s h - set seen' = U - {c}" by (auto simp: U_def seen'(1))
      have card: "card U = Suc (card (U - {c}))" by (rule card.remove [OF cU(2,1)])
      have kc: "known s c" using Some by (simp add: known_def)
      have rec: "ancestors_bounded_loop s m seen (c # pending) v = ancestors_bounded_loop s m seen' pending' (v + 1)"
        using False Some c by (simp add: consume_visit_def seen'_def pending'_def Let_def)
      have "ancestors_bounded_loop s m seen' pending' (v + 1) = Inr (res, v') \<longleftrightarrow>
        (\<forall>x \<in> past s h - set seen'. known s x) \<and> v + 1 + card (past s h - set seen') \<le> m
        \<and> res = sorted_list_of_set (past s h) \<and> v' = v + 1 + card (past s h - set seen')"
        using "2.IH"(2) [OF c(1) _ Some, of "v + 1" seen'] False inv seen' bt dis
        by (simp add: consume_visit_def seen'_def pending'_def)
      also have "\<dots> \<longleftrightarrow> (\<forall>x \<in> U. known s x) \<and> v + card U \<le> m
        \<and> res = sorted_list_of_set (past s h) \<and> v' = v + card U"
        unfolding U' card using kc by auto
      finally show ?thesis unfolding rec U_def .
    qed
  qed
qed

lemma ancestors_inclusive_bounded_exact:
  assumes "v \<le> m"
  shows "ancestors_inclusive_bounded h s v m = Inr (res, v') \<longleftrightarrow>
    (\<forall>x \<in> past s h. known s x) \<and> v + card (past s h) \<le> m
    \<and> res = sorted_list_of_set (past s h) \<and> v' = v + card (past s h)"
  unfolding ancestors_inclusive_bounded_def
  using ancestors_bounded_loop_exact [of s h "[]" "[h]" v m res v'] assms search_inv_init
  by (simp add: btree_def)

lemma is_ancestor_bounded_loop_sound:
  assumes "search_inv s h (set seen) (set pending)" "a \<notin> set seen"
    and "is_ancestor_bounded_loop a s m seen pending v = Inr (r, v')"
  shows "r \<longleftrightarrow> a \<in> past s h"
  using assms
proof (induction a s m seen pending v rule: is_ancestor_bounded_loop.induct)
  case (1 a s m seen v)
  then show ?case using search_inv_done [of s h "set seen"] by simp
next
  case (2 a s m seen c pending v)
  consider "c \<in> set seen" | "c \<notin> set seen" "c = a" | "c \<notin> set seen" "c \<noteq> a" by blast
  then show ?case
  proof cases
    case 1
    with 2 show ?thesis by (simp add: search_inv_skip)
  next
    case 2
    with "2.prems" show ?thesis by (auto simp: search_inv_def consume_visit_def split: if_splits)
  next
    case 3
    then obtain b where b: "lookup (dag_blocks (cs_dag s)) c = Some b" "v < m"
      using "2.prems"(3) by (auto simp: consume_visit_def split: if_splits option.splits)
    define seen' where "seen' = insort_insert c seen"
    define pending' where "pending' = insert_unseen seen' (h_parents (b_header b)) pending"
    have seen': "set seen' = insert c (set seen)" by (simp add: seen'_def set_insort_insert)
    have inv: "search_inv s h (set seen') (set pending')"
      unfolding seen' by (rule search_inv_visit [where pending = "set pending"])
        (use "2.prems"(1) seen' in \<open>auto simp: pending'_def set_insert_unseen parents_of_Some [OF b(1)]\<close>)
    have "is_ancestor_bounded_loop a s m seen' pending' (v + 1) = Inr (r, v')"
      using "2.prems"(3) 3 b by (simp add: consume_visit_def seen'_def pending'_def Let_def)
    with "2.IH"(2) [OF 3(1) _ 3(2) b(1), of "v + 1" seen'] inv "2.prems"(2) b 3 show ?thesis
      by (simp add: consume_visit_def seen'_def pending'_def seen' [unfolded seen'_def])
  qed
qed

lemma are_related_bounded_sound:
  assumes "are_related_bounded a b s v m = Inr (r, v')"
  shows "r \<longleftrightarrow> related s a b"
proof -
  have one: "q \<longleftrightarrow> x \<in> past s y" if "is_ancestor_bounded x y s w m = Inr (q, w')" for x y w q w'
    using that is_ancestor_bounded_loop_sound [of s y "[]" "[y]" x m w q w'] search_inv_init
    by (auto simp: is_ancestor_bounded_def split: if_splits)
  show ?thesis
    using assms one by (fastforce simp: are_related_bounded_def result_simps related_def split: if_splits)
qed


section \<open>Merge sets\<close>

definition reference_merge_set :: "ChainState \<Rightarrow> Hash list \<Rightarrow> Hash \<Rightarrow> Hash set" where
  "reference_merge_set s ps sp = (\<Union>p \<in> set ps. past s p) - past s sp"

lemma finite_reference [simp]: "finite (reference_merge_set s ps sp)"
  by (simp add: reference_merge_set_def)

lemma btree_sorted_list_of_set [simp]: "btree (sorted_list_of_set (A :: Hash set))"
  by (simp add: btree_def)

lemma length_btree: "btree xs \<Longrightarrow> length xs = card (set xs)"
  by (simp add: btree_def distinct_card)

lemma fold_insort_insert_sorted:
  "btree acc \<Longrightarrow> fold insort_insert xs acc = sorted_list_of_set (set xs \<union> set acc)" for acc :: "Hash list"
proof (induction xs arbitrary: acc)
  case Nil
  then show ?case using btree_eq_sorted_list by simp
next
  case (Cons x xs)
  have "btree (insort_insert x acc)" using Cons.prems by simp
  from Cons.IH [OF this] show ?case by (simp add: set_insort_insert)
qed

lemma calculate_merge_set_exact:
  assumes "calculate_selected_parent b s = Some sp"
  shows "calculate_merge_set b s = sorted_list_of_set (reference_merge_set s (h_parents (b_header b)) sp)"
proof -
  have "{x \<in> (\<Union>p \<in> {p \<in> set (h_parents (b_header b)). p \<noteq> sp}. past s p). x \<notin> past s sp}
      = reference_merge_set s (h_parents (b_header b)) sp"
    by (auto simp: reference_merge_set_def)
  then show ?thesis
    using assms by (simp add: calculate_merge_set_def Let_def fold_insort_insert_sorted btree_def
        set_ancestors_inclusive)
qed

lemma collect_ancestors_exact:
  assumes "btree ms" "length ms \<le> m"
  shows "collect_ancestors m pst as ms = Inr res \<longleftrightarrow>
    card (set ms \<union> (set as - set pst)) \<le> m \<and> res = sorted_list_of_set (set ms \<union> (set as - set pst))"
  using assms
proof (induction m pst as ms rule: collect_ancestors.induct)
  case (1 m pst ms)
  then show ?case using btree_eq_sorted_list [of ms] length_btree [of ms] by auto
next
  case (2 m pst a as ms)
  show ?case
  proof (cases "a \<in> set pst")
    case True
    with 2 show ?thesis by (simp add: insert_Diff_if)
  next
    case False
    define ms' where "ms' = insort_insert a ms"
    have ms': "btree ms'" "set ms' = insert a (set ms)" using 2 by (simp_all add: ms'_def set_insort_insert)
    have U: "set ms \<union> (set (a # as) - set pst) = set ms' \<union> (set as - set pst)" using False by (auto simp: ms'(2))
    show ?thesis
    proof (cases "length ms' > m")
      case True
      have "card (set ms') \<le> card (set ms' \<union> (set as - set pst))" by (intro card_mono) auto
      with True have "\<not> card (set ms \<union> (set (a # as) - set pst)) \<le> m"
        unfolding U using length_btree [OF ms'(1)] by simp
      with True False show ?thesis by (simp add: ms'_def)
    next
      case fits: False
      have "collect_ancestors m pst (a # as) ms = collect_ancestors m pst as ms'"
        using False fits by (simp add: ms'_def)
      with "2.IH"(2) [OF False ms'_def] fits ms' show ?thesis unfolding U by simp
    qed
  qed
qed

definition visit_total :: "ChainState \<Rightarrow> Hash \<Rightarrow> Hash list \<Rightarrow> nat" where
  "visit_total s sp ps = (\<Sum>p \<leftarrow> filter (\<lambda>p. p \<noteq> sp) ps. card (past s p))"

lemma collect_parents_exact:
  assumes "btree ms" "length ms \<le> li_max_merge_set_blocks L" "v \<le> li_max_ancestor_visits L"
    and pst: "set pst = past s sp"
  shows "collect_parents s L sp pst ps ms v = Inr (res, v') \<longleftrightarrow>
    (\<forall>p \<in> set ps - {sp}. \<forall>x \<in> past s p. known s x) \<and> v + visit_total s sp ps \<le> li_max_ancestor_visits L
    \<and> card (set ms \<union> reference_merge_set s ps sp) \<le> li_max_merge_set_blocks L
    \<and> res = sorted_list_of_set (set ms \<union> reference_merge_set s ps sp) \<and> v' = v + visit_total s sp ps"
  using assms(1-3)
proof (induction ps arbitrary: ms v)
  case Nil
  then show ?case using btree_eq_sorted_list [of ms] length_btree [of ms]
    by (auto simp: reference_merge_set_def visit_total_def)
next
  case (Cons p ps)
  show ?case
  proof (cases "p = sp")
    case True
    then have "reference_merge_set s (p # ps) sp = reference_merge_set s ps sp"
      by (auto simp: reference_merge_set_def)
    moreover have "set (p # ps) - {sp} = set ps - {sp}" "visit_total s sp (p # ps) = visit_total s sp ps"
      using True by (auto simp: visit_total_def)
    ultimately show ?thesis using Cons True by simp
  next
    case False
    define A where "A = past s p - past s sp"
    define v1 where "v1 = v + card (past s p)"
    define ms1 where "ms1 = sorted_list_of_set (set ms \<union> A)"
    have ms1: "btree ms1" "set ms1 = set ms \<union> A" by (simp_all add: ms1_def A_def)
    have M: "set ms \<union> reference_merge_set s (p # ps) sp = set ms1 \<union> reference_merge_set s ps sp"
      by (auto simp: ms1(2) A_def reference_merge_set_def)
    have V: "visit_total s sp (p # ps) = card (past s p) + visit_total s sp ps"
      using False by (simp add: visit_total_def)
    have K: "(\<forall>q \<in> set (p # ps) - {sp}. \<forall>x \<in> past s q. known s x) \<longleftrightarrow>
        (\<forall>x \<in> past s p. known s x) \<and> (\<forall>q \<in> set ps - {sp}. \<forall>x \<in> past s q. known s x)"
      using False by auto
    have anc: "ancestors_inclusive_bounded p s v (li_max_ancestor_visits L) = Inr (as, w) \<longleftrightarrow>
        (\<forall>x \<in> past s p. known s x) \<and> v1 \<le> li_max_ancestor_visits L
        \<and> as = sorted_list_of_set (past s p) \<and> w = v1" for as w
      using ancestors_inclusive_bounded_exact [OF Cons.prems(3)] by (simp add: v1_def)
    have col: "collect_ancestors (li_max_merge_set_blocks L) pst (sorted_list_of_set (past s p)) ms = Inr x
        \<longleftrightarrow> card (set ms1) \<le> li_max_merge_set_blocks L \<and> x = ms1" for x
      using collect_ancestors_exact [OF Cons.prems(1,2), of pst "sorted_list_of_set (past s p)" x]
      by (simp add: pst A_def [symmetric] ms1(2)) (simp add: ms1_def)
    have mono: "card (set ms1) \<le> card (set ms1 \<union> reference_merge_set s ps sp)" by (intro card_mono) auto
    show ?thesis
    proof (cases "(\<forall>x \<in> past s p. known s x) \<and> v1 \<le> li_max_ancestor_visits L
        \<and> card (set ms1) \<le> li_max_merge_set_blocks L")
      case True
      have "collect_parents s L sp pst (p # ps) ms v = collect_parents s L sp pst ps ms1 v1"
        using False anc [of "sorted_list_of_set (past s p)" v1] col [of ms1] True by simp
      moreover have "length ms1 \<le> li_max_merge_set_blocks L" using True length_btree [OF ms1(1)] by simp
      ultimately show ?thesis
        using Cons.IH [OF ms1(1), of v1] True unfolding M V K by (auto simp: v1_def)
    next
      case no: False
      have "collect_parents s L sp pst (p # ps) ms v \<noteq> Inr (res, v')"
        using False no anc col by (auto simp: result_simps)
      moreover have "\<not> ((\<forall>x \<in> past s p. known s x) \<and> v + (card (past s p) + visit_total s sp ps) \<le> li_max_ancestor_visits L
        \<and> card (set ms1 \<union> reference_merge_set s ps sp) \<le> li_max_merge_set_blocks L)"
        using no mono by (auto simp: v1_def)
      ultimately show ?thesis unfolding M V K by blast
    qed
  qed
qed

lemma calculate_bounded_merge_set_iff:
  assumes sp: "calculate_selected_parent_v1 b s = Inr (Some sp)"
  defines "ps \<equiv> h_parents (b_header b)"
  shows "calculate_bounded_merge_set_with_limits b s L = Inr r \<longleftrightarrow>
    (\<forall>p \<in> set ps. \<forall>x \<in> past s p. known s x)
    \<and> (\<Sum>p \<leftarrow> ps. card (past s p)) \<le> li_max_ancestor_visits L
    \<and> card (reference_merge_set s ps sp) \<le> li_max_merge_set_blocks L
    \<and> r = \<lparr>bm_selected_parent = Some sp, bm_merge_set = sorted_list_of_set (reference_merge_set s ps sp),
        bm_ancestor_visits = (\<Sum>p \<leftarrow> ps. card (past s p))\<rparr>"
proof -
  have spp: "distinct ps" "sp \<in> set ps"
    using sp max_score [of s ps "Some sp"]
    by (auto simp: calculate_selected_parent_v1_def result_simps parent_scores_Inr ps_def best_def split: if_splits)
  have "visit_total s sp (sort ps) = (\<Sum>p \<in> set ps - {sp}. card (past s p))"
  proof -
    have "set (filter (\<lambda>p. p \<noteq> sp) (sort ps)) = set ps - {sp}" by auto
    then show ?thesis
      using spp(1) by (simp add: visit_total_def sum_list_distinct_conv_sum_set)
  qed
  then have total: "(\<Sum>p \<leftarrow> ps. card (past s p)) = card (past s sp) + visit_total s sp (sort ps)"
    using sum.remove [OF _ spp(2), of "\<lambda>p. card (past s p)"] spp(1) by (simp add: sum_list_distinct_conv_sum_set)
  have ref: "reference_merge_set s (sort ps) sp = reference_merge_set s ps sp"
    by (simp add: reference_merge_set_def)
  have known_all: "(\<forall>p \<in> set ps. \<forall>x \<in> past s p. known s x) \<longleftrightarrow>
      (\<forall>x \<in> past s sp. known s x) \<and> (\<forall>p \<in> set (sort ps) - {sp}. \<forall>x \<in> past s p. known s x)"
    using spp by auto
  have anc: "ancestors_inclusive_bounded sp s 0 (li_max_ancestor_visits L) = Inr (as, w) \<longleftrightarrow>
      (\<forall>x \<in> past s sp. known s x) \<and> card (past s sp) \<le> li_max_ancestor_visits L
      \<and> as = sorted_list_of_set (past s sp) \<and> w = card (past s sp)" for as w
    using ancestors_inclusive_bounded_exact [of 0] by simp
  have col: "collect_parents s L sp (sorted_list_of_set (past s sp)) (sort ps) [] (card (past s sp)) = Inr (res, v')
      \<longleftrightarrow> (\<forall>p \<in> set (sort ps) - {sp}. \<forall>x \<in> past s p. known s x)
        \<and> (\<Sum>p \<leftarrow> ps. card (past s p)) \<le> li_max_ancestor_visits L
        \<and> card (reference_merge_set s ps sp) \<le> li_max_merge_set_blocks L
        \<and> res = sorted_list_of_set (reference_merge_set s ps sp) \<and> v' = (\<Sum>p \<leftarrow> ps. card (past s p))"
    if "card (past s sp) \<le> li_max_ancestor_visits L" for res v'
    using collect_parents_exact [of "[]" L "card (past s sp)" "sorted_list_of_set (past s sp)" s sp "sort ps"] that
    unfolding ref total by (simp add: btree_def)
  show ?thesis
    using sp unfolding known_all
    by (auto simp: calculate_bounded_merge_set_with_limits_def result_simps anc col ps_def [symmetric] total)
qed

lemma merge_set_bounded:
  assumes "calculate_bounded_merge_set_with_limits b s L = Inr m"
  shows "length (bm_merge_set m) \<le> li_max_merge_set_blocks L"
proof -
  from assms obtain r where r: "calculate_selected_parent_v1 b s = Inr r"
    by (auto simp: calculate_bounded_merge_set_with_limits_def result_simps)
  show ?thesis
  proof (cases r)
    case None
    with r assms show ?thesis by (auto simp: calculate_bounded_merge_set_with_limits_def)
  next
    case (Some sp)
    with r have "calculate_selected_parent_v1 b s = Inr (Some sp)" by simp
    from calculate_bounded_merge_set_iff [OF this, of L m] assms show ?thesis by auto
  qed
qed

section \<open>Greedy classification\<close>

definition anticone :: "ChainState \<Rightarrow> Hash \<Rightarrow> Hash list \<Rightarrow> nat" where
  "anticone s x bs = length (filter (\<lambda>b. \<not> related s x b) bs)"

definition blue_cluster :: "ChainState \<Rightarrow> nat \<Rightarrow> Hash list \<Rightarrow> bool" where
  "blue_cluster s k bs \<longleftrightarrow> (\<forall>i < length bs. anticone s (bs ! i) (take i bs) < k)"

definition red_witnessed :: "ChainState \<Rightarrow> nat \<Rightarrow> Hash list \<Rightarrow> Hash list \<Rightarrow> bool" where
  "red_witnessed s k bs rs \<longleftrightarrow> list_all (\<lambda>r. k \<le> anticone s r bs) rs"

lemma blue_cluster_snoc:
  "blue_cluster s k bs \<Longrightarrow> anticone s c bs < k \<Longrightarrow> blue_cluster s k (bs @ [c])"
  by (auto simp: blue_cluster_def nth_append less_Suc_eq)

lemma red_witnessed_blue: "red_witnessed s k bs rs \<Longrightarrow> red_witnessed s k (bs @ [c]) rs"
  by (auto simp: red_witnessed_def list_all_iff anticone_def)

lemma classify_loop_greedy:
  assumes "classify_loop s k cs bs rs = (bs', rs')" "blue_cluster s k bs" "red_witnessed s k bs rs"
  shows "mset bs' + mset rs' = mset bs + mset rs + mset cs \<and> blue_cluster s k bs' \<and> red_witnessed s k bs' rs'"
  using assms
proof (induction s k cs bs rs rule: classify_loop.induct)
  case (2 s k c cs bs rs)
  have eq: "length (filter (\<lambda>blue. \<not> are_related c blue s) bs) = anticone s c bs"
    by (simp add: anticone_def are_related_iff)
  show ?case
  proof (cases "anticone s c bs < k")
    case True
    with "2.IH"(1) [OF refl] "2.prems" show ?thesis
      by (simp add: eq blue_cluster_snoc red_witnessed_blue)
  next
    case False
    then have "red_witnessed s k bs (rs @ [c])" using "2.prems"(3) by (simp add: red_witnessed_def)
    with "2.IH"(2) [OF refl] "2.prems" False show ?thesis by (simp add: eq)
  qed
qed simp

lemma count_anticone_exact:
  assumes "count_anticone s L c bs n v = Inr (m, v')" "n < li_k L \<or> n = 0"
  shows "m < li_k L \<longleftrightarrow> n + anticone s c bs < li_k L"
  using assms
proof (induction s L c bs n v rule: count_anticone.induct)
  case (2 s L c b bs n v)
  from "2.prems"(1) obtain r w where rel: "are_related_bounded c b s v (li_max_relation_visits L) = Inr (r, w)"
    by (auto simp: result_simps)
  have r: "r \<longleftrightarrow> related s c b" using are_related_bounded_sound [OF rel] .
  show ?case
    using "2.IH" [OF rel refl] "2.prems" rel r by (auto simp: anticone_def split: if_splits)
qed (simp add: anticone_def)

lemma classify_bounded_loop_exact:
  "classify_bounded_loop s L cs bs rs v = Inr (bs', rs', v') \<Longrightarrow> (bs', rs') = classify_loop s (li_k L) cs bs rs"
proof (induction s L cs bs rs v rule: classify_bounded_loop.induct)
  case (2 s L c cs bs rs v)
  from "2.prems" obtain m w where m: "count_anticone s L c bs 0 v = Inr (m, w)"
    by (auto simp: result_simps)
  have "m < li_k L \<longleftrightarrow> length (filter (\<lambda>blue. \<not> are_related c blue s) bs) < li_k L"
    using count_anticone_exact [OF m] by (simp add: anticone_def are_related_iff)
  then show ?case using "2.IH" [OF m refl] "2.prems" m by (auto split: if_splits)
qed simp

lemma candidate_scores_Inr:
  "candidate_scores s hs = Inr xs \<Longrightarrow> xs = map (\<lambda>h. (h, score s h)) hs"
  by (induction hs arbitrary: xs) (auto simp: result_simps score_def)

lemma candidates_order:
  "comparison (\<lambda>(a :: Hash \<times> SelectionScoreV1) b. compare_selection_scores_v1 (snd b) (snd a))"
  by (rule comparison_flip, rule comparison_key, rule score_order.comparison_axioms)

lemma candidates_sorted:
  assumes "xs = map (\<lambda>h. (h, score s h)) hs"
    and "ms = map fst (sort_by (\<lambda>a b. compare_selection_scores_v1 (snd b) (snd a)) xs)"
  shows "mset ms = mset hs"
    "sorted_wrt (\<lambda>x y. compare_selection_scores_v1 (score s y) (score s x) \<noteq> Greater) ms"
proof -
  define ys where "ys = sort_by (\<lambda>a b. compare_selection_scores_v1 (snd b) (snd a)) xs"
  have m: "mset ys = mset xs" unfolding ys_def by (rule comparison.mset_sort_by [OF candidates_order])
  then have "mset (map fst ys) = mset (map fst xs)" by simp
  then show "mset ms = mset hs" using assms by (simp add: ys_def comp_def)
  have "y \<in> set ys \<Longrightarrow> snd y = score s (fst y)" for y
    using mset_eq_setD [OF m] assms(1) by auto
  moreover have "sorted_wrt (\<lambda>x y. compare_selection_scores_v1 (snd y) (snd x) \<noteq> Greater) ys"
    unfolding ys_def by (rule comparison.sorted_sort_by [OF candidates_order])
  ultimately have "sorted_wrt (\<lambda>x y. compare_selection_scores_v1 (score s (fst y)) (score s (fst x)) \<noteq> Greater) ys"
    by (auto elim!: sorted_wrt_mono_rel [rotated])
  then show "sorted_wrt (\<lambda>x y. compare_selection_scores_v1 (score s y) (score s x) \<noteq> Greater) ms"
    using assms(2) by (simp add: ys_def sorted_wrt_map)
qed

lemma derive_score_work_bounds:
  assumes "derive_score_work_v1 sp blues s = Inr (sc, w)" "length blues < 2 ^ 128"
  shows "unat sc = min (2 ^ 64 - 1) ((case sp of None \<Rightarrow> 0 | Some p \<Rightarrow> unat (ss_blue_score (score s p))) + 1 + length blues)"
    "unat w = min (2 ^ 128 - 1) ((case sp of None \<Rightarrow> 0 | Some p \<Rightarrow> unat (ss_blue_work (score s p))) + 1 + length blues)"
proof -
  have len: "unat (of_nat (length blues) :: u128) = length blues"
    using assms(2) by (intro unat_word_of_nat_small) simp
  have cnt: "unat ((case try_from_nat (length blues) of None \<Rightarrow> - 1 | Some n \<Rightarrow> n) :: u64) = min (2 ^ 64 - 1) (length blues)"
  proof (cases "try_from_nat (length blues) :: u64 option")
    case None
    then have "2 ^ 64 \<le> length blues"
      by (auto simp: try_from_nat_def split: if_splits)
    with None show ?thesis by (simp add: unat_minus_one_word)
  next
    case (Some n)
    then have "unat n = length blues" by (simp add: mach)
    with Some unat_u64_bound [of n] show ?thesis by simp
  qed
  have eq: "sc = saturating_add (saturating_add (case sp of None \<Rightarrow> 0 | Some p \<Rightarrow> ss_blue_score (score s p)) 1)
        (case try_from_nat (length blues) of None \<Rightarrow> - 1 | Some n \<Rightarrow> n)"
      "w = saturating_add (saturating_add (case sp of None \<Rightarrow> 0 | Some p \<Rightarrow> ss_blue_work (score s p)) 1)
        (of_nat (length blues))"
    using assms(1)
    by (cases sp; auto simp: derive_score_work_v1_def result_simps Let_def score_def simp del: of_nat_numeral)+
  show "unat sc = min (2 ^ 64 - 1) ((case sp of None \<Rightarrow> 0 | Some p \<Rightarrow> unat (ss_blue_score (score s p))) + 1 + length blues)"
    unfolding eq(1) unat_saturating_add cnt by (cases sp) (auto simp: min_def)
  show "unat w = min (2 ^ 128 - 1) ((case sp of None \<Rightarrow> 0 | Some p \<Rightarrow> unat (ss_blue_work (score s p))) + 1 + length blues)"
    unfolding eq(2) unat_saturating_add len by (cases sp) (auto simp: min_def)
qed

section \<open>Properties\<close>

text \<open>
  C12. Merge sets, exactly. The merge set of a block is what the pasts of its parents add to the past
  of its selected parent. The bounded calculator answers if and only if every block of those pasts is
  known, their sizes sum to at most the visit limit and the merge set has at most the limit's number
  of blocks, and its answer is then exactly that set in hash order with the exact number of visits.
  The legacy calculator returns the same set for its own selected parent.
\<close>

theorem merge_set_exact:
  assumes "calculate_selected_parent_v1 b s = Inr (Some sp)" "calculate_selected_parent b s = Some sp'"
  shows "(calculate_bounded_merge_set_with_limits b s L = Inr r \<longleftrightarrow>
      (\<forall>p \<in> set (h_parents (b_header b)). \<forall>x \<in> past s p. known s x)
      \<and> (\<Sum>p \<leftarrow> h_parents (b_header b). card (past s p)) \<le> li_max_ancestor_visits L
      \<and> card (reference_merge_set s (h_parents (b_header b)) sp) \<le> li_max_merge_set_blocks L
      \<and> r = \<lparr>bm_selected_parent = Some sp,
          bm_merge_set = sorted_list_of_set (reference_merge_set s (h_parents (b_header b)) sp),
          bm_ancestor_visits = (\<Sum>p \<leftarrow> h_parents (b_header b). card (past s p))\<rparr>)
    \<and> calculate_merge_set b s = sorted_list_of_set (reference_merge_set s (h_parents (b_header b)) sp')"
  using calculate_bounded_merge_set_iff [OF assms(1)] calculate_merge_set_exact [OF assms(2)] by blast

definition diamond_block :: "Hash \<Rightarrow> Hash list \<Rightarrow> u64 \<Rightarrow> Block" where
  "diamond_block h ps n = \<lparr>b_hash = h, b_header = \<lparr>h_version = 1, h_parents = ps, h_timestamp = n,
    h_difficulty = 1, h_nonce = 0, h_merkle_root = [], h_state_root = [], h_blue_score = n, h_height = n\<rparr>,
    b_transactions = []\<rparr>"

definition diamond :: ChainState where
  "diamond = blank_state\<lparr>cs_dag := (cs_dag blank_state)\<lparr>
    dag_blocks := [(''g'', diamond_block ''g'' [] 0), (''a'', diamond_block ''a'' [''g''] 1),
      (''b'', diamond_block ''b'' [''g''] 1)],
    dag_blue_work := [(''g'', 0), (''a'', 1), (''b'', 1)]\<rparr>\<rparr>"

definition diamond_limits :: GhostdagV1Limits where
  "diamond_limits = \<lparr>li_k = 2, li_max_ancestor_visits = 8, li_max_merge_set_blocks = 4,
    li_max_relation_visits = 8\<rparr>"

lemmas ghostdag_eval = diamond_def diamond_block_def diamond_limits_def blank_state_def Let_def
  calculate_selected_parent_v1_def GHOSTDAG_V1_MAX_PARENTS_def score_for_known_block_def
  compare_selection_scores_v1_def ancestors_inclusive_bounded_def consume_visit_def insert_unseen_def
  insort_insert_key_def cmp_def less_char_def then_with_def

lemma diamond_merge_set:
  "calculate_bounded_merge_set_with_limits (diamond_block ''m'' [''a'', ''b''] 2) diamond diamond_limits
     = Inr \<lparr>bm_selected_parent = Some ''a'', bm_merge_set = [''b''], bm_ancestor_visits = 4\<rparr>"
  by (simp add: calculate_bounded_merge_set_with_limits_def ghostdag_eval)

theorem merge_set_exact_witness:
  "calculate_bounded_merge_set_with_limits (diamond_block ''m'' [''a'', ''b''] 2) diamond diamond_limits
     = Inr \<lparr>bm_selected_parent = Some ''a'', bm_merge_set = [''b''], bm_ancestor_visits = 4\<rparr>
   \<and> sorted_list_of_set (reference_merge_set diamond [''a'', ''b''] ''a'') = [''b'']"
proof -
  have "calculate_selected_parent_v1 (diamond_block ''m'' [''a'', ''b''] 2) diamond = Inr (Some ''a'')"
    "calculate_selected_parent (diamond_block ''m'' [''a'', ''b''] 2) diamond = Some ''a''"
    by (simp_all add: ghostdag_eval calculate_selected_parent_def compare_selected_parent_candidates_def
        known_blocks_def List.map_filter_def)
  then show ?thesis
    using merge_set_exact [of "diamond_block ''m'' [''a'', ''b''] 2" diamond "''a''" "''a''" diamond_limits]
      diamond_merge_set by (simp add: diamond_block_def)
qed

text \<open>
  C11. Classification, exactly. When the bounded classifier answers, it has split the merge set, taken
  in preference order, into the blues and reds of the unbounded greedy rule of the legacy calculator,
  although it stops counting at k: every blue has fewer than k blues before it in its anticone, every
  red has at least k blues in its anticone, and no block is lost. The blue score and the blue work
  are those of the selected parent plus one plus the number of blues, saturating at the width.
\<close>

theorem classification_exact:
  assumes "classify_merge_set_with_limits C b s L = Inr c" "li_max_merge_set_blocks L < 2 ^ 64"
  shows "(gc_blues c, gc_reds c) = classify_loop s (li_k L) (gc_merge_set c) [] []
    \<and> mset (gc_merge_set c) = mset (gc_blues c) + mset (gc_reds c)
    \<and> sorted_wrt (\<lambda>x y. compare_selection_scores_v1 (score s y) (score s x) \<noteq> Greater) (gc_merge_set c)
    \<and> blue_cluster s (li_k L) (gc_blues c) \<and> red_witnessed s (li_k L) (gc_blues c) (gc_reds c)
    \<and> unat (gc_blue_score c) = min (2 ^ 64 - 1) ((case gc_selected_parent c of None \<Rightarrow> 0
        | Some p \<Rightarrow> unat (ss_blue_score (score s p))) + 1 + length (gc_blues c))
    \<and> unat (gc_blue_work c) = min (2 ^ 128 - 1) ((case gc_selected_parent c of None \<Rightarrow> 0
        | Some p \<Rightarrow> unat (ss_blue_work (score s p))) + 1 + length (gc_blues c))"
proof -
  from assms(1) obtain m xs v where m: "calculate_bounded_merge_set_with_limits b s L = Inr m"
    and xs: "candidate_scores s (bm_merge_set m) = Inr xs"
    and ms: "gc_merge_set c = map fst (sort_by (\<lambda>a b. compare_selection_scores_v1 (snd b) (snd a)) xs)"
    and loop: "classify_bounded_loop s L (gc_merge_set c) [] [] 0 = Inr (gc_blues c, gc_reds c, v)"
    and score: "derive_score_work_v1 (gc_selected_parent c) (gc_blues c) s = Inr (gc_blue_score c, gc_blue_work c)"
    by (auto simp: classify_merge_set_with_limits_def result_simps Let_def)
  have split: "(gc_blues c, gc_reds c) = classify_loop s (li_k L) (gc_merge_set c) [] []"
    using classify_bounded_loop_exact [OF loop] .
  have greedy: "mset (gc_blues c) + mset (gc_reds c) = mset (gc_merge_set c)
      \<and> blue_cluster s (li_k L) (gc_blues c) \<and> red_witnessed s (li_k L) (gc_blues c) (gc_reds c)"
    using classify_loop_greedy [OF split [symmetric]] by (simp add: blue_cluster_def red_witnessed_def)
  have sorted: "mset (gc_merge_set c) = mset (bm_merge_set m)"
    "sorted_wrt (\<lambda>x y. compare_selection_scores_v1 (score s y) (score s x) \<noteq> Greater) (gc_merge_set c)"
    using candidates_sorted [OF candidate_scores_Inr [OF xs] ms] by simp_all
  have "length (bm_merge_set m) \<le> li_max_merge_set_blocks L" by (rule merge_set_bounded [OF m])
  moreover have "length (gc_blues c) \<le> length (bm_merge_set m)"
    using greedy sorted(1) by (metis size_mset size_union le_add1)
  ultimately have "length (gc_blues c) < 2 ^ 128" using assms(2) by simp
  with greedy sorted(2) split derive_score_work_bounds [OF score] show ?thesis by auto
qed

theorem classification_exact_witness:
  "\<exists>c. classify_merge_set_with_limits plain_crypto (diamond_block ''m'' [''a'', ''b''] 2) diamond diamond_limits = Inr c
    \<and> gc_blues c = [''b''] \<and> gc_reds c = [] \<and> unat (gc_blue_score c) = 3"
proof -
  have "candidate_scores diamond [''b''] = Inr [(''b'', score diamond ''b'')]"
    "classify_bounded_loop diamond diamond_limits [''b''] [] [] 0 = Inr ([''b''], [], 0)"
    by (simp_all add: ghostdag_eval score_def)
  moreover obtain r where "derive_score_work_v1 (Some ''a'') [''b''] diamond = Inr r"
    by (simp add: derive_score_work_v1_def ghostdag_eval)
  ultimately obtain c where c: "classify_merge_set_with_limits plain_crypto (diamond_block ''m'' [''a'', ''b''] 2)
      diamond diamond_limits = Inr c" "gc_blues c = [''b'']" "gc_reds c = []" "gc_selected_parent c = Some ''a''"
    by (cases r) (simp add: classify_merge_set_with_limits_def diamond_merge_set Let_def sort_by_def)
  have "unat (ss_blue_score (score diamond ''a'')) = 1" by (simp add: score_def ghostdag_eval)
  then show ?thesis
    using classification_exact [OF c(1)] c by (simp add: diamond_limits_def)
qed

end
