(* ===== verification/Pulse_Ordering.thy ===== *)
theory Pulse_Ordering
  imports Pulse_Ghostdag
begin

text \<open>
  Total orders of the accepted blocks: the legacy order (\<open>ordering.rs\<close>) and the reserved topological order
  (\<open>ordering_v2.rs\<close>), which checks the classification metadata, counts the missing parents of every block
  and repeatedly emits the ready block of least priority key. \<open>BTreeMap\<close>s are association lists read in
  key order, \<open>BTreeSet\<close>s sorted lists. The emission loop is a partial function: \<^const>\<open>None\<close> stands for a loop
  that does not end, and the lemmas show that this never happens. \<open>OrderingPanic\<close> stands for the panic of the
  \<open>expect\<close> on a missing degree.
\<close>

section \<open>Operations\<close>

subsection \<open>Legacy order\<close>

definition DAG_ORDERING_VERSION :: string where "DAG_ORDERING_VERSION = ''selected-chain-merge-set-v1''"

definition compare_order_blocks :: "Block \<Rightarrow> Block \<Rightarrow> Ordering" where
  "compare_order_blocks a b =
    then_with (cmp (h_height (b_header a)) (h_height (b_header b)))
    (then_with (cmp (h_blue_score (b_header b)) (h_blue_score (b_header a)))
    (then_with (cmp (h_timestamp (b_header a)) (h_timestamp (b_header b)))
    (cmp (b_hash a) (b_hash b))))"

definition compare_existing :: "ChainState \<Rightarrow> Hash \<Rightarrow> Hash \<Rightarrow> Ordering" where
  "compare_existing state a b =
    (case (lookup (dag_blocks (cs_dag state)) a, lookup (dag_blocks (cs_dag state)) b) of
       (Some a_block, Some b_block) \<Rightarrow> compare_order_blocks a_block b_block
     | _ \<Rightarrow> cmp a b)"

definition sorted_existing :: "Hash list \<Rightarrow> ChainState \<Rightarrow> Hash list" where
  "sorted_existing hashes state = dedup (sort_by (compare_existing state) hashes)"

definition push_once :: "ChainState \<Rightarrow> Hash \<Rightarrow> Hash set \<times> Hash list \<Rightarrow> Hash set \<times> Hash list" where
  "push_once state hash acc =
    (let (seen, ordered) = acc
     in if contains_key (dag_blocks (cs_dag state)) hash \<and> hash \<notin> seen
        then (insert hash seen, ordered @ [hash]) else (seen, ordered))"

definition merge_members :: "(Hash \<times> Hash list) list \<Rightarrow> Hash \<Rightarrow> Hash list" where
  "merge_members members selected =
    (case lookup members selected of None \<Rightarrow> [] | Some hashes \<Rightarrow> hashes)"

definition push_merge_sets :: "ChainState \<Rightarrow> Hash \<Rightarrow> Hash set \<times> Hash list \<Rightarrow> Hash set \<times> Hash list" where
  "push_merge_sets state selected acc =
    (let acc = fold (push_once state)
           (sorted_existing (merge_members (dag_merge_set_blues (cs_dag state)) selected) state) acc
     in fold (push_once state)
          (sorted_existing (merge_members (dag_merge_set_reds (cs_dag state)) selected) state) acc)"

definition derive_ordered_dag :: "ChainState \<Rightarrow> Hash list" where
  "derive_ordered_dag state =
    (let acc = fold (push_once state) (dag_selected_chain (cs_dag state)) ({}, []);
         acc = fold (push_merge_sets state) (dag_selected_chain (cs_dag state)) acc;
         acc = fold (push_once state)
           (sorted_existing (map fst (dag_blocks (cs_dag state))) state) acc
     in snd acc)"

definition refresh_ordered_dag :: "ChainState \<Rightarrow> ChainState" where
  "refresh_ordered_dag state =
    (let ordered = derive_ordered_dag state
     in state\<lparr>cs_dag := (cs_dag state)\<lparr>dag_ordered_dag := ordered,
          dag_ordering_version := DAG_ORDERING_VERSION, dag_ordered_dag_tip := last_of ordered\<rparr>\<rparr>)"

definition ordered_dag_tip :: "ChainState \<Rightarrow> Hash option" where
  "ordered_dag_tip state = last_of (dag_ordered_dag (cs_dag state))"

subsection \<open>Reserved order\<close>

definition ORDERING_DIGEST_DOMAIN :: bytes where
  "ORDERING_DIGEST_DOMAIN = as_bytes ''PulseDAG:ghostdag-v1-ordering:v1''"

datatype OrderingV2Error =
    DuplicateSelectedChainBlock Hash
  | MissingSelectedChainBlock Hash
  | MissingSelectedParentMetadata Hash
  | SelectedChainParentMismatch Hash "Hash option" "Hash option"
  | MissingClassificationMetadata Hash
  | ClassificationReferencesMissingBlock Hash Hash
  | ClassificationReferencesSelectedChainBlock Hash Hash
  | DuplicateClassification Hash Hash Hash
  | BlueRedOverlap Hash Hash
  | UnclassifiedBlock Hash
  | MissingParent Hash Hash
  | MissingBlueWork Hash
  | TopologyCycle "Hash list"
  | OrderingPanic string

datatype OrderingClass = Blue | Red | SelectedChain

fun class_as_u8 :: "OrderingClass \<Rightarrow> u8" where
  "class_as_u8 Blue = 0"
| "class_as_u8 Red = 1"
| "class_as_u8 SelectedChain = 2"

record OrderedDagV2 =
  od_ordering_version :: string
  od_blocks :: "Hash list"
  od_digest :: string

type_synonym ReadyKey = "nat \<times> u8 \<times> u128 reverse \<times> u64 reverse \<times> u64 reverse \<times> Hash"

type_synonym priorities = "(Hash \<times> nat \<times> OrderingClass) list"

definition ordering_digest :: "crypto \<Rightarrow> Hash list \<Rightarrow> string" where
  "ordering_digest C order =
    hex_encode C (sha256 C (ORDERING_DIGEST_DOMAIN
      @ to_le_bytes (of_nat (length GHOSTDAG_V1_ORDERING_VERSION) :: u32)
      @ as_bytes GHOSTDAG_V1_ORDERING_VERSION
      @ to_le_bytes (of_nat (length order) :: u64)
      @ concat (map (\<lambda>hash. to_le_bytes (of_nat (length hash) :: u32) @ as_bytes hash) order)))"

definition ready_key :: "ChainState \<Rightarrow> priorities \<Rightarrow> Hash \<Rightarrow> OrderingV2Error + ReadyKey" where
  "ready_key state priorities hash =
    rbind (ok_or (MissingSelectedChainBlock hash) (lookup (dag_blocks (cs_dag state)) hash)) (\<lambda>block.
    rbind (ok_or (MissingBlueWork hash) (lookup (dag_blue_work (cs_dag state)) hash)) (\<lambda>blue_work.
    rbind (ok_or (UnclassifiedBlock hash) (lookup priorities hash)) (\<lambda>(anchor_index, cls).
    Inr (anchor_index, class_as_u8 cls, Reverse blue_work, Reverse (h_blue_score (b_header block)),
      Reverse (h_height (b_header block)), hash))))"

fun first_duplicate :: "Hash list \<Rightarrow> Hash list \<Rightarrow> Hash option" where
  "first_duplicate seen [] = None"
| "first_duplicate seen (hash # hashes) =
    (if hash \<in> set seen then Some hash else first_duplicate (insort_insert hash seen) hashes)"

fun chain_priorities ::
  "ChainState \<Rightarrow> nat \<Rightarrow> Hash list \<Rightarrow> priorities \<Rightarrow> OrderingV2Error + priorities" where
  "chain_priorities state index [] priorities = Inr priorities"
| "chain_priorities state index (hash # hashes) priorities =
    (if \<not> contains_key (dag_blocks (cs_dag state)) hash then Inl (MissingSelectedChainBlock hash)
     else
       rbind (ok_or (MissingSelectedParentMetadata hash)
         (lookup (dag_selected_parents (cs_dag state)) hash)) (\<lambda>observed_parent.
       let expected_parent = (if index = 0 then None else Some (dag_selected_chain (cs_dag state) ! (index - 1)))
       in if observed_parent \<noteq> expected_parent then
            Inl (SelectedChainParentMismatch hash expected_parent observed_parent)
          else
            chain_priorities state (index + 1) hashes
              (AList.update hash (index, SelectedChain) priorities)))"

fun classify_hashes ::
  "ChainState \<Rightarrow> Hash list \<Rightarrow> nat \<Rightarrow> Hash \<Rightarrow> OrderingClass \<Rightarrow> Hash list \<Rightarrow> Hash list \<Rightarrow> Hash list \<Rightarrow>
    (Hash \<times> Hash) list \<Rightarrow> priorities \<Rightarrow> OrderingV2Error + ((Hash \<times> Hash) list \<times> priorities)" where
  "classify_hashes state selected_set index anchor cls red_set [] local_seen classified_by priorities =
    Inr (classified_by, priorities)"
| "classify_hashes state selected_set index anchor cls red_set (hash # hashes) local_seen classified_by
      priorities =
    (if hash \<in> set local_seen then
       Inl (DuplicateClassification hash
         (case lookup classified_by hash of None \<Rightarrow> anchor | Some first_anchor \<Rightarrow> first_anchor) anchor)
     else if cls = Blue \<and> hash \<in> set red_set then Inl (BlueRedOverlap anchor hash)
     else if \<not> contains_key (dag_blocks (cs_dag state)) hash then
       Inl (ClassificationReferencesMissingBlock anchor hash)
     else if hash \<in> set selected_set then Inl (ClassificationReferencesSelectedChainBlock anchor hash)
     else
       case lookup classified_by hash of
         Some first_anchor \<Rightarrow> Inl (DuplicateClassification hash first_anchor anchor)
       | None \<Rightarrow>
           classify_hashes state selected_set index anchor cls red_set hashes (insort_insert hash local_seen)
             (AList.update hash anchor classified_by) (AList.update hash (index, cls) priorities))"

fun classify_anchors ::
  "ChainState \<Rightarrow> Hash list \<Rightarrow> nat \<Rightarrow> Hash list \<Rightarrow> (Hash \<times> Hash) list \<Rightarrow> priorities \<Rightarrow>
    OrderingV2Error + priorities" where
  "classify_anchors state selected_set index [] classified_by priorities = Inr priorities"
| "classify_anchors state selected_set index (anchor # anchors) classified_by priorities =
    rbind (ok_or (MissingClassificationMetadata anchor)
      (lookup (dag_merge_set_blues (cs_dag state)) anchor)) (\<lambda>blues.
    rbind (ok_or (MissingClassificationMetadata anchor)
      (lookup (dag_merge_set_reds (cs_dag state)) anchor)) (\<lambda>reds.
    let red_set = fold insort_insert reds []
    in
    rbind (classify_hashes state selected_set index anchor Blue red_set blues [] classified_by priorities)
      (\<lambda>(classified_by, priorities).
    rbind (classify_hashes state selected_set index anchor Red red_set reds [] classified_by priorities)
      (\<lambda>(classified_by, priorities).
    classify_anchors state selected_set (index + 1) anchors classified_by priorities))))"

definition build_priorities :: "ChainState \<Rightarrow> OrderingV2Error + priorities" where
  "build_priorities state =
    (let chain = dag_selected_chain (cs_dag state);
         selected_set = fold insort_insert chain []
     in
     if length selected_set \<noteq> length chain then
       Inl (DuplicateSelectedChainBlock
         (case first_duplicate [] chain of None \<Rightarrow> [] | Some hash \<Rightarrow> hash))
     else
       rbind (chain_priorities state 0 chain []) (\<lambda>priorities.
       rbind (classify_anchors state selected_set 0 chain [] priorities) (\<lambda>priorities.
       case filter (\<lambda>hash. \<not> contains_key priorities hash) (map fst (dag_blocks (cs_dag state))) of
         hash # _ \<Rightarrow> Inl (UnclassifiedBlock hash)
       | [] \<Rightarrow> Inr priorities)))"

definition retained_floor :: "ChainState \<Rightarrow> u64" where
  "retained_floor state =
    (case min_of (map (\<lambda>(_, block). h_height (b_header block)) (dag_blocks (cs_dag state))) of
       None \<Rightarrow> 0 | Some height \<Rightarrow> height)"

definition compact_pruned_checkpoint :: "ChainState \<Rightarrow> bool" where
  "compact_pruned_checkpoint state \<longleftrightarrow>
    dag_blocks (cs_dag state) \<noteq> [] \<and> retained_floor state > 0
    \<and> \<not> contains_key (dag_blocks (cs_dag state)) (dag_genesis_hash (cs_dag state))"

text \<open>\<open>*entry(k).or_insert(0) += 1\<close> and \<open>entry(k).or_default().insert(v)\<close>.\<close>

definition add_degree :: "Hash \<Rightarrow> (Hash \<times> nat) list \<Rightarrow> (Hash \<times> nat) list" where
  "add_degree hash indegree =
    AList.update hash ((case lookup indegree hash of None \<Rightarrow> 0 | Some n \<Rightarrow> n) + 1) indegree"

definition add_child :: "Hash \<Rightarrow> Hash \<Rightarrow> (Hash \<times> Hash list) list \<Rightarrow> (Hash \<times> Hash list) list" where
  "add_child parent hash children =
    AList.update parent (insort_insert hash (case lookup children parent of None \<Rightarrow> [] | Some hs \<Rightarrow> hs)) children"

fun add_parents ::
  "ChainState \<Rightarrow> Hash \<Rightarrow> Block \<Rightarrow> Hash list \<Rightarrow> Hash list \<Rightarrow>
    (Hash \<times> nat) list \<Rightarrow> (Hash \<times> Hash list) list \<Rightarrow>
    OrderingV2Error + ((Hash \<times> nat) list \<times> (Hash \<times> Hash list) list)" where
  "add_parents state hash block [] parent_set indegree children = Inr (indegree, children)"
| "add_parents state hash block (parent # parents) parent_set indegree children =
    (if parent \<in> set parent_set then add_parents state hash block parents parent_set indegree children
     else if \<not> contains_key (dag_blocks (cs_dag state)) parent then
       if compact_pruned_checkpoint state \<and> h_height (b_header block) = retained_floor state
       then add_parents state hash block parents (insort_insert parent parent_set) indegree children
       else Inl (MissingParent hash parent)
     else
       add_parents state hash block parents (insort_insert parent parent_set)
         (add_degree hash indegree) (add_child parent hash children))"

fun add_blocks ::
  "ChainState \<Rightarrow> (Hash \<times> Block) list \<Rightarrow> (Hash \<times> nat) list \<Rightarrow> (Hash \<times> Hash list) list \<Rightarrow>
    OrderingV2Error + ((Hash \<times> nat) list \<times> (Hash \<times> Hash list) list)" where
  "add_blocks state [] indegree children = Inr (indegree, children)"
| "add_blocks state ((hash, block) # blocks) indegree children =
    (let indegree = (if contains_key indegree hash then indegree else AList.update hash 0 indegree)
     in
     rbind (add_parents state hash block (h_parents (b_header block)) [] indegree children)
       (\<lambda>(indegree, children). add_blocks state blocks indegree children))"

fun initial_ready ::
  "ChainState \<Rightarrow> priorities \<Rightarrow> (Hash \<times> nat) list \<Rightarrow> ReadyKey list \<Rightarrow> OrderingV2Error + ReadyKey list" where
  "initial_ready state priorities [] ready = Inr ready"
| "initial_ready state priorities ((hash, degree) # entries) ready =
    (if degree = 0 then
       rbind (ready_key state priorities hash) (\<lambda>key.
       initial_ready state priorities entries (insort_insert key ready))
     else initial_ready state priorities entries ready)"

fun release_children ::
  "ChainState \<Rightarrow> priorities \<Rightarrow> Hash list \<Rightarrow> (Hash \<times> nat) list \<Rightarrow> ReadyKey list \<Rightarrow>
    OrderingV2Error + ((Hash \<times> nat) list \<times> ReadyKey list)" where
  "release_children state priorities [] indegree ready = Inr (indegree, ready)"
| "release_children state priorities (child # block_children) indegree ready =
    (case lookup indegree child of
       None \<Rightarrow> Inl (OrderingPanic ''child indegree is initialized from accepted blocks'')
     | Some degree \<Rightarrow>
         let degree = degree - 1; indegree = AList.update child degree indegree
         in if degree = 0 then
              rbind (ready_key state priorities child) (\<lambda>key.
              release_children state priorities block_children indegree (insort_insert key ready))
            else release_children state priorities block_children indegree ready)"

fun ready_hash :: "ReadyKey \<Rightarrow> Hash" where
  "ready_hash (_, _, _, _, _, hash) = hash"

partial_function (option) emit_loop ::
  "ChainState \<Rightarrow> priorities \<Rightarrow> (Hash \<times> Hash list) list \<Rightarrow> (Hash \<times> nat) list \<Rightarrow> ReadyKey list \<Rightarrow>
    Hash list \<Rightarrow> (OrderingV2Error + Hash list) option" where
  "emit_loop state priorities children indegree ready ordered =
    (case ready of
       [] \<Rightarrow> Some (Inr ordered)
     | key # ready \<Rightarrow>
         let hash = ready_hash key
         in case release_children state priorities
                (case lookup children hash of None \<Rightarrow> [] | Some block_children \<Rightarrow> block_children)
                indegree ready of
              Inl e \<Rightarrow> Some (Inl e)
            | Inr (indegree, ready) \<Rightarrow>
                emit_loop state priorities children indegree ready (ordered @ [hash]))"

definition finish_order :: "crypto \<Rightarrow> ChainState \<Rightarrow> Hash list \<Rightarrow> OrderingV2Error + OrderedDagV2" where
  "finish_order C state ordered =
    (if length ordered \<noteq> length (dag_blocks (cs_dag state)) then
       Inl (TopologyCycle (filter (\<lambda>hash. hash \<notin> set ordered) (map fst (dag_blocks (cs_dag state)))))
     else
       Inr \<lparr>od_ordering_version = GHOSTDAG_V1_ORDERING_VERSION, od_blocks = ordered,
         od_digest = ordering_digest C ordered\<rparr>)"

definition ordering_graph ::
  "ChainState \<Rightarrow> OrderingV2Error + (priorities \<times> (Hash \<times> nat) list \<times> (Hash \<times> Hash list) list \<times> ReadyKey list)" where
  "ordering_graph state =
    rbind (build_priorities state) (\<lambda>priorities.
    rbind (add_blocks state (dag_blocks (cs_dag state)) [] []) (\<lambda>(indegree, children).
    rbind (initial_ready state priorities (sort_key fst indegree) []) (\<lambda>ready.
    Inr (priorities, indegree, children, ready))))"

definition derive_ordered_dag_v2 :: "crypto \<Rightarrow> ChainState \<Rightarrow> (OrderingV2Error + OrderedDagV2) option" where
  "derive_ordered_dag_v2 C state =
    (case ordering_graph state of
       Inl e \<Rightarrow> Some (Inl e)
     | Inr (priorities, indegree, children, ready) \<Rightarrow>
         map_option (\<lambda>r. rbind r (finish_order C state))
           (emit_loop state priorities children indegree ready []))"

section \<open>The legacy order is total\<close>

lemma set_dedup [simp]: "set (dedup xs) = set xs"
  by (induction xs rule: dedup.induct) auto

lemma set_sort_by_any: "set (sort_by f xs) = set xs"
proof -
  have "set (insert_by f x ys) = insert x (set ys)" for x ys by (induction ys) auto
  then show ?thesis unfolding sort_by_def by (induction xs) auto
qed

lemma set_sorted_existing [simp]: "set (sorted_existing hs s) = set hs"
  by (simp add: sorted_existing_def set_sort_by_any)

definition block_keys :: "ChainState \<Rightarrow> Hash set" where
  "block_keys s = {h. contains_key (dag_blocks (cs_dag s)) h}"

definition pushing :: "ChainState \<Rightarrow> Hash set \<times> Hash list \<Rightarrow> bool" where
  "pushing s acc \<longleftrightarrow> fst acc = set (snd acc) \<and> distinct (snd acc) \<and> set (snd acc) \<subseteq> block_keys s"

lemma fold_push_once:
  assumes "pushing s acc"
  shows "pushing s (fold (push_once s) hs acc)
    \<and> set (snd (fold (push_once s) hs acc)) = set (snd acc) \<union> (set hs \<inter> block_keys s)
    \<and> prefix (snd acc) (snd (fold (push_once s) hs acc))"
  using assms
proof (induction hs arbitrary: acc)
  case (Cons h hs)
  let ?acc = "push_once s h acc"
  have "pushing s ?acc \<and> set (snd ?acc) = set (snd acc) \<union> ({h} \<inter> block_keys s) \<and> prefix (snd acc) (snd ?acc)"
    using Cons.prems by (auto simp: push_once_def pushing_def block_keys_def split: prod.splits)
  with Cons.IH [of ?acc] show ?case by (auto intro: prefix_order.trans)
qed simp

lemma fold_push_merge_sets:
  assumes "pushing s acc"
  shows "pushing s (fold (push_merge_sets s) hs acc) \<and> prefix (snd acc) (snd (fold (push_merge_sets s) hs acc))"
  using assms
proof (induction hs arbitrary: acc)
  case (Cons h hs)
  have "pushing s (push_merge_sets s h acc) \<and> prefix (snd acc) (snd (push_merge_sets s h acc))"
    using fold_push_once [OF Cons.prems] fold_push_once [OF conjunct1 [OF fold_push_once [OF Cons.prems]]]
    unfolding push_merge_sets_def Let_def by (meson prefix_order.trans)
  with Cons.IH [of "push_merge_sets s h acc"] show ?case by (auto intro: prefix_order.trans)
qed simp

lemma fold_push_once_distinct:
  assumes "distinct hs" "set hs \<subseteq> block_keys s" "set hs \<inter> fst acc = {}"
  shows "snd (fold (push_once s) hs acc) = snd acc @ hs"
  using assms
proof (induction hs arbitrary: acc)
  case (Cons h hs)
  then have "push_once s h acc = (insert h (fst acc), snd acc @ [h])"
    by (auto simp: push_once_def block_keys_def split: prod.splits)
  with Cons show ?case by auto
qed simp

lemma derive_ordered_dag_total:
  "distinct (derive_ordered_dag s) \<and> set (derive_ordered_dag s) = block_keys s"
proof -
  define a0 where "a0 = fold (push_once s) (dag_selected_chain (cs_dag s)) ({}, [])"
  define a1 where "a1 = fold (push_merge_sets s) (dag_selected_chain (cs_dag s)) a0"
  have "pushing s ({}, [])" by (simp add: pushing_def)
  then have "pushing s a0" unfolding a0_def using fold_push_once by blast
  then have a1: "pushing s a1" unfolding a1_def using fold_push_merge_sets by blast
  have keys: "set (map fst (dag_blocks (cs_dag s))) = block_keys s"
    by (auto simp: block_keys_def map_of_eq_None_iff)
  show ?thesis
    using fold_push_once [OF a1, of "sorted_existing (map fst (dag_blocks (cs_dag s))) s"] a1 keys
    unfolding derive_ordered_dag_def Let_def a0_def [symmetric] a1_def [symmetric]
    by (auto simp: pushing_def)
qed

lemma derive_ordered_dag_chain:
  assumes "distinct (dag_selected_chain (cs_dag s))" "set (dag_selected_chain (cs_dag s)) \<subseteq> block_keys s"
  shows "prefix (dag_selected_chain (cs_dag s)) (derive_ordered_dag s)"
proof -
  define a0 where "a0 = fold (push_once s) (dag_selected_chain (cs_dag s)) ({}, [])"
  define a1 where "a1 = fold (push_merge_sets s) (dag_selected_chain (cs_dag s)) a0"
  have "pushing s ({}, [])" by (simp add: pushing_def)
  then have p0: "pushing s a0" unfolding a0_def using fold_push_once by blast
  have "snd a0 = dag_selected_chain (cs_dag s)"
    unfolding a0_def using fold_push_once_distinct [OF assms] by simp
  moreover have "prefix (snd a0) (snd a1)" "pushing s a1"
    unfolding a1_def using fold_push_merge_sets [OF p0] by blast+
  ultimately show ?thesis
    using fold_push_once [of s a1] unfolding derive_ordered_dag_def Let_def a0_def [symmetric] a1_def [symmetric]
    by (metis prefix_order.trans)
qed

section \<open>Priorities\<close>

abbreviation chain_of :: "ChainState \<Rightarrow> Hash list" where
  "chain_of s \<equiv> dag_selected_chain (cs_dag s)"

abbreviation blues_of :: "ChainState \<Rightarrow> Hash \<Rightarrow> Hash list" where
  "blues_of s \<equiv> merge_members (dag_merge_set_blues (cs_dag s))"

abbreviation reds_of :: "ChainState \<Rightarrow> Hash \<Rightarrow> Hash list" where
  "reds_of s \<equiv> merge_members (dag_merge_set_reds (cs_dag s))"

definition classified :: "ChainState \<Rightarrow> Hash list \<Rightarrow> Hash list" where
  "classified s as = concat (map (\<lambda>a. blues_of s a @ reds_of s a) as)"

definition link_ok :: "ChainState \<Rightarrow> nat \<Rightarrow> Hash \<Rightarrow> bool" where
  "link_ok s i h \<longleftrightarrow> h \<in> block_keys s
    \<and> lookup (dag_selected_parents (cs_dag s)) h = Some (if i = 0 then None else Some (chain_of s ! (i - 1)))"

definition has_classes :: "ChainState \<Rightarrow> Hash \<Rightarrow> bool" where
  "has_classes s a \<longleftrightarrow> contains_key (dag_merge_set_blues (cs_dag s)) a
    \<and> contains_key (dag_merge_set_reds (cs_dag s)) a"

definition well_classified :: "ChainState \<Rightarrow> bool" where
  "well_classified s \<longleftrightarrow> distinct (chain_of s) \<and> (\<forall>i < length (chain_of s). link_ok s i (chain_of s ! i))
    \<and> list_all (has_classes s) (chain_of s) \<and> distinct (classified s (chain_of s))
    \<and> set (classified s (chain_of s)) \<subseteq> block_keys s - set (chain_of s)
    \<and> block_keys s \<subseteq> set (chain_of s) \<union> set (classified s (chain_of s))"

fun class_at :: "ChainState \<Rightarrow> Hash \<Rightarrow> nat \<Rightarrow> OrderingClass \<Rightarrow> bool" where
  "class_at s h i SelectedChain \<longleftrightarrow> i < length (chain_of s) \<and> chain_of s ! i = h"
| "class_at s h i Blue \<longleftrightarrow> i < length (chain_of s) \<and> h \<in> set (blues_of s (chain_of s ! i))"
| "class_at s h i Red \<longleftrightarrow> i < length (chain_of s) \<and> h \<in> set (reds_of s (chain_of s ! i))"

fun chain_fold :: "nat \<Rightarrow> Hash list \<Rightarrow> priorities \<Rightarrow> priorities" where
  "chain_fold i [] P = P"
| "chain_fold i (h # hs) P = chain_fold (i + 1) hs (AList.update h (i, SelectedChain) P)"

fun class_fold :: "ChainState \<Rightarrow> nat \<Rightarrow> Hash list \<Rightarrow> priorities \<Rightarrow> priorities" where
  "class_fold s i [] P = P"
| "class_fold s i (a # as) P = class_fold s (i + 1) as
    (fold (\<lambda>h. AList.update h (i, Red)) (reds_of s a) (fold (\<lambda>h. AList.update h (i, Blue)) (blues_of s a) P))"

lemma chain_priorities_Inr:
  "chain_priorities s i hs P = Inr P' \<longleftrightarrow>
    (\<forall>j < length hs. link_ok s (i + j) (hs ! j)) \<and> P' = chain_fold i hs P"
proof (induction hs arbitrary: i P)
  case (Cons h hs)
  have "(\<forall>j < length (h # hs). link_ok s (i + j) ((h # hs) ! j)) \<longleftrightarrow>
      link_ok s i h \<and> (\<forall>j < length hs. link_ok s (i + 1 + j) (hs ! j))"
    by (simp add: All_less_Suc2)
  then show ?case
    using Cons.IH [of "i + 1" "AList.update h (i, SelectedChain) P"]
    by (auto simp: result_simps Let_def link_ok_def block_keys_def)
qed auto

lemma lookup_fold_same:
  "lookup (fold (\<lambda>h. AList.update h v) hs m) x = (if x \<in> set hs then Some v else lookup m x)"
  by (induction hs arbitrary: m) (auto simp: lookup_update)

lemma classify_hashes_Inr:
  "classify_hashes s sel i a c red hs seen cb P = Inr (cb', P') \<longleftrightarrow>
    distinct hs \<and> set hs \<inter> set seen = {} \<and> (c = Blue \<longrightarrow> set hs \<inter> set red = {}) \<and> set hs \<subseteq> block_keys s
    \<and> set hs \<inter> set sel = {} \<and> (\<forall>h \<in> set hs. lookup cb h = None)
    \<and> cb' = fold (\<lambda>h. AList.update h a) hs cb \<and> P' = fold (\<lambda>h. AList.update h (i, c)) hs P"
proof (induction hs arbitrary: seen cb P)
  case (Cons h hs)
  show ?case
  proof (cases "h \<in> set seen \<or> (c = Blue \<and> h \<in> set red) \<or> h \<notin> block_keys s \<or> h \<in> set sel \<or> lookup cb h \<noteq> None")
    case True
    then show ?thesis by (auto simp: block_keys_def split: option.splits)
  next
    case False
    then have "classify_hashes s sel i a c red (h # hs) seen cb P =
      classify_hashes s sel i a c red hs (insort_insert h seen) (AList.update h a cb) (AList.update h (i, c) P)"
      by (auto simp: block_keys_def)
    then show ?thesis using False Cons.IH by (auto simp: set_insort_insert lookup_update)
  qed
qed auto

lemma classify_anchors_Inr:
  "classify_anchors s sel i as cb P = Inr P' \<longleftrightarrow>
    list_all (has_classes s) as \<and> distinct (classified s as) \<and> set (classified s as) \<subseteq> block_keys s - set sel
    \<and> (\<forall>h \<in> set (classified s as). lookup cb h = None) \<and> P' = class_fold s i as P"
proof (induction as arbitrary: i cb P)
  case (Cons a as)
  show ?case
  proof (cases "has_classes s a")
    case False
    then show ?thesis by (auto simp: has_classes_def result_simps)
  next
    case True
    then have lk: "lookup (dag_merge_set_blues (cs_dag s)) a = Some (blues_of s a)"
      "lookup (dag_merge_set_reds (cs_dag s)) a = Some (reds_of s a)"
      by (auto simp: has_classes_def merge_members_def)
    show ?thesis
      using True
      by (auto simp: lk result_simps Let_def classify_hashes_Inr Cons.IH classified_def lookup_fold_same
          set_fold_insort_insert)
  qed
qed (auto simp: classified_def)

lemma lookup_chain_fold:
  assumes "distinct hs"
  shows "lookup (chain_fold i hs P) x =
    (if x \<in> set hs then Some (i + length (takeWhile (\<lambda>h. h \<noteq> x) hs), SelectedChain) else lookup P x)"
  using assms by (induction hs arbitrary: i P) (auto simp: lookup_update)

lemma lookup_chain_fold_Some:
  assumes "distinct hs"
  shows "lookup (chain_fold i hs []) x = Some (n, c) \<longleftrightarrow> c = SelectedChain \<and> (\<exists>j < length hs. n = i + j \<and> hs ! j = x)"
proof (cases "x \<in> set hs")
  case False
  then show ?thesis using assms by (auto simp: lookup_chain_fold)
next
  case True
  define k where "k = length (takeWhile (\<lambda>h. h \<noteq> x) hs)"
  have k: "k < length hs" "hs ! k = x" unfolding k_def using True by (induction hs) auto
  have uniq: "j = k" if "j < length hs" "hs ! j = x" for j
    using that k assms by (metis nth_eq_iff_index_eq)
  have "lookup (chain_fold i hs []) x = Some (i + k, SelectedChain)"
    using lookup_chain_fold [OF assms] True by (simp add: k_def)
  with k uniq show ?thesis by (metis option.inject prod.inject)
qed

lemma lookup_class_fold_other:
  "x \<notin> set (classified s as) \<Longrightarrow> lookup (class_fold s i as P) x = lookup P x"
  by (induction as arbitrary: i P) (auto simp: classified_def lookup_fold_same)

lemma lookup_class_fold:
  assumes "distinct (classified s as)" "x \<in> set (classified s as)"
  shows "lookup (class_fold s i as P) x = Some (n, c) \<longleftrightarrow>
    (\<exists>j < length as. n = i + j \<and> (c = Blue \<and> x \<in> set (blues_of s (as ! j)) \<or> c = Red \<and> x \<in> set (reds_of s (as ! j))))"
  using assms
proof (induction as arbitrary: i P)
  case (Cons a as)
  let ?P = "fold (\<lambda>h. AList.update h (i, Red)) (reds_of s a) (fold (\<lambda>h. AList.update h (i, Blue)) (blues_of s a) P)"
  define R where "R y \<longleftrightarrow> c = Blue \<and> x \<in> set (blues_of s y) \<or> c = Red \<and> x \<in> set (reds_of s y)" for y
  have split: "(\<exists>j < length (a # as). n = i + j \<and> R ((a # as) ! j)) \<longleftrightarrow>
      (n = i \<and> R a) \<or> (\<exists>j < length as. n = i + 1 + j \<and> R (as ! j))"
    by (simp add: Ex_less_Suc2)
  have cl: "classified s (a # as) = (blues_of s a @ reds_of s a) @ classified s as" by (simp add: classified_def)
  show ?case
  proof (cases "x \<in> set (classified s as)")
    case True
    then have "x \<notin> set (blues_of s a)" "x \<notin> set (reds_of s a)" using Cons.prems(1) unfolding cl by auto
    then have "\<not> R a" by (simp add: R_def)
    with Cons.IH [OF _ True, of "i + 1" ?P, folded R_def] Cons.prems(1) show ?thesis
      unfolding R_def [symmetric] split cl by simp
  next
    case False
    have no: "x \<notin> set (blues_of s (as ! j))" "x \<notin> set (reds_of s (as ! j))" if "j < length as" for j
      using False nth_mem [OF that] unfolding classified_def by auto
    have "lookup (class_fold s i (a # as) P) x = lookup ?P x"
      using lookup_class_fold_other [OF False] by simp
    moreover have "\<not> R (as ! j)" if "j < length as" for j using no [OF that] by (simp add: R_def)
    moreover have "lookup ?P x = Some (n, c) \<longleftrightarrow> n = i \<and> R a"
      using Cons.prems False unfolding cl by (auto simp: lookup_fold_same R_def)
    ultimately show ?thesis unfolding R_def [symmetric] split by auto
  qed
qed (simp add: classified_def)

lemma block_keys_fst: "set (map fst (dag_blocks (cs_dag s))) = block_keys s"
  by (auto simp: block_keys_def map_of_eq_None_iff)

lemma finite_block_keys [simp]: "finite (block_keys s)"
  by (simp add: block_keys_fst [symmetric])

lemma length_fold_insort:
  "length (fold insort_insert hs []) = length hs \<longleftrightarrow> distinct hs" for hs :: "Hash list"
proof -
  have "distinct (fold insort_insert hs acc)" if "distinct acc" for acc :: "Hash list"
    using that by (induction hs arbitrary: acc) (auto simp: insort_insert_key_def distinct_insort)
  from this [of "[]"] have "length (fold insort_insert hs []) = card (set hs)"
    by (metis distinct_card distinct.simps(1) set_fold_insort_insert sup_bot_right empty_set)
  then show ?thesis by (metis card_distinct distinct_card)
qed

lemma build_priorities_Inr:
  "build_priorities s = Inr P \<longleftrightarrow> well_classified s \<and> P = class_fold s 0 (chain_of s) (chain_fold 0 (chain_of s) [])"
proof -
  let ?ch = "chain_of s" let ?sel = "fold insort_insert ?ch []"
  let ?P = "class_fold s 0 ?ch (chain_fold 0 ?ch [])"
  have covered: "contains_key ?P h \<longleftrightarrow> h \<in> set ?ch \<or> h \<in> set (classified s ?ch)"
    if "distinct ?ch" "distinct (classified s ?ch)" for h
  proof (cases "h \<in> set (classified s ?ch)")
    case True
    then obtain a where a: "a \<in> set ?ch" "h \<in> set (blues_of s a) \<or> h \<in> set (reds_of s a)"
      by (auto simp: classified_def)
    from a(1) obtain j where "j < length ?ch" "?ch ! j = a" by (auto simp: in_set_conv_nth)
    with a(2) lookup_class_fold [OF that(2) True, of 0 "chain_fold 0 ?ch []" j Blue]
      lookup_class_fold [OF that(2) True, of 0 "chain_fold 0 ?ch []" j Red] True show ?thesis by auto
  next
    case False
    then show ?thesis using lookup_class_fold_other [OF False] lookup_chain_fold [OF that(1)] by simp
  qed
  have fin: "(case filter (\<lambda>h. \<not> contains_key Q h) (map fst (dag_blocks (cs_dag s))) of
        h # _ \<Rightarrow> Inl (UnclassifiedBlock h) | [] \<Rightarrow> Inr Q) = Inr R
      \<longleftrightarrow> block_keys s \<subseteq> {h. contains_key Q h} \<and> R = Q" for Q R :: priorities
  proof -
    have "filter (\<lambda>h. \<not> contains_key Q h) (map fst (dag_blocks (cs_dag s))) = []
      \<longleftrightarrow> block_keys s \<subseteq> {h. contains_key Q h}"
      unfolding block_keys_fst [symmetric] filter_empty_conv by auto
    then show ?thesis by (cases "filter (\<lambda>h. \<not> contains_key Q h) (map fst (dag_blocks (cs_dag s)))") auto
  qed
  have "build_priorities s = Inr P \<longleftrightarrow> distinct ?ch \<and> (\<forall>i < length ?ch. link_ok s i (?ch ! i))
      \<and> list_all (has_classes s) ?ch \<and> distinct (classified s ?ch)
      \<and> set (classified s ?ch) \<subseteq> block_keys s - set ?ch \<and> block_keys s \<subseteq> {h. contains_key ?P h} \<and> P = ?P"
    unfolding build_priorities_def Let_def if_err_eq_Inr rbind_eq_Inr chain_priorities_Inr classify_anchors_Inr fin
      length_fold_insort set_fold_insort_insert
    by auto
  moreover have "distinct ?ch \<Longrightarrow> distinct (classified s ?ch) \<Longrightarrow>
      {h. contains_key ?P h} = set ?ch \<union> set (classified s ?ch)"
    using covered by blast
  ultimately show ?thesis unfolding well_classified_def by metis
qed

lemma lookup_build_priorities:
  assumes "build_priorities s = Inr P"
  shows "lookup P h = Some (i, c) \<longleftrightarrow> class_at s h i c"
proof -
  have wc: "distinct (chain_of s)" "distinct (classified s (chain_of s))" "set (classified s (chain_of s)) \<inter> set (chain_of s) = {}"
    and P: "P = class_fold s 0 (chain_of s) (chain_fold 0 (chain_of s) [])"
    using assms by (auto simp: build_priorities_Inr well_classified_def)
  have mem: "h \<in> set (classified s (chain_of s))" if "j < length (chain_of s)"
    "h \<in> set (blues_of s (chain_of s ! j)) \<or> h \<in> set (reds_of s (chain_of s ! j))" for j
    using that nth_mem unfolding classified_def by fastforce
  show ?thesis
  proof (cases "h \<in> set (classified s (chain_of s))")
    case True
    then have "h \<notin> set (chain_of s)" using wc(3) by auto
    with lookup_class_fold [OF wc(2) True] show ?thesis unfolding P by (cases c) auto
  next
    case False
    have none: "h \<notin> set (blues_of s (chain_of s ! j)) \<and> h \<notin> set (reds_of s (chain_of s ! j))"
      if "j < length (chain_of s)" for j using mem [OF that] False by blast
    have "lookup P h = Some (i, c) \<longleftrightarrow> c = SelectedChain \<and> (\<exists>j < length (chain_of s). i = j \<and> chain_of s ! j = h)"
      unfolding P lookup_class_fold_other [OF False] lookup_chain_fold_Some [OF wc(1)] by simp
    with none show ?thesis by (cases c) auto
  qed
qed

section \<open>The parent graph\<close>

definition known_parents :: "ChainState \<Rightarrow> Hash \<Rightarrow> Hash set" where
  "known_parents s h = {p. \<exists>b. lookup (dag_blocks (cs_dag s)) h = Some b \<and> p \<in> set (h_parents (b_header b))
    \<and> p \<in> block_keys s}"

definition parent_ok :: "ChainState \<Rightarrow> Block \<Rightarrow> Hash \<Rightarrow> bool" where
  "parent_ok s b p \<longleftrightarrow> p \<in> block_keys s
    \<or> compact_pruned_checkpoint s \<and> h_height (b_header b) = retained_floor s"

definition parents_retained :: "ChainState \<Rightarrow> bool" where
  "parents_retained s \<longleftrightarrow>
    list_all (\<lambda>(h, b). list_all (parent_ok s b) (h_parents (b_header b))) (dag_blocks (cs_dag s))"

abbreviation degree_of :: "(Hash \<times> nat) list \<Rightarrow> Hash \<Rightarrow> nat" where
  "degree_of I h \<equiv> (case lookup I h of None \<Rightarrow> 0 | Some n \<Rightarrow> n)"

abbreviation children_of :: "(Hash \<times> Hash list) list \<Rightarrow> Hash \<Rightarrow> Hash list" where
  "children_of Ch h \<equiv> (case lookup Ch h of None \<Rightarrow> [] | Some hs \<Rightarrow> hs)"

lemma known_parents_subset: "known_parents s h \<subseteq> block_keys s"
  by (auto simp: known_parents_def)

lemma finite_known_parents [simp]: "finite (known_parents s h)"
  using known_parents_subset finite_block_keys by (rule finite_subset)

lemma add_parents_ok:
  "(\<exists>r. add_parents s h b ps seen I Ch = Inr r) \<longleftrightarrow> (\<forall>p \<in> set ps - set seen. parent_ok s b p)"
proof (induction ps arbitrary: seen I Ch)
  case (Cons p ps)
  show ?case
  proof (cases "p \<in> set seen")
    case True
    with Cons show ?thesis by (simp add: insert_Diff_if)
  next
    case False
    have "set (p # ps) - set seen = insert p (set ps - set (insort_insert p seen))"
      using False by (auto simp: set_insort_insert)
    with False Cons show ?thesis by (auto simp: parent_ok_def block_keys_def)
  qed
qed simp

lemma add_parents_result:
  assumes "add_parents s h b ps seen I Ch = Inr (I', Ch')" "contains_key I h"
    and "\<And>p. btree (children_of Ch p)"
  shows "(\<forall>x. contains_key I' x \<longleftrightarrow> contains_key I x) \<and>
    (\<forall>x. degree_of I' x = degree_of I x + (if x = h then card ((set ps - set seen) \<inter> block_keys s) else 0)) \<and>
    (\<forall>p. btree (children_of Ch' p) \<and>
      set (children_of Ch' p) = set (children_of Ch p) \<union> (if p \<in> (set ps - set seen) \<inter> block_keys s then {h} else {}))"
  using assms
proof (induction ps arbitrary: seen I Ch)
  case (Cons p ps)
  let ?N = "(set (p # ps) - set seen) \<inter> block_keys s"
  let ?M = "(set ps - set (insort_insert p seen)) \<inter> block_keys s"
  show ?case
  proof (cases "p \<in> set seen")
    case True
    with Cons show ?thesis by (simp add: insert_Diff_if)
  next
    case new: False
    show ?thesis
    proof (cases "p \<in> block_keys s")
      case False
      then have "?N = ?M" using new by (auto simp: set_insort_insert)
      with Cons new False show ?thesis by (auto simp: block_keys_def split: if_splits)
    next
      case True
      have N: "?N = insert p ?M" "p \<notin> ?M" using new True by (auto simp: set_insort_insert)
      have card: "card ?N = Suc (card ?M)" unfolding N(1) by (rule card_insert_disjoint) (use N(2) in auto)
      have step: "add_parents s h b ps (insort_insert p seen) (add_degree h I) (add_child p h Ch) = Inr (I', Ch')"
        using Cons.prems(1) new True by (auto simp: block_keys_def split: if_splits)
      have key: "contains_key (add_degree h I) h" by (simp add: add_degree_def lookup_update)
      have tree: "btree (children_of (add_child p h Ch) q)" for q
        using Cons.prems(3) by (auto simp: add_child_def lookup_update)
      have "contains_key (add_degree h I) x \<longleftrightarrow> contains_key I x" for x
        using Cons.prems(2) by (auto simp: add_degree_def lookup_update)
      moreover have "degree_of (add_degree h I) x = degree_of I x + (if x = h then 1 else 0)" for x
        by (auto simp: add_degree_def lookup_update)
      moreover have "set (children_of (add_child p h Ch) q) = set (children_of Ch q) \<union> (if q = p then {h} else {})" for q
        by (auto simp: add_child_def lookup_update set_insort_insert)
      ultimately show ?thesis
        using Cons.IH [OF step key tree] card N by auto
    qed
  qed
qed auto

definition degrees_ok :: "ChainState \<Rightarrow> Hash set \<Rightarrow> (Hash \<times> nat) list \<Rightarrow> (Hash \<times> Hash list) list \<Rightarrow> bool" where
  "degrees_ok s K I Ch \<longleftrightarrow> (\<forall>x. contains_key I x \<longleftrightarrow> x \<in> K) \<and> (\<forall>x \<in> K. degree_of I x = card (known_parents s x))
    \<and> (\<forall>p. btree (children_of Ch p) \<and> set (children_of Ch p) = {x \<in> K. p \<in> known_parents s x})"

lemma add_blocks_ok:
  "(\<exists>r. add_blocks s bs I Ch = Inr r) \<longleftrightarrow> list_all (\<lambda>(h, b). list_all (parent_ok s b) (h_parents (b_header b))) bs"
proof (induction bs arbitrary: I Ch)
  case (Cons hb bs)
  obtain h b where hb: "hb = (h, b)" by (cases hb)
  let ?I = "if contains_key I h then I else AList.update h 0 I"
  show ?case
  proof (cases "add_parents s h b (h_parents (b_header b)) [] ?I Ch")
    case (Inl e)
    then show ?thesis using add_parents_ok [of s h b "h_parents (b_header b)" "[]" ?I Ch] hb
      by (auto simp: Let_def list_all_iff)
  next
    case (Inr r)
    then show ?thesis using add_parents_ok [of s h b "h_parents (b_header b)" "[]" ?I Ch] hb Cons.IH
      by (cases r) (auto simp: Let_def list_all_iff)
  qed
qed simp

lemma add_blocks_result:
  assumes "add_blocks s bs I Ch = Inr (I', Ch')" "degrees_ok s K I Ch" "distinct (map fst bs)"
    and "fst ` set bs \<inter> K = {}" "\<And>h b. (h, b) \<in> set bs \<Longrightarrow> lookup (dag_blocks (cs_dag s)) h = Some b"
  shows "degrees_ok s (K \<union> fst ` set bs) I' Ch'"
  using assms
proof (induction bs arbitrary: I Ch K)
  case (Cons hb bs)
  obtain h b where hb: "hb = (h, b)" by (cases hb)
  have none: "lookup I h = None" using Cons.prems(2,4) hb by (auto simp: degrees_ok_def)
  define I0 where "I0 = AList.update h 0 I"
  have blk: "lookup (dag_blocks (cs_dag s)) h = Some b" using Cons.prems(5) hb by auto
  from Cons.prems(1) none obtain I1 Ch1
    where one: "add_parents s h b (h_parents (b_header b)) [] I0 Ch = Inr (I1, Ch1)"
    and rest: "add_blocks s bs I1 Ch1 = Inr (I', Ch')"
    by (auto simp: hb result_simps Let_def I0_def)
  have kp: "(set (h_parents (b_header b)) - set []) \<inter> block_keys s = known_parents s h"
    using blk by (auto simp: known_parents_def)
  have I0: "contains_key I0 x \<longleftrightarrow> x = h \<or> contains_key I x" "degree_of I0 x = degree_of I x" for x
    using none by (auto simp: I0_def lookup_update)
  have r: "(\<forall>x. contains_key I1 x \<longleftrightarrow> contains_key I0 x) \<and>
    (\<forall>x. degree_of I1 x = degree_of I0 x + (if x = h then card (known_parents s h) else 0)) \<and>
    (\<forall>p. btree (children_of Ch1 p) \<and>
      set (children_of Ch1 p) = set (children_of Ch p) \<union> (if p \<in> known_parents s h then {h} else {}))"
    unfolding kp [symmetric]
    by (rule add_parents_result [OF one]) (use I0 Cons.prems(2) in \<open>auto simp: degrees_ok_def\<close>)
  have hK: "h \<notin> K" using Cons.prems(4) hb by auto
  have "degrees_ok s (insert h K) I1 Ch1"
    unfolding degrees_ok_def
  proof (intro conjI allI ballI)
    fix x
    show "contains_key I1 x \<longleftrightarrow> x \<in> insert h K" using r I0(1) [of x] Cons.prems(2) by (auto simp: degrees_ok_def)
  next
    fix x assume "x \<in> insert h K"
    then show "degree_of I1 x = card (known_parents s x)"
      using r I0(2) [of x] Cons.prems(2) none hK by (auto simp: degrees_ok_def)
  next
    fix p
    show "btree (children_of Ch1 p)" using r by blast
    show "set (children_of Ch1 p) = {x \<in> insert h K. p \<in> known_parents s x}"
      using r Cons.prems(2) unfolding degrees_ok_def by auto
  qed
  from Cons.IH [OF rest this] Cons.prems(3-5) hb show ?case by auto
qed simp

lemma add_blocks_degrees:
  assumes "add_blocks s (dag_blocks (cs_dag s)) [] [] = Inr (I, Ch)" "distinct_keys (dag_blocks (cs_dag s))"
  shows "degrees_ok s (block_keys s) I Ch"
proof -
  have "degrees_ok s {} [] []" by (simp add: degrees_ok_def btree_def)
  from add_blocks_result [OF assms(1) this] assms(2)
  have "degrees_ok s (fst ` set (dag_blocks (cs_dag s))) I Ch" by (auto simp: distinct_keys_def)
  then show ?thesis using block_keys_fst by simp
qed

section \<open>The emission loop\<close>

definition worked :: "ChainState \<Rightarrow> Hash \<Rightarrow> bool" where
  "worked s h \<longleftrightarrow> contains_key (dag_blue_work (cs_dag s)) h"

definition key_with :: "ChainState \<Rightarrow> Hash \<Rightarrow> nat \<Rightarrow> OrderingClass \<Rightarrow> ReadyKey" where
  "key_with s h i c = (i, class_as_u8 c, Reverse (the (lookup (dag_blue_work (cs_dag s)) h)),
    Reverse (h_blue_score (b_header (the (lookup (dag_blocks (cs_dag s)) h)))),
    Reverse (h_height (b_header (the (lookup (dag_blocks (cs_dag s)) h)))), h)"

definition order_key :: "ChainState \<Rightarrow> priorities \<Rightarrow> Hash \<Rightarrow> ReadyKey" where
  "order_key s P h = key_with s h (fst (the (lookup P h))) (snd (the (lookup P h)))"

definition ready_set :: "ChainState \<Rightarrow> Hash list \<Rightarrow> Hash set" where
  "ready_set s ord = {h \<in> block_keys s. known_parents s h \<subseteq> set ord \<and> h \<notin> set ord}"

definition greedy :: "ChainState \<Rightarrow> priorities \<Rightarrow> Hash list \<Rightarrow> bool" where
  "greedy s P ord \<longleftrightarrow> (\<forall>i < length ord. ord ! i \<in> ready_set s (take i ord)
    \<and> (\<forall>x \<in> ready_set s (take i ord). order_key s P (ord ! i) \<le> order_key s P x))"

definition covers :: "ChainState \<Rightarrow> priorities \<Rightarrow> bool" where
  "covers s P \<longleftrightarrow> (\<forall>h \<in> block_keys s. contains_key P h)"

lemma ready_hash_order_key [simp]: "ready_hash (order_key s P h) = h"
  by (simp add: order_key_def key_with_def)

lemma order_key_inj: "order_key s P x = order_key s P y \<longleftrightarrow> x = y"
  by (auto simp: order_key_def key_with_def)

lemma ready_key_cases:
  assumes "h \<in> block_keys s" "covers s P"
  shows "ready_key s P h = (if worked s h then Inr (order_key s P h) else Inl (MissingBlueWork h))"
proof -
  obtain b i c where "lookup (dag_blocks (cs_dag s)) h = Some b" "lookup P h = Some (i, c)"
    using assms by (fastforce simp: block_keys_def covers_def)
  then show ?thesis
    by (cases "lookup (dag_blue_work (cs_dag s)) h") (auto simp: ready_key_def worked_def order_key_def key_with_def)
qed

lemma greedy_distinct: "greedy s P ord \<Longrightarrow> distinct ord"
proof (induction ord rule: rev_induct)
  case (snoc h ord)
  have "ord ! i = (ord @ [h]) ! i" "take i ord = take i (ord @ [h])" if "i < length ord" for i
    using that by (simp_all add: nth_append)
  with snoc.prems have "greedy s P ord" unfolding greedy_def by (metis length_append_singleton less_SucI)
  moreover have "h \<in> ready_set s ord" using snoc.prems unfolding greedy_def
    by (metis length_append_singleton lessI nth_append_length append_eq_conv_conj)
  ultimately show ?case using snoc.IH by (simp add: ready_set_def)
qed simp

lemma greedy_subset: "greedy s P ord \<Longrightarrow> set ord \<subseteq> block_keys s"
  by (auto simp: greedy_def ready_set_def in_set_conv_nth)

lemma greedy_nth:
  assumes "greedy s P ord" "i < length ord"
  shows "ord ! i \<in> ready_set s (take i ord)"
    "\<And>x. x \<in> ready_set s (take i ord) \<Longrightarrow> order_key s P (ord ! i) \<le> order_key s P x"
  using assms by (simp_all add: greedy_def)

lemma greedy_parents:
  assumes "greedy s P ord" "i < length ord"
  shows "known_parents s (ord ! i) \<subseteq> set (take i ord)"
  using assms by (auto simp: greedy_def ready_set_def)

lemma greedy_closed: "greedy s P ord \<Longrightarrow> h \<in> set ord \<Longrightarrow> known_parents s h \<subseteq> set ord"
  using greedy_parents by (metis in_set_conv_nth set_take_subset subset_trans)

lemma greedy_snoc:
  assumes "greedy s P ord" "h \<in> ready_set s ord" "\<And>x. x \<in> ready_set s ord \<Longrightarrow> order_key s P h \<le> order_key s P x"
  shows "greedy s P (ord @ [h])"
  using assms by (auto simp: greedy_def nth_append less_Suc_eq)

text \<open>Two greedy orders of the same length are the same.\<close>

lemma greedy_unique:
  assumes "greedy s P xs" "greedy s P ys" "length xs = length ys"
  shows "xs = ys"
proof -
  have "take n xs = take n ys" if "n \<le> length xs" for n
    using that
  proof (induction n)
    case (Suc n)
    then have eq: "take n xs = take n ys" and n: "n < length xs" "n < length ys" using assms(3) by auto
    note xn = greedy_nth [OF assms(1) n(1)] and yn = greedy_nth [OF assms(2) n(2), folded eq]
    have "order_key s P (xs ! n) \<le> order_key s P (ys ! n)" "order_key s P (ys ! n) \<le> order_key s P (xs ! n)"
      using xn(2) [OF yn(1)] yn(2) [OF xn(1)] by simp_all
    then have "xs ! n = ys ! n" using order_key_inj by (metis order_antisym)
    with eq n show ?case by (simp add: take_Suc_conv_app_nth)
  qed simp
  from this [of "length xs"] show ?thesis using assms(3) by simp
qed

lemma release_children_result:
  assumes "covers s P" "h \<notin> D" "distinct cs" "set cs \<subseteq> block_keys s - insert h D"
    and "\<And>c. c \<in> set cs \<Longrightarrow> h \<in> known_parents s c"
    and "\<And>x. x \<in> block_keys s \<Longrightarrow>
      lookup I x = Some (card (known_parents s x - (if x \<in> set cs then D else insert h D)))"
    and "btree R" "set R = order_key s P ` {x \<in> block_keys s. known_parents s x \<subseteq> insert h D \<and> x \<notin> insert h D \<and> x \<notin> set cs}"
    and "\<And>x. x \<in> block_keys s \<Longrightarrow> known_parents s x \<subseteq> insert h D \<Longrightarrow> x \<notin> insert h D \<Longrightarrow> x \<notin> set cs \<Longrightarrow> worked s x"
  shows "case release_children s P cs I R of
      Inl e \<Rightarrow> \<exists>x \<in> block_keys s. \<not> worked s x \<and> e = MissingBlueWork x
    | Inr (I', R') \<Rightarrow> (\<forall>x \<in> block_keys s. lookup I' x = Some (card (known_parents s x - insert h D)))
        \<and> btree R' \<and> set R' = order_key s P ` {x \<in> block_keys s. known_parents s x \<subseteq> insert h D \<and> x \<notin> insert h D}
        \<and> (\<forall>x \<in> block_keys s. known_parents s x \<subseteq> insert h D \<longrightarrow> x \<notin> insert h D \<longrightarrow> worked s x)"
  using assms(3-9)
proof (induction cs arbitrary: I R)
  case (Cons c cs)
  let ?D = "insert h D"
  have c: "c \<in> block_keys s" "c \<notin> ?D" "h \<in> known_parents s c" "c \<notin> set cs"
    using Cons.prems(1-3) by auto
  have lc: "lookup I c = Some (card (known_parents s c - D))" using Cons.prems(4) [OF c(1)] by simp
  have "known_parents s c - ?D = (known_parents s c - D) - {h}" by auto
  then have d: "card (known_parents s c - D) - 1 = card (known_parents s c - ?D)"
    using c(3) assms(2) by (simp add: card_Diff_singleton)
  define n m where "n = card (known_parents s c - D)" and "m = card (known_parents s c - ?D)"
  have nm: "lookup I c = Some n" "n - Suc 0 = m" using lc d by (simp_all add: n_def m_def)
  have zero: "m = 0 \<longleftrightarrow> known_parents s c \<subseteq> ?D" by (simp add: m_def Diff_eq_empty_iff)
  define I1 where "I1 = AList.update c m I"
  have I1: "lookup I1 x = Some (card (known_parents s x - (if x \<in> set cs then D else ?D)))" if "x \<in> block_keys s" for x
    using Cons.prems(4) [OF that] c(4) by (auto simp: I1_def lookup_update m_def)
  show ?case
  proof (cases "known_parents s c \<subseteq> ?D")
    case False
    then have step: "release_children s P (c # cs) I R = release_children s P cs I1 R"
      using zero by (simp add: nm Let_def I1_def)
    have same: "{x \<in> block_keys s. known_parents s x \<subseteq> ?D \<and> x \<notin> ?D \<and> x \<notin> set cs} =
        {x \<in> block_keys s. known_parents s x \<subseteq> ?D \<and> x \<notin> ?D \<and> x \<notin> set (c # cs)}"
      using False by auto
    have w: "worked s x" if "x \<in> block_keys s" "known_parents s x \<subseteq> ?D" "x \<notin> ?D" "x \<notin> set cs" for x
      using Cons.prems(7) [of x] that False by auto
    show ?thesis
      unfolding step
      by (rule Cons.IH [OF _ _ _ I1 Cons.prems(5) _ w]) (use Cons.prems(1-3,6) same in simp_all)
  next
    case True
    show ?thesis
    proof (cases "worked s c")
      case False
      then have "release_children s P (c # cs) I R = Inl (MissingBlueWork c)"
        using True zero ready_key_cases [OF c(1) assms(1)] by (simp add: nm Let_def)
      with False c(1) show ?thesis by auto
    next
      case w: True
      have step: "release_children s P (c # cs) I R = release_children s P cs I1 (insort_insert (order_key s P c) R)"
        using True zero w ready_key_cases [OF c(1) assms(1)] by (simp add: nm Let_def I1_def)
      have "{x \<in> block_keys s. known_parents s x \<subseteq> ?D \<and> x \<notin> ?D \<and> x \<notin> set cs} =
          insert c {x \<in> block_keys s. known_parents s x \<subseteq> ?D \<and> x \<notin> ?D \<and> x \<notin> set (c # cs)}"
        using c True by auto
      then have R: "set (insort_insert (order_key s P c) R) =
          order_key s P ` {x \<in> block_keys s. known_parents s x \<subseteq> ?D \<and> x \<notin> ?D \<and> x \<notin> set cs}"
        using Cons.prems(6) by (simp add: set_insort_insert)
      have w': "worked s x" if "x \<in> block_keys s" "known_parents s x \<subseteq> ?D" "x \<notin> ?D" "x \<notin> set cs" for x
        using Cons.prems(7) [of x] that w by (cases "x = c") auto
      show ?thesis
        unfolding step
        by (rule Cons.IH [OF _ _ _ I1 btree_insert [OF Cons.prems(5)] R w']) (use Cons.prems(1-3) in simp_all)
    qed
  qed
qed auto

definition children_ok :: "ChainState \<Rightarrow> (Hash \<times> Hash list) list \<Rightarrow> bool" where
  "children_ok s Ch \<longleftrightarrow>
    (\<forall>p. btree (children_of Ch p) \<and> set (children_of Ch p) = {x \<in> block_keys s. p \<in> known_parents s x})"

definition emit_inv :: "ChainState \<Rightarrow> priorities \<Rightarrow> (Hash \<times> nat) list \<Rightarrow> ReadyKey list \<Rightarrow> Hash list \<Rightarrow> bool" where
  "emit_inv s P I R ord \<longleftrightarrow> greedy s P ord
    \<and> (\<forall>x \<in> block_keys s. lookup I x = Some (card (known_parents s x - set ord)))
    \<and> btree R \<and> set R = order_key s P ` ready_set s ord \<and> (\<forall>x \<in> set ord \<union> ready_set s ord. worked s x)"

lemma emit_step:
  assumes "emit_inv s P I (k # R) ord" "covers s P" "children_ok s Ch"
  shows "case release_children s P (children_of Ch (ready_hash k)) I R of
      Inl e \<Rightarrow> \<exists>x \<in> block_keys s. \<not> worked s x \<and> e = MissingBlueWork x
    | Inr (I', R') \<Rightarrow> emit_inv s P I' R' (ord @ [ready_hash k])"
proof -
  have inv: "greedy s P ord" "\<And>x. x \<in> block_keys s \<Longrightarrow> lookup I x = Some (card (known_parents s x - set ord))"
    "btree (k # R)" "set (k # R) = order_key s P ` ready_set s ord" "\<And>x. x \<in> ready_set s ord \<Longrightarrow> worked s x" "\<And>x. x \<in> set ord \<Longrightarrow> worked s x"
    using assms(1) unfolding emit_inv_def by auto
  obtain h where h: "h \<in> ready_set s ord" "k = order_key s P h" using inv(4) by auto
  have kh: "ready_hash k = h" using h(2) by simp
  have hD: "h \<in> block_keys s" "known_parents s h \<subseteq> set ord" "h \<notin> set ord" using h(1) by (auto simp: ready_set_def)
  have min: "order_key s P h \<le> order_key s P x" if "x \<in> ready_set s ord" for x
  proof -
    have "order_key s P x \<in> set (k # R)" using inv(4) that by blast
    then show ?thesis using inv(3) h(2) by (auto simp: btree_def)
  qed
  have g: "greedy s P (ord @ [h])" using greedy_snoc [OF inv(1) h(1)] min by blast
  define cs where "cs = children_of Ch h"
  have cs: "btree cs" "set cs = {x \<in> block_keys s. h \<in> known_parents s x}"
    using assms(3) unfolding children_ok_def cs_def by blast+
  have out: "x \<notin> insert h (set ord)" if "x \<in> set cs" for x
    using that cs(2) hD greedy_closed [OF inv(1), of x] by blast
  have "set R = order_key s P ` (ready_set s ord - {h})"
  proof -
    have "k \<notin> set R" using inv(3) by (simp add: btree_def)
    then have "set R = set (k # R) - {k}" by auto
    also have "\<dots> = order_key s P ` ready_set s ord - {order_key s P h}" using inv(4) h(2) by simp
    also have "\<dots> = order_key s P ` (ready_set s ord - {h})" using order_key_inj by auto
    finally show ?thesis .
  qed
  moreover have rs: "ready_set s ord - {h} =
      {x \<in> block_keys s. known_parents s x \<subseteq> insert h (set ord) \<and> x \<notin> insert h (set ord) \<and> x \<notin> set cs}"
    unfolding cs(2) ready_set_def using hD(3) by auto
  ultimately have R: "set R = order_key s P `
      {x \<in> block_keys s. known_parents s x \<subseteq> insert h (set ord) \<and> x \<notin> insert h (set ord) \<and> x \<notin> set cs}"
    by simp
  have I: "lookup I x = Some (card (known_parents s x - (if x \<in> set cs then set ord else insert h (set ord))))"
    if "x \<in> block_keys s" for x
  proof (cases "x \<in> set cs")
    case False
    then have eq: "known_parents s x - insert h (set ord) = known_parents s x - set ord" using that cs(2) by auto
    show ?thesis by (simp only: False if_False eq inv(2) [OF that])
  qed (use inv(2) [OF that] in simp)
  have dist: "distinct cs" using cs(1) by (simp add: btree_def)
  have sub: "set cs \<subseteq> block_keys s - insert h (set ord)" using cs(2) out by blast
  have par: "h \<in> known_parents s c" if "c \<in> set cs" for c using that cs(2) by blast
  have btR: "btree R" using inv(3) by (simp add: btree_def)
  have wk: "worked s x" if "x \<in> block_keys s" "known_parents s x \<subseteq> insert h (set ord)" "x \<notin> insert h (set ord)"
    "x \<notin> set cs" for x using inv(5) [of x] rs that by blast
  have "case release_children s P cs I R of
      Inl e \<Rightarrow> \<exists>x \<in> block_keys s. \<not> worked s x \<and> e = MissingBlueWork x
    | Inr (I', R') \<Rightarrow> (\<forall>x \<in> block_keys s. lookup I' x = Some (card (known_parents s x - insert h (set ord))))
        \<and> btree R' \<and> set R' = order_key s P ` {x \<in> block_keys s. known_parents s x \<subseteq> insert h (set ord) \<and> x \<notin> insert h (set ord)}
        \<and> (\<forall>x \<in> block_keys s. known_parents s x \<subseteq> insert h (set ord) \<longrightarrow> x \<notin> insert h (set ord) \<longrightarrow> worked s x)"
    by (rule release_children_result [OF assms(2) hD(3) dist sub par I btR R wk])
  moreover have "ready_set s (ord @ [h]) = {x \<in> block_keys s. known_parents s x \<subseteq> insert h (set ord) \<and> x \<notin> insert h (set ord)}"
    by (auto simp: ready_set_def)
  ultimately show ?thesis
    unfolding kh cs_def [symmetric] using g inv(5) [OF h(1)] inv(6) by (auto simp: emit_inv_def split: sum.splits)
qed

lemma emit_loop_returns:
  assumes "emit_inv s P I R ord" "covers s P" "children_ok s Ch"
  shows "\<exists>r. emit_loop s P Ch I R ord = Some r \<and> (case r of
      Inl e \<Rightarrow> \<exists>x \<in> block_keys s. \<not> worked s x \<and> e = MissingBlueWork x
    | Inr ord' \<Rightarrow> \<exists>I'. emit_inv s P I' [] ord')"
  using assms(1)
proof (induction "card (block_keys s) - length ord" arbitrary: I R ord rule: less_induct)
  case less
  show ?case
  proof (cases R)
    case Nil
    with less.prems show ?thesis by (subst emit_loop.simps) auto
  next
    case (Cons k R')
    have step: "case release_children s P (children_of Ch (ready_hash k)) I R' of
      Inl e \<Rightarrow> \<exists>x \<in> block_keys s. \<not> worked s x \<and> e = MissingBlueWork x
    | Inr (I', R'') \<Rightarrow> emit_inv s P I' R'' (ord @ [ready_hash k])"
      using emit_step [OF _ assms(2,3)] less.prems Cons by simp
    show ?thesis
    proof (cases "release_children s P (children_of Ch (ready_hash k)) I R'")
      case (Inl e)
      with step Cons show ?thesis by (subst emit_loop.simps) (simp add: Let_def)
    next
      case (Inr r)
      obtain I'' R'' where r: "r = (I'', R'')" by (cases r)
      have inv: "emit_inv s P I'' R'' (ord @ [ready_hash k])" using step Inr r by simp
      then have g: "greedy s P (ord @ [ready_hash k])" by (simp add: emit_inv_def)
      have "length (ord @ [ready_hash k]) \<le> card (block_keys s)"
        using greedy_distinct [OF g] greedy_subset [OF g] by (metis card_mono distinct_card finite_block_keys)
      then have "card (block_keys s) - length (ord @ [ready_hash k]) < card (block_keys s) - length ord" by simp
      from less.hyps [OF this inv] Inr r Cons show ?thesis by (subst emit_loop.simps) (simp add: Let_def)
    qed
  qed
qed

lemma distinct_keys_add_parents:
  "add_parents s h b ps seen I Ch = Inr (I', Ch') \<Longrightarrow> distinct_keys I \<Longrightarrow> distinct_keys I'"
  by (induction s h b ps seen I Ch rule: add_parents.induct) (auto simp: add_degree_def split: if_splits)

lemma distinct_keys_add_blocks:
  "add_blocks s bs I Ch = Inr (I', Ch') \<Longrightarrow> distinct_keys I \<Longrightarrow> distinct_keys I'"
proof (induction bs arbitrary: I Ch)
  case (Cons hb bs)
  obtain h b where hb: "hb = (h, b)" by (cases hb)
  let ?I = "if contains_key I h then I else AList.update h 0 I"
  have "distinct_keys ?I" using Cons.prems(2) by simp
  moreover obtain I1 Ch1 where "add_parents s h b (h_parents (b_header b)) [] ?I Ch = Inr (I1, Ch1)"
    "add_blocks s bs I1 Ch1 = Inr (I', Ch')"
    using Cons.prems(1) by (auto simp: hb result_simps Let_def)
  ultimately show ?case using Cons.IH distinct_keys_add_parents by blast
qed simp

lemma initial_ready_result:
  assumes "covers s P" "fst ` set es \<subseteq> block_keys s" "btree R"
  shows "case initial_ready s P es R of
      Inl e \<Rightarrow> \<exists>x \<in> block_keys s. \<not> worked s x \<and> e = MissingBlueWork x
    | Inr R' \<Rightarrow> btree R' \<and> set R' = set R \<union> order_key s P ` {h. (h, 0) \<in> set es} \<and> (\<forall>h. (h, 0) \<in> set es \<longrightarrow> worked s h)"
  using assms(2,3)
proof (induction es arbitrary: R)
  case (Cons e es)
  obtain h d where e: "e = (h, d)" by (cases e)
  have h: "h \<in> block_keys s" using Cons.prems(1) e by auto
  show ?case
  proof (cases "d = 0")
    case False
    then have mem: "(x, 0) \<in> set (e # es) \<longleftrightarrow> (x, 0) \<in> set es" for x using e by auto
    have step: "initial_ready s P (e # es) R = initial_ready s P es R" using False e by simp
    show ?thesis unfolding mem step using Cons.IH Cons.prems by simp
  next
    case True
    show ?thesis
    proof (cases "worked s h")
      case False
      with True h show ?thesis by (auto simp: e ready_key_cases [OF h assms(1)])
    next
      case w: True
      have step: "initial_ready s P (e # es) R = initial_ready s P es (insort_insert (order_key s P h) R)"
        using True w by (simp add: e ready_key_cases [OF h assms(1)])
      have set: "{x. (x, 0) \<in> set (e # es)} = insert h {x. (x, 0) \<in> set es}" using True e by auto
      show ?thesis
        unfolding step set
        using Cons.IH [of "insort_insert (order_key s P h) R"] Cons.prems w
        by (auto simp: set_insort_insert e True split: sum.splits)
    qed
  qed
qed simp

definition parent_edges :: "ChainState \<Rightarrow> (Hash \<times> Hash) set" where
  "parent_edges s = {(p, h). h \<in> block_keys s \<and> p \<in> known_parents s h}"

definition orderable :: "ChainState \<Rightarrow> bool" where
  "orderable s \<longleftrightarrow> well_classified s \<and> parents_retained s \<and> block_keys s \<subseteq> {h. worked s h} \<and> acyclic (parent_edges s)"

lemma finite_parent_edges: "finite (parent_edges s)"
proof (rule finite_subset)
  show "parent_edges s \<subseteq> block_keys s \<times> block_keys s"
    using known_parents_subset by (auto simp: parent_edges_def)
qed simp

lemma emit_complete:
  assumes "emit_inv s P I [] ord" "acyclic (parent_edges s)"
  shows "set ord = block_keys s"
proof (rule ccontr)
  have g: "greedy s P ord" and r: "ready_set s ord = {}" using assms(1) by (auto simp: emit_inv_def)
  assume "set ord \<noteq> block_keys s"
  then obtain x where "x \<in> block_keys s - set ord" using greedy_subset [OF g] by auto
  then obtain z where z: "z \<in> block_keys s - set ord" "\<And>y. (y, z) \<in> parent_edges s \<Longrightarrow> y \<notin> block_keys s - set ord"
    using wfE_min [OF finite_acyclic_wf [OF finite_parent_edges assms(2)]] by metis
  have "known_parents s z \<subseteq> set ord" using z known_parents_subset [of s z] by (auto simp: parent_edges_def)
  with z(1) r show False by (auto simp: ready_set_def)
qed

lemma greedy_acyclic:
  assumes "greedy s P ord" "set ord = block_keys s"
  shows "acyclic (parent_edges s)"
proof -
  define f where "f x = length (takeWhile (\<lambda>y. y \<noteq> x) ord)" for x
  have f: "f (ord ! i) = i" if "i < length ord" for i
  proof -
    have "takeWhile (\<lambda>y. y \<noteq> ord ! i) ord = take i ord"
      using that greedy_distinct [OF assms(1)] by (intro takeWhile_eq_take_P_nth) (auto simp: nth_eq_iff_index_eq)
    then show ?thesis using that by (simp add: f_def)
  qed
  have "parent_edges s \<subseteq> measure f"
  proof
    fix e assume "e \<in> parent_edges s"
    then obtain p h where e: "e = (p, h)" "h \<in> set ord" "p \<in> known_parents s h"
      using assms(2) by (auto simp: parent_edges_def)
    then obtain i where i: "i < length ord" "ord ! i = h" by (auto simp: in_set_conv_nth)
    with greedy_parents [OF assms(1) i(1)] e have "p \<in> set (take i ord)" by auto
    then obtain j where "j < i" "ord ! j = p" using i by (auto simp: in_set_conv_nth)
    with f [of j] f [of i] i e show "e \<in> measure f" by auto
  qed
  then show ?thesis using wf_acyclic [OF wf_measure] acyclic_subset by blast
qed

lemma covers_build: "build_priorities s = Inr P \<Longrightarrow> covers s P"
proof -
  assume P: "build_priorities s = Inr P"
  then have "block_keys s \<subseteq> set (chain_of s) \<union> set (classified s (chain_of s))"
    by (simp add: build_priorities_Inr well_classified_def)
  moreover have "contains_key P h" if "h \<in> set (chain_of s)" for h
    using that lookup_build_priorities [OF P, of h _ SelectedChain] by (auto simp: in_set_conv_nth)
  moreover have "contains_key P h" if "h \<in> set (classified s (chain_of s))" for h
  proof -
    from that obtain a where a: "a \<in> set (chain_of s)" "h \<in> set (blues_of s a) \<or> h \<in> set (reds_of s a)"
      by (auto simp: classified_def)
    from a(1) obtain j where "j < length (chain_of s)" "chain_of s ! j = a" by (auto simp: in_set_conv_nth)
    with a(2) lookup_build_priorities [OF P, of h j Blue] lookup_build_priorities [OF P, of h j Red]
    show ?thesis by auto
  qed
  ultimately show ?thesis unfolding covers_def by blast
qed

lemma emit_inv_initial:
  assumes "add_blocks s (dag_blocks (cs_dag s)) [] [] = Inr (I, Ch)" "distinct_keys (dag_blocks (cs_dag s))"
    and "covers s P"
  shows "children_ok s Ch" "case initial_ready s P (sort_key fst I) [] of
      Inl e \<Rightarrow> \<exists>x \<in> block_keys s. \<not> worked s x \<and> e = MissingBlueWork x
    | Inr R \<Rightarrow> emit_inv s P I R []"
proof -
  have d: "degrees_ok s (block_keys s) I Ch" using add_blocks_degrees [OF assms(1,2)] .
  then show "children_ok s Ch" by (simp add: children_ok_def degrees_ok_def)
  have I: "lookup I x = Some (card (known_parents s x))" if "x \<in> block_keys s" for x
  proof -
    have "contains_key I x" "degree_of I x = card (known_parents s x)" using d that unfolding degrees_ok_def by blast+
    then show ?thesis by (cases "lookup I x") simp_all
  qed
  have dk: "distinct_keys I" using distinct_keys_add_blocks [OF assms(1)] by (simp add: distinct_keys_def)
  have keys: "fst ` set (sort_key fst I) \<subseteq> block_keys s"
  proof -
    have "contains_key I x \<longleftrightarrow> x \<in> block_keys s" for x using d unfolding degrees_ok_def by blast
    then show ?thesis by (auto simp: map_of_eq_None_iff)
  qed
  have zero: "{h. (h, 0) \<in> set (sort_key fst I)} = ready_set s []"
  proof -
    have "(h, 0) \<in> set (sort_key fst I) \<longleftrightarrow> h \<in> block_keys s \<and> card (known_parents s h) = 0" for h
      using I [of h] keys lookup_in_set [OF dk, of h 0] by force
    then show ?thesis by (simp add: ready_set_def)
  qed
  show "case initial_ready s P (sort_key fst I) [] of
      Inl e \<Rightarrow> \<exists>x \<in> block_keys s. \<not> worked s x \<and> e = MissingBlueWork x
    | Inr R \<Rightarrow> emit_inv s P I R []"
    using initial_ready_result [OF assms(3) keys, of "[]"] I zero
    by (auto simp: emit_inv_def greedy_def btree_def split: sum.splits)
qed

text \<open>Errors other than the panic.\<close>

fun reported :: "OrderingV2Error \<Rightarrow> bool" where
  "reported (OrderingPanic _) = False"
| "reported _ = True"

lemma build_priorities_reported: "build_priorities s = Inl e \<Longrightarrow> reported e"
proof -
  assume e: "build_priorities s = Inl e"
  have chain: "chain_priorities s i hs P = Inl e \<Longrightarrow> reported e" for i hs P
    by (induction s i hs P rule: chain_priorities.induct) (auto simp: result_simps Let_def split: if_splits)
  have hashes: "classify_hashes s sel i a c red hs seen cb P = Inl e \<Longrightarrow> reported e" for sel i a c red hs seen cb P
    by (induction s sel i a c red hs seen cb P rule: classify_hashes.induct)
      (auto split: if_splits option.splits)
  have anchors: "classify_anchors s sel i as cb P = Inl e \<Longrightarrow> reported e" for sel i as cb P
    by (induction as arbitrary: i cb P) (auto simp: result_simps Let_def dest: hashes)
  have fin: "(case hs of h # _ \<Rightarrow> Inl (UnclassifiedBlock h) | [] \<Rightarrow> Inr Q) = Inl e \<Longrightarrow> reported e"
    for hs and Q :: priorities by (cases hs) auto
  show "reported e"
  proof (cases "length (fold insort_insert (chain_of s) []) = length (chain_of s)")
    case False
    with e show ?thesis by (auto simp: build_priorities_def Let_def)
  next
    case True
    with e show ?thesis
      unfolding build_priorities_def Let_def
      by (cases "chain_priorities s 0 (chain_of s) []")
        (auto simp only: rbind_simps if_False simp_thms rbind_eq_Inl dest!: chain anchors fin)
  qed
qed

lemma add_blocks_reported: "add_blocks s bs I Ch = Inl e \<Longrightarrow> reported e"
proof -
  have parents: "add_parents s h b ps seen I Ch = Inl e \<Longrightarrow> reported e" for h b ps seen I Ch
    by (induction s h b ps seen I Ch rule: add_parents.induct) (auto split: if_splits)
  show "add_blocks s bs I Ch = Inl e \<Longrightarrow> reported e"
  proof (induction bs arbitrary: I Ch)
    case (Cons hb bs)
    then show ?case by (cases hb) (auto simp: result_simps Let_def dest: parents)
  qed simp
qed

lemma length_order:
  assumes "distinct_keys (dag_blocks (cs_dag s))" "distinct ord" "set ord \<subseteq> block_keys s"
  shows "length ord = length (dag_blocks (cs_dag s)) \<longleftrightarrow> set ord = block_keys s"
proof -
  have "length (dag_blocks (cs_dag s)) = card (block_keys s)"
    using assms(1) unfolding block_keys_fst [symmetric] distinct_keys_def by (metis distinct_card length_map)
  moreover have "length ord = card (set ord)" using assms(2) by (simp add: distinct_card)
  ultimately show ?thesis using assms(3) by (metis card_subset_eq finite_block_keys)
qed

lemma derive_ordered_dag_v2_cases:
  assumes "distinct_keys (dag_blocks (cs_dag s))"
  shows "(\<exists>e. derive_ordered_dag_v2 C s = Some (Inl e) \<and> reported e \<and> \<not> orderable s)
    \<or> (\<exists>P ord. orderable s \<and> build_priorities s = Inr P \<and> greedy s P ord \<and> set ord = block_keys s
        \<and> derive_ordered_dag_v2 C s = Some (Inr \<lparr>od_ordering_version = GHOSTDAG_V1_ORDERING_VERSION,
            od_blocks = ord, od_digest = ordering_digest C ord\<rparr>))"
proof (cases "build_priorities s")
  case (Inl e)
  then have "derive_ordered_dag_v2 C s = Some (Inl e)" "\<not> well_classified s"
    using build_priorities_Inr [of s] by (auto simp: derive_ordered_dag_v2_def ordering_graph_def)
  with build_priorities_reported [OF Inl] show ?thesis by (auto simp: orderable_def)
next
  case P: (Inr P)
  then have wc: "well_classified s" and cov: "covers s P" by (simp_all add: build_priorities_Inr covers_build)
  show ?thesis
  proof (cases "add_blocks s (dag_blocks (cs_dag s)) [] []")
    case (Inl e)
    then have "\<not> parents_retained s"
      using add_blocks_ok [of s "dag_blocks (cs_dag s)" "[]" "[]"] by (auto simp: parents_retained_def)
    moreover have "derive_ordered_dag_v2 C s = Some (Inl e)"
      using P Inl by (simp add: derive_ordered_dag_v2_def ordering_graph_def)
    ultimately show ?thesis using add_blocks_reported [OF Inl] by (auto simp: orderable_def)
  next
    case (Inr g)
    then obtain I Ch where g: "add_blocks s (dag_blocks (cs_dag s)) [] [] = Inr (I, Ch)" by (cases g) auto
    have pr: "parents_retained s"
      using add_blocks_ok [of s "dag_blocks (cs_dag s)" "[]" "[]"] g by (auto simp: parents_retained_def)
    note init = emit_inv_initial [OF g assms cov]
    show ?thesis
    proof (cases "initial_ready s P (sort_key fst I) []")
      case (Inl e)
      then have "derive_ordered_dag_v2 C s = Some (Inl e)"
        using P g by (simp add: derive_ordered_dag_v2_def ordering_graph_def)
      with init(2) Inl show ?thesis by (auto simp: orderable_def)
    next
      case (Inr R)
      then have inv: "emit_inv s P I R []" using init(2) by simp
      have dv: "derive_ordered_dag_v2 C s = map_option (\<lambda>r. rbind r (finish_order C s)) (emit_loop s P Ch I R [])"
        using P g Inr by (simp add: derive_ordered_dag_v2_def ordering_graph_def)
      obtain r where r: "emit_loop s P Ch I R [] = Some r"
        "case r of Inl e \<Rightarrow> \<exists>x \<in> block_keys s. \<not> worked s x \<and> e = MissingBlueWork x
          | Inr ord' \<Rightarrow> \<exists>I'. emit_inv s P I' [] ord'"
        using emit_loop_returns [OF inv cov init(1)] by blast
      show ?thesis
      proof (cases r)
        case (Inl e)
        with r dv show ?thesis by (auto simp: orderable_def)
      next
        case (Inr ord)
        then obtain I' where fin: "emit_inv s P I' [] ord" using r(2) by auto
        then have gr: "greedy s P ord" by (simp add: emit_inv_def)
        have len: "length ord = length (dag_blocks (cs_dag s)) \<longleftrightarrow> set ord = block_keys s"
          by (rule length_order [OF assms greedy_distinct [OF gr] greedy_subset [OF gr]])
        show ?thesis
        proof (cases "set ord = block_keys s")
          case True
          then have "orderable s"
            using wc pr fin greedy_acyclic [OF gr True] by (auto simp: orderable_def emit_inv_def)
          then show ?thesis using True gr P dv r(1) Inr len by (auto simp: finish_order_def)
        next
          case False
          then have "\<not> orderable s" using emit_complete [OF fin] by (auto simp: orderable_def)
          then show ?thesis using False dv r(1) Inr len by (auto simp: finish_order_def)
        qed
      qed
    qed
  qed
qed

section \<open>The canonical order\<close>

definition precedes :: "ChainState \<Rightarrow> Hash \<Rightarrow> Hash \<Rightarrow> bool" where
  "precedes s x y \<longleftrightarrow>
    (\<forall>i c j d. class_at s x i c \<and> class_at s y j d \<longrightarrow> key_with s x i c \<le> key_with s y j d)"

definition canonical :: "ChainState \<Rightarrow> Hash list \<Rightarrow> bool" where
  "canonical s ord \<longleftrightarrow> distinct ord \<and> set ord = block_keys s
    \<and> (\<forall>i < length ord. known_parents s (ord ! i) \<subseteq> set (take i ord)
        \<and> (\<forall>x \<in> ready_set s (take i ord). precedes s (ord ! i) x))"

lemma precedes_order_key:
  assumes "build_priorities s = Inr P" "x \<in> block_keys s" "y \<in> block_keys s"
  shows "precedes s x y \<longleftrightarrow> order_key s P x \<le> order_key s P y"
proof -
  obtain i c j d where l: "lookup P x = Some (i, c)" "lookup P y = Some (j, d)"
    using covers_build [OF assms(1)] assms(2,3) unfolding covers_def by (metis option.exhaust surj_pair)
  have x: "class_at s x i' c' \<longleftrightarrow> i' = i \<and> c' = c" for i' c'
    unfolding lookup_build_priorities [OF assms(1), symmetric] using l by auto
  have y: "class_at s y j' d' \<longleftrightarrow> j' = j \<and> d' = d" for j' d'
    unfolding lookup_build_priorities [OF assms(1), symmetric] using l by auto
  show ?thesis unfolding precedes_def order_key_def x y using l by auto
qed

lemma canonical_greedy:
  assumes "build_priorities s = Inr P"
  shows "canonical s ord \<longleftrightarrow> greedy s P ord \<and> set ord = block_keys s"
proof
  assume c: "canonical s ord"
  have "ord ! i \<in> ready_set s (take i ord)" if "i < length ord" for i
    using c that nth_mem [OF that] unfolding canonical_def ready_set_def
    by (auto simp: in_set_conv_nth nth_eq_iff_index_eq)
  moreover have "ready_set s (take i ord) \<subseteq> block_keys s" for i by (auto simp: ready_set_def)
  ultimately show "greedy s P ord \<and> set ord = block_keys s"
    using c precedes_order_key [OF assms] unfolding canonical_def greedy_def by (metis nth_mem subsetD)
next
  assume g: "greedy s P ord \<and> set ord = block_keys s"
  have "ready_set s (take i ord) \<subseteq> block_keys s" for i by (auto simp: ready_set_def)
  with g greedy_distinct greedy_parents greedy_nth(2) precedes_order_key [OF assms] show "canonical s ord"
    unfolding canonical_def by (metis nth_mem subsetD)
qed

text \<open>Equal contents, whatever the iteration order of the hash maps.\<close>

definition same_dag :: "ChainState \<Rightarrow> ChainState \<Rightarrow> bool" where
  "same_dag s t \<longleftrightarrow> lookup (dag_blocks (cs_dag s)) = lookup (dag_blocks (cs_dag t))
    \<and> lookup (dag_merge_set_blues (cs_dag s)) = lookup (dag_merge_set_blues (cs_dag t))
    \<and> lookup (dag_merge_set_reds (cs_dag s)) = lookup (dag_merge_set_reds (cs_dag t))
    \<and> lookup (dag_blue_work (cs_dag s)) = lookup (dag_blue_work (cs_dag t))
    \<and> dag_selected_chain (cs_dag s) = dag_selected_chain (cs_dag t)"

lemma same_dag_canonical:
  assumes "same_dag s t"
  shows "canonical s = canonical t"
proof -
  have keys: "block_keys s = block_keys t" using assms by (simp add: same_dag_def block_keys_def)
  have par: "known_parents s = known_parents t" using assms by (simp add: fun_eq_iff known_parents_def keys same_dag_def)
  have mm: "blues_of s = blues_of t" "reds_of s = reds_of t"
    using assms by (simp_all add: fun_eq_iff merge_members_def same_dag_def)
  have cls: "class_at s h i c = class_at t h i c" for h i c
    using assms by (cases c) (simp_all add: mm same_dag_def)
  have key: "key_with s = key_with t" using assms by (simp add: fun_eq_iff key_with_def same_dag_def)
  have "ready_set s = ready_set t" by (simp add: fun_eq_iff ready_set_def keys par)
  moreover have "precedes s = precedes t" by (simp add: fun_eq_iff precedes_def cls key)
  ultimately show ?thesis by (simp add: fun_eq_iff canonical_def keys par)
qed

section \<open>Properties\<close>

text \<open>
  C15. The reserved order is decided on every state. The emission loop ends, the lookup of a child's
  degree never panics, and an order is returned if and only if the selected chain and the
  classification metadata are well formed, every parent is retained or below the floor of a pruned
  checkpoint, every block has blue work and the parent graph is acyclic.
\<close>

theorem ordering_v2_decides:
  assumes "distinct_keys (dag_blocks (cs_dag s))"
  shows "\<exists>r. derive_ordered_dag_v2 C s = Some r \<and> ((\<exists>ord. r = Inr ord) \<longleftrightarrow> orderable s)
    \<and> (case r of Inl e \<Rightarrow> reported e | Inr ord \<Rightarrow> True)"
  using derive_ordered_dag_v2_cases [OF assms, of C] by auto

definition merged :: ChainState where
  "merged = diamond\<lparr>cs_dag := (cs_dag diamond)\<lparr>
    dag_blocks := [(''g'', diamond_block ''g'' [] 0), (''m'', diamond_block ''m'' [''a'', ''b''] 2),
      (''b'', diamond_block ''b'' [''g''] 1), (''a'', diamond_block ''a'' [''g''] 1)],
    dag_selected_chain := [''g'', ''a'', ''m''],
    dag_selected_parents := [(''g'', None), (''a'', Some ''g''), (''m'', Some ''a'')],
    dag_merge_set_blues := [(''g'', []), (''a'', []), (''m'', [''b''])],
    dag_merge_set_reds := [(''g'', []), (''a'', []), (''m'', [])],
    dag_blue_work := [(''g'', 0), (''a'', 1), (''b'', 1), (''m'', 3)]\<rparr>\<rparr>"

lemmas ordering_eval = merged_def diamond_def diamond_block_def blank_state_def Let_def insort_insert_key_def
  cmp_def less_char_def then_with_def less_eq_reverse_def less_reverse_def lookup_update
  derive_ordered_dag_v2_def ordering_graph_def build_priorities_def ready_key_def finish_order_def
  add_degree_def add_child_def retained_floor_def compact_pruned_checkpoint_def min_of_def

lemma merged_order:
  "derive_ordered_dag_v2 C merged = Some (Inr \<lparr>od_ordering_version = GHOSTDAG_V1_ORDERING_VERSION,
    od_blocks = [''g'', ''a'', ''b'', ''m''], od_digest = ordering_digest C [''g'', ''a'', ''b'', ''m'']\<rparr>)"
  by (simp add: ordering_eval emit_loop.simps)

lemma merged_distinct: "distinct_keys (dag_blocks (cs_dag merged))"
  by (simp add: merged_def distinct_keys_def)

theorem ordering_v2_decides_witness: "distinct_keys (dag_blocks (cs_dag merged)) \<and> orderable merged"
  using ordering_v2_decides [OF merged_distinct, of plain_crypto] merged_order [of plain_crypto] merged_distinct
  by auto

text \<open>
  C3. The reserved order is the canonical one: it lists every block once, parents before children, and
  at every position the block of least key (anchor index, blue before red before chain, work, score,
  height, hash) among those whose parents are already listed. No other list has these properties, so
  the order and its digest do not depend on the iteration order of the node's hash maps.
\<close>

theorem ordering_v2_canonical:
  assumes "distinct_keys (dag_blocks (cs_dag s))" "derive_ordered_dag_v2 C s = Some (Inr res)"
  shows "canonical s (od_blocks res) \<and> (\<forall>xs. canonical s xs \<longrightarrow> xs = od_blocks res)
    \<and> (\<forall>t res'. same_dag s t \<and> distinct_keys (dag_blocks (cs_dag t))
        \<and> derive_ordered_dag_v2 C t = Some (Inr res') \<longrightarrow> res' = res)"
proof -
  have *: "\<exists>ord. canonical t ord \<and> (\<forall>xs. canonical t xs \<longrightarrow> xs = ord) \<and> r = \<lparr>od_ordering_version =
      GHOSTDAG_V1_ORDERING_VERSION, od_blocks = ord, od_digest = ordering_digest C ord\<rparr>"
    if dk: "distinct_keys (dag_blocks (cs_dag t))" and r: "derive_ordered_dag_v2 C t = Some (Inr r)" for t r
  proof -
    from derive_ordered_dag_v2_cases [OF dk, of C]
    obtain P ord where P: "build_priorities t = Inr P" "greedy t P ord" "set ord = block_keys t"
      and ord: "r = \<lparr>od_ordering_version = GHOSTDAG_V1_ORDERING_VERSION, od_blocks = ord,
        od_digest = ordering_digest C ord\<rparr>"
    proof (elim disjE exE conjE)
      fix e assume "derive_ordered_dag_v2 C t = Some (Inl e)"
      with r show thesis by simp
    next
      fix P ord
      assume "build_priorities t = Inr P" "greedy t P ord" "set ord = block_keys t"
        and "derive_ordered_dag_v2 C t = Some (Inr \<lparr>od_ordering_version = GHOSTDAG_V1_ORDERING_VERSION,
          od_blocks = ord, od_digest = ordering_digest C ord\<rparr>)"
      with r show thesis by (intro that [of P ord]) simp_all
    qed
    have "xs = ord" if "canonical t xs" for xs
    proof -
      have xs: "greedy t P xs" "set xs = block_keys t" using that canonical_greedy [OF P(1)] by auto
      have "length xs = length ord"
        using greedy_distinct [OF xs(1)] greedy_distinct [OF P(2)] xs(2) P(3) by (metis distinct_card)
      then show ?thesis using greedy_unique [OF xs(1) P(2)] by blast
    qed
    with P ord canonical_greedy [OF P(1)] show ?thesis by blast
  qed
  obtain ord where ord: "canonical s ord" "\<And>xs. canonical s xs \<Longrightarrow> xs = ord"
    "res = \<lparr>od_ordering_version = GHOSTDAG_V1_ORDERING_VERSION, od_blocks = ord, od_digest = ordering_digest C ord\<rparr>"
    using * [OF assms] by blast
  have "res' = res" if t: "same_dag s t" "distinct_keys (dag_blocks (cs_dag t))"
    "derive_ordered_dag_v2 C t = Some (Inr res')" for t res'
  proof -
    obtain ord' where "canonical t ord'" "res' = \<lparr>od_ordering_version = GHOSTDAG_V1_ORDERING_VERSION,
        od_blocks = ord', od_digest = ordering_digest C ord'\<rparr>"
      using * [OF t(2,3)] by blast
    moreover from this(1) have "ord' = ord" using ord(2) same_dag_canonical [OF t(1)] by simp
    ultimately show ?thesis using ord(3) by simp
  qed
  moreover have "od_blocks res = ord" using ord(3) by simp
  ultimately show ?thesis using ord(1,2) by blast
qed

theorem ordering_v2_canonical_witness:
  "canonical merged [''g'', ''a'', ''b'', ''m''] \<and> \<not> canonical merged [''g'', ''a'', ''m'', ''b'']"
  using ordering_v2_canonical [OF merged_distinct merged_order [of plain_crypto]] by auto



end
