(* ===== verification/Pulse_Pow.thy ===== *)
theory Pulse_Pow
  imports Pulse_PowTarget Pulse_Types
begin

text \<open>
  Proof of work (\<open>pow.rs\<close>): the preimage of a header, its evaluation against the compact target, the
  adapter that miner backends use, header validation and the nonce search. The Keccak and kHeavyHash
  primitives belong to other crates and are the record \<open>kaspa\<close>; everything after the digest takes the digest
  function \<open>H\<close> of a preimage and a nonce as a parameter. \<open>PreimagePanic\<close> stands for the panics of the length
  conversions in the preimage encoding, which the encoding check rules out.
\<close>

section \<open>Data\<close>

datatype PowAlgorithm = KHeavyHash

definition POW_HEADER_PREIMAGE_VERSION :: u8 where "POW_HEADER_PREIMAGE_VERSION = 1"

definition selected_pow_algorithm :: PowAlgorithm where "selected_pow_algorithm = KHeavyHash"

definition selected_pow_name :: string where
  "selected_pow_name = (case selected_pow_algorithm of KHeavyHash \<Rightarrow> ''kHeavyHash'')"

record PowHeaderPreimage =
  pp_version :: u32
  pp_parents :: "string list"
  pp_timestamp :: u64
  pp_difficulty :: u32
  pp_merkle_root :: string
  pp_state_root :: string
  pp_blue_score :: u64
  pp_height :: u64

record PowEvaluation =
  pe_algorithm :: PowAlgorithm
  pe_hash_hex :: string
  pe_hash :: bytes
  pe_score_u64 :: u64
  pe_target_u64 :: u64
  pe_target_hex :: string
  pe_accepted :: bool

datatype PowTargetComparison = MeetsTarget | AboveTarget

fun comparison_accepted :: "PowTargetComparison \<Rightarrow> bool" where
  "comparison_accepted MeetsTarget = True"
| "comparison_accepted AboveTarget = False"

record CanonicalPowTarget =
  ct_bits :: u32
  ct_target :: PowTarget
  ct_target_hex :: string
  ct_target_u64 :: u64
  ct_is_zero :: bool

record CanonicalPowMaterial =
  cm_pre_pow_bytes :: bytes
  cm_sorted_parents :: "string list"
  cm_header_nonce :: u64
  cm_target :: CanonicalPowTarget

record CanonicalPowHash =
  ch_nonce :: u64
  ch_hash :: bytes
  ch_hash_hex :: string
  ch_score_u64 :: u64

record CanonicalPowAttempt =
  ca_algorithm :: PowAlgorithm
  ca_material :: CanonicalPowMaterial
  ca_final_hash :: CanonicalPowHash
  ca_comparison :: PowTargetComparison

datatype PowRejectReason =
    ParentCountTooLarge
  | ParentHashTooLong
  | MerkleRootTooLong
  | StateRootTooLong
  | ScoreAboveTarget
  | PreimagePanic

fun reject_code :: "PowRejectReason \<Rightarrow> string" where
  "reject_code ParentCountTooLarge = ''parent_count_too_large''"
| "reject_code ParentHashTooLong = ''parent_hash_too_long''"
| "reject_code MerkleRootTooLong = ''merkle_root_too_long''"
| "reject_code StateRootTooLong = ''state_root_too_long''"
| "reject_code ScoreAboveTarget = ''score_above_target''"
| "reject_code PreimagePanic = []"

record PowValidationResult =
  pv_algorithm :: string
  pv_accepted :: bool
  pv_hash_hex :: "string option"
  pv_score_u64 :: "u64 option"
  pv_target_u64 :: u64
  pv_difficulty :: u32
  pv_target_hex :: string
  pv_rejection_code :: "string option"
  pv_rejection_reason :: "PowRejectReason option"

text \<open>The primitives of the \<open>sha3\<close>, \<open>kaspa_hashes\<close> and \<open>kaspa_pow\<close> crates.\<close>

record ('hasher, 'matrix) kaspa =
  keccak256 :: "bytes \<Rightarrow> bytes"
  pow_hash_new :: "bytes \<Rightarrow> u64 \<Rightarrow> 'hasher"
  finalize_with_nonce :: "'hasher \<Rightarrow> u64 \<Rightarrow> bytes"
  matrix_generate :: "bytes \<Rightarrow> 'matrix"
  heavy_hash :: "'matrix \<Rightarrow> bytes \<Rightarrow> bytes"

record ('hasher, 'matrix) PreparedKHeavyHasher =
  ph_hasher :: 'hasher
  ph_matrix :: 'matrix

section \<open>Operations\<close>

definition kheavyhash_digest :: "('h, 'm) kaspa \<Rightarrow> bytes \<Rightarrow> u64 \<Rightarrow> bytes" where
  "kheavyhash_digest K pre_pow_bytes nonce =
    (let pre_pow_hash = keccak256 K pre_pow_bytes;
         hasher = pow_hash_new K pre_pow_hash 0;
         initial_hash = finalize_with_nonce K hasher nonce;
         matrix = matrix_generate K pre_pow_hash
     in heavy_hash K matrix initial_hash)"

definition prepared_new :: "('h, 'm) kaspa \<Rightarrow> bytes \<Rightarrow> ('h, 'm) PreparedKHeavyHasher" where
  "prepared_new K pre_pow_bytes =
    (let pre_pow_hash = keccak256 K pre_pow_bytes
     in \<lparr>ph_hasher = pow_hash_new K pre_pow_hash 0, ph_matrix = matrix_generate K pre_pow_hash\<rparr>)"

definition hash_nonce :: "('h, 'm) kaspa \<Rightarrow> ('h, 'm) PreparedKHeavyHasher \<Rightarrow> u64 \<Rightarrow> bytes" where
  "hash_nonce K prepared nonce =
    heavy_hash K (ph_matrix prepared) (finalize_with_nonce K (ph_hasher prepared) nonce)"

definition target_hex :: "crypto \<Rightarrow> PowTarget \<Rightarrow> string" where
  "target_hex C target = hex_encode C target"

definition from_header :: "BlockHeader \<Rightarrow> PowHeaderPreimage" where
  "from_header header = \<lparr>pp_version = h_version header, pp_parents = h_parents header,
    pp_timestamp = h_timestamp header, pp_difficulty = h_difficulty header,
    pp_merkle_root = h_merkle_root header, pp_state_root = h_state_root header,
    pp_blue_score = h_blue_score header, pp_height = h_height header\<rparr>"

definition U16_MAX :: nat where "U16_MAX = 65535"

definition validate_pow_preimage_encoding_view :: "PowHeaderPreimage \<Rightarrow> PowRejectReason + unit" where
  "validate_pow_preimage_encoding_view header =
    (if length (pp_parents header) > U16_MAX then Inl ParentCountTooLarge
     else if list_ex (\<lambda>p. length p > U16_MAX) (pp_parents header) then Inl ParentHashTooLong
     else if length (pp_merkle_root header) > U16_MAX then Inl MerkleRootTooLong
     else if length (pp_state_root header) > U16_MAX then Inl StateRootTooLong
     else Inr ())"

definition validate_pow_preimage_encoding :: "BlockHeader \<Rightarrow> PowRejectReason + unit" where
  "validate_pow_preimage_encoding header = validate_pow_preimage_encoding_view (from_header header)"

definition to_bytes_checked :: "PowHeaderPreimage \<Rightarrow> PowRejectReason + bytes" where
  "to_bytes_checked preimage =
    rbind (validate_pow_preimage_encoding_view preimage) (\<lambda>_.
    ok_or PreimagePanic (canonical_mining_preimage_bytes \<lparr>h_version = pp_version preimage,
      h_parents = pp_parents preimage, h_timestamp = pp_timestamp preimage,
      h_difficulty = pp_difficulty preimage, h_nonce = 0, h_merkle_root = pp_merkle_root preimage,
      h_state_root = pp_state_root preimage, h_blue_score = pp_blue_score preimage,
      h_height = pp_height preimage\<rparr>))"

definition evaluate_pre_pow_bytes_with_nonce ::
  "crypto \<Rightarrow> (bytes \<Rightarrow> u64 \<Rightarrow> bytes) \<Rightarrow> bytes \<Rightarrow> u64 \<Rightarrow> u32 \<Rightarrow> PowEvaluation" where
  "evaluate_pre_pow_bytes_with_nonce C H pre_pow_bytes nonce target_bits =
    (let hash = H pre_pow_bytes nonce; target = target_from_bits target_bits
     in \<lparr>pe_algorithm = KHeavyHash, pe_hash_hex = hex_encode C hash, pe_hash = hash,
         pe_score_u64 = from_be_bytes (take 8 hash), pe_target_u64 = leading_u64 target,
         pe_target_hex = target_hex C target, pe_accepted = compare_pow_hash_to_target hash target\<rparr>)"

definition engine_evaluate_header ::
  "crypto \<Rightarrow> (bytes \<Rightarrow> u64 \<Rightarrow> bytes) \<Rightarrow> BlockHeader \<Rightarrow> PowEvaluation" where
  "engine_evaluate_header C H header =
    (case to_bytes_checked (from_header header) of
       Inr pre_pow_bytes \<Rightarrow>
         evaluate_pre_pow_bytes_with_nonce C H pre_pow_bytes (h_nonce header) (h_difficulty header)
     | Inl _ \<Rightarrow> \<lparr>pe_algorithm = KHeavyHash, pe_hash_hex = [], pe_hash = replicate 32 0,
         pe_score_u64 = - 1, pe_target_u64 = leading_u64 (target_from_bits (h_difficulty header)),
         pe_target_hex = target_hex C (target_from_bits (h_difficulty header)), pe_accepted = False\<rparr>)"

definition target_from_compact_bits :: "crypto \<Rightarrow> u32 \<Rightarrow> CanonicalPowTarget" where
  "target_from_compact_bits C bits =
    (let target = target_from_bits bits
     in \<lparr>ct_bits = bits, ct_target = target, ct_target_hex = target_hex C target,
         ct_target_u64 = leading_u64 target, ct_is_zero = list_all (\<lambda>b. b = 0) target\<rparr>)"

definition pre_pow_material :: "crypto \<Rightarrow> BlockHeader \<Rightarrow> PowRejectReason + CanonicalPowMaterial" where
  "pre_pow_material C header =
    rbind (to_bytes_checked (from_header header)) (\<lambda>pre_pow_bytes.
    Inr \<lparr>cm_pre_pow_bytes = pre_pow_bytes, cm_sorted_parents = sort (h_parents header),
      cm_header_nonce = h_nonce header, cm_target = target_from_compact_bits C (h_difficulty header)\<rparr>)"

definition evaluate_material_with_nonce ::
  "crypto \<Rightarrow> (bytes \<Rightarrow> u64 \<Rightarrow> bytes) \<Rightarrow> CanonicalPowMaterial \<Rightarrow> u64 \<Rightarrow> CanonicalPowAttempt" where
  "evaluate_material_with_nonce C H material nonce =
    (let evaluation = evaluate_pre_pow_bytes_with_nonce C H (cm_pre_pow_bytes material) nonce
           (ct_bits (cm_target material))
     in \<lparr>ca_algorithm = pe_algorithm evaluation, ca_material = material,
         ca_final_hash = \<lparr>ch_nonce = nonce, ch_hash = pe_hash evaluation,
           ch_hash_hex = pe_hash_hex evaluation, ch_score_u64 = pe_score_u64 evaluation\<rparr>,
         ca_comparison = (if pe_accepted evaluation then MeetsTarget else AboveTarget)\<rparr>)"

definition adapter_evaluate_header ::
  "crypto \<Rightarrow> (bytes \<Rightarrow> u64 \<Rightarrow> bytes) \<Rightarrow> BlockHeader \<Rightarrow> PowRejectReason + CanonicalPowAttempt" where
  "adapter_evaluate_header C H header =
    rbind (pre_pow_material C header) (\<lambda>material.
    Inr (evaluate_material_with_nonce C H material (h_nonce header)))"

definition compare_hash_to_target_bits :: "bytes \<Rightarrow> u32 \<Rightarrow> PowTargetComparison" where
  "compare_hash_to_target_bits hash bits =
    (if compare_pow_hash_to_target hash (target_from_bits bits) then MeetsTarget else AboveTarget)"

definition pow_evaluate :: "crypto \<Rightarrow> (bytes \<Rightarrow> u64 \<Rightarrow> bytes) \<Rightarrow> BlockHeader \<Rightarrow> PowEvaluation" where
  "pow_evaluate C H header = engine_evaluate_header C H header"

definition pow_validation_result ::
  "crypto \<Rightarrow> (bytes \<Rightarrow> u64 \<Rightarrow> bytes) \<Rightarrow> BlockHeader \<Rightarrow> PowValidationResult" where
  "pow_validation_result C H header =
    (let target = target_from_bits (h_difficulty header)
     in case validate_pow_preimage_encoding header of
          Inl reason \<Rightarrow> \<lparr>pv_algorithm = selected_pow_name, pv_accepted = False, pv_hash_hex = None,
            pv_score_u64 = None, pv_target_u64 = leading_u64 target, pv_difficulty = h_difficulty header,
            pv_target_hex = target_hex C target, pv_rejection_code = Some (reject_code reason),
            pv_rejection_reason = Some reason\<rparr>
        | Inr _ \<Rightarrow>
            let evaluation = pow_evaluate C H header;
                rejection_reason = (if pe_accepted evaluation then None else Some ScoreAboveTarget)
            in \<lparr>pv_algorithm = selected_pow_name, pv_accepted = pe_accepted evaluation,
                pv_hash_hex = Some (pe_hash_hex evaluation), pv_score_u64 = Some (pe_score_u64 evaluation),
                pv_target_u64 = pe_target_u64 evaluation, pv_difficulty = h_difficulty header,
                pv_target_hex = pe_target_hex evaluation,
                pv_rejection_code = map_option reject_code rejection_reason,
                pv_rejection_reason = rejection_reason\<rparr>)"

definition validate_pow_header ::
  "crypto \<Rightarrow> (bytes \<Rightarrow> u64 \<Rightarrow> bytes) \<Rightarrow> BlockHeader \<Rightarrow> PowRejectReason + unit" where
  "validate_pow_header C H header =
    (let result = pow_validation_result C H header
     in if pv_accepted result then Inr ()
        else Inl (case pv_rejection_reason result of None \<Rightarrow> ScoreAboveTarget | Some reason \<Rightarrow> reason))"

definition pow_hash :: "crypto \<Rightarrow> (bytes \<Rightarrow> u64 \<Rightarrow> bytes) \<Rightarrow> BlockHeader \<Rightarrow> bytes" where
  "pow_hash C H header =
    (case hex_decode C (pe_hash_hex (engine_evaluate_header C H header)) of
       Some bs \<Rightarrow> if length bs = 32 then bs else replicate 32 0
     | None \<Rightarrow> replicate 32 0)"

definition verify_work :: "crypto \<Rightarrow> (bytes \<Rightarrow> u64 \<Rightarrow> bytes) \<Rightarrow> BlockHeader \<Rightarrow> bool" where
  "verify_work C H header =
    (case validate_pow_preimage_encoding header of
       Inl _ \<Rightarrow> False
     | Inr _ \<Rightarrow>
         compare_pow_hash_to_target (pow_hash C H header) (target_from_bits (h_difficulty header)))"

text \<open>The search over the nonces \<open>i, i + 1, ...\<close>, \<open>n\<close> of them; the header keeps the last nonce tried.\<close>

fun mine_loop ::
  "crypto \<Rightarrow> (bytes \<Rightarrow> u64 \<Rightarrow> bytes) \<Rightarrow> BlockHeader \<Rightarrow> u64 \<Rightarrow> nat \<Rightarrow> BlockHeader \<times> (u64 \<times> string) option" where
  "mine_loop C H header i 0 = (header, None)"
| "mine_loop C H header i (Suc n) =
    (let header' = header\<lparr>h_nonce := i\<rparr>; evaluation = pow_evaluate C H header'
     in if pe_accepted evaluation then (header', Some (i + 1, pe_hash_hex evaluation))
        else mine_loop C H header' (i + 1) n)"

definition mine_header ::
  "crypto \<Rightarrow> (bytes \<Rightarrow> u64 \<Rightarrow> bytes) \<Rightarrow> BlockHeader \<Rightarrow> u64 \<Rightarrow> BlockHeader \<times> bool \<times> u64 \<times> string" where
  "mine_header C H header max_tries =
    (let tries = max max_tries 1
     in case mine_loop C H header 0 (unat tries) of
          (header', Some (tried, hash_hex)) \<Rightarrow> (header', True, tried, hash_hex)
        | (header', None) \<Rightarrow> (header', False, tries, pe_hash_hex (pow_evaluate C H header')))"

section \<open>Acceptance\<close>

definition encodable :: "BlockHeader \<Rightarrow> bool" where
  "encodable header \<longleftrightarrow> length (h_parents header) \<le> 65535 \<and> list_all (\<lambda>p. length p \<le> 65535) (h_parents header)
    \<and> length (h_merkle_root header) \<le> 65535 \<and> length (h_state_root header) \<le> 65535"

text \<open>The header's preimage and whether its digest meets the target as a number.\<close>

definition preimage_of :: "BlockHeader \<Rightarrow> bytes" where
  "preimage_of header = the (canonical_mining_preimage_bytes (header\<lparr>h_nonce := 0\<rparr>))"

definition meets_target :: "(bytes \<Rightarrow> u64 \<Rightarrow> bytes) \<Rightarrow> BlockHeader \<Rightarrow> bool" where
  "meets_target H header \<longleftrightarrow>
    be_value (H (preimage_of header) (h_nonce header)) \<le> be_value (target_from_bits (h_difficulty header))"

lemma validate_encoding_Inr: "validate_pow_preimage_encoding header = Inr u \<longleftrightarrow> encodable header"
  by (cases u) (auto simp: validate_pow_preimage_encoding_def validate_pow_preimage_encoding_view_def from_header_def
      encodable_def U16_MAX_def list_all_iff list_ex_iff not_less not_le)

lemma those_encode_u16:
  "list_all (\<lambda>p. length p \<le> 65535) ps \<Longrightarrow> \<exists>es. those (map encode_u16_str ps) = Some es"
proof (induction ps)
  case (Cons p ps)
  then obtain es where "those (map encode_u16_str ps) = Some es" by auto
  moreover obtain e where "encode_u16_str p = Some e"
    using Cons.prems by (auto simp: encode_u16_str_def try_from_nat_def)
  ultimately show ?case by simp
qed simp

lemma preimage_encodable:
  assumes "encodable header"
  shows "canonical_mining_preimage_bytes (header\<lparr>h_nonce := 0\<rparr>) = Some (preimage_of header)"
proof -
  have "list_all (\<lambda>p. length p \<le> 65535) (sort (h_parents header))" using assms by (simp add: encodable_def list_all_iff)
  then obtain es where "those (map encode_u16_str (sort (h_parents header))) = Some es" using those_encode_u16 by blast
  then have "\<exists>bs. canonical_mining_preimage_bytes (header\<lparr>h_nonce := 0\<rparr>) = Some bs"
    using assms by (auto simp: canonical_mining_preimage_bytes_def encodable_def encode_u16_str_def try_from_nat_def)
  then show ?thesis by (auto simp: preimage_of_def)
qed

lemma to_bytes_checked_Inr: "to_bytes_checked (from_header header) = Inr bs \<longleftrightarrow> encodable header \<and> bs = preimage_of header"
proof (cases "encodable header")
  case True
  then have "validate_pow_preimage_encoding_view (from_header header) = Inr ()"
    using validate_encoding_Inr [of header "()"] by (simp add: validate_pow_preimage_encoding_def)
  moreover have "\<lparr>h_version = pp_version (from_header header), h_parents = pp_parents (from_header header),
      h_timestamp = pp_timestamp (from_header header), h_difficulty = pp_difficulty (from_header header), h_nonce = 0,
      h_merkle_root = pp_merkle_root (from_header header), h_state_root = pp_state_root (from_header header),
      h_blue_score = pp_blue_score (from_header header), h_height = pp_height (from_header header)\<rparr> = header\<lparr>h_nonce := 0\<rparr>"
    by (cases header) (simp add: from_header_def)
  ultimately show ?thesis using preimage_encodable [OF True] True by (auto simp: to_bytes_checked_def)
next
  case False
  then have "validate_pow_preimage_encoding_view (from_header header) \<noteq> Inr ()"
    using validate_encoding_Inr [of header "()"] by (simp add: validate_pow_preimage_encoding_def)
  with False show ?thesis by (auto simp: to_bytes_checked_def result_simps)
qed

lemma length_target: "length (target_from_bits bits) = 32"
  by (rule length_target_from_bits)

lemma pow_accepted_iff:
  assumes "\<And>bs n. length (H bs n) = 32"
  shows "pe_accepted (pow_evaluate C H header) \<longleftrightarrow> encodable header \<and> meets_target H header"
proof (cases "encodable header")
  case True
  then have "to_bytes_checked (from_header header) = Inr (preimage_of header)" by (simp add: to_bytes_checked_Inr)
  with True show ?thesis
    by (simp add: pow_evaluate_def engine_evaluate_header_def evaluate_pre_pow_bytes_with_nonce_def Let_def
        compare_pow_hash_to_target_def meets_target_def be_value_le_iff assms length_target)
next
  case False
  then obtain e where "to_bytes_checked (from_header header) = Inl e"
    using to_bytes_checked_Inr [of header] by (cases "to_bytes_checked (from_header header)") auto
  with False show ?thesis by (simp add: pow_evaluate_def engine_evaluate_header_def)
qed

lemma validate_pow_header_cases:
  assumes "\<And>bs n. length (H bs n) = 32"
  shows "validate_pow_header C H header =
    (case validate_pow_preimage_encoding header of
       Inl reason \<Rightarrow> Inl reason
     | Inr _ \<Rightarrow> if meets_target H header then Inr () else Inl ScoreAboveTarget)"
proof (cases "validate_pow_preimage_encoding header")
  case (Inl reason)
  then show ?thesis by (simp add: validate_pow_header_def pow_validation_result_def Let_def)
next
  case (Inr u)
  then have "encodable header" by (simp add: validate_encoding_Inr)
  with Inr pow_accepted_iff [where H = H and C = C and header = header, OF assms] show ?thesis
    by (simp add: validate_pow_header_def pow_validation_result_def Let_def)
qed

lemma encoding_reasons: "validate_pow_preimage_encoding header \<noteq> Inl PreimagePanic"
  "validate_pow_preimage_encoding header \<noteq> Inl ScoreAboveTarget"
  by (simp_all add: validate_pow_preimage_encoding_def validate_pow_preimage_encoding_view_def)

lemma verify_work_iff:
  assumes "\<And>bs n. length (H bs n) = 32" "hex_roundtrip C"
  shows "verify_work C H header \<longleftrightarrow> encodable header \<and> meets_target H header"
proof (cases "encodable header")
  case True
  then have "to_bytes_checked (from_header header) = Inr (preimage_of header)"
    "validate_pow_preimage_encoding header = Inr ()"
    by (simp_all add: to_bytes_checked_Inr validate_encoding_Inr)
  with True assms show ?thesis
    by (simp add: verify_work_def pow_hash_def engine_evaluate_header_def evaluate_pre_pow_bytes_with_nonce_def Let_def
        hex_roundtrip_def compare_pow_hash_to_target_def meets_target_def be_value_le_iff length_target)
next
  case False
  then show ?thesis
    using validate_encoding_Inr [of header] by (auto simp: verify_work_def split: sum.splits)
qed

lemma adapter_accepts_iff:
  assumes "\<And>bs n. length (H bs n) = 32"
  shows "(\<exists>a. adapter_evaluate_header C H header = Inr a \<and> comparison_accepted (ca_comparison a))
    \<longleftrightarrow> encodable header \<and> meets_target H header"
  by (auto simp: adapter_evaluate_header_def pre_pow_material_def evaluate_material_with_nonce_def Let_def
      to_bytes_checked_Inr result_simps target_from_compact_bits_def evaluate_pre_pow_bytes_with_nonce_def
      compare_pow_hash_to_target_def meets_target_def be_value_le_iff assms length_target split: if_splits)

lemma mine_loop_None:
  assumes "mine_loop C H header i n = (header', None)" "unat i + n < 2 ^ 64"
  shows "\<forall>j < n. \<not> pe_accepted (pow_evaluate C H (header\<lparr>h_nonce := i + of_nat j\<rparr>))"
  using assms
proof (induction n arbitrary: header i)
  case (Suc n)
  from Suc.prems(1) have no: "\<not> pe_accepted (pow_evaluate C H (header\<lparr>h_nonce := i\<rparr>))"
    and rest: "mine_loop C H (header\<lparr>h_nonce := i\<rparr>) (i + 1) n = (header', None)"
    by (auto simp: Let_def split: if_splits)
  have "unat (i + 1) = unat i + 1" using Suc.prems(2) unat_add_small [of i 1] by simp
  then have "\<forall>j < n. \<not> pe_accepted (pow_evaluate C H (header\<lparr>h_nonce := i\<rparr>\<lparr>h_nonce := i + 1 + of_nat j\<rparr>))"
    using Suc.IH [OF rest] Suc.prems(2) by simp
  with no show ?case by (auto simp: All_less_Suc2 add.assoc)
qed simp

lemma mine_loop_Some:
  assumes "mine_loop C H header i n = (header', Some (c, hx))"
  shows "\<exists>j < n. header' = header\<lparr>h_nonce := i + of_nat j\<rparr> \<and> c = i + of_nat j + 1
    \<and> pe_accepted (pow_evaluate C H header') \<and> hx = pe_hash_hex (pow_evaluate C H header')
    \<and> (\<forall>k < j. \<not> pe_accepted (pow_evaluate C H (header\<lparr>h_nonce := i + of_nat k\<rparr>)))"
  using assms
proof (induction n arbitrary: header i)
  case (Suc n)
  show ?case
  proof (cases "pe_accepted (pow_evaluate C H (header\<lparr>h_nonce := i\<rparr>))")
    case True
    with Suc.prems show ?thesis by (intro exI [of _ 0]) (auto simp: Let_def)
  next
    case False
    with Suc.prems have rest: "mine_loop C H (header\<lparr>h_nonce := i\<rparr>) (i + 1) n = (header', Some (c, hx))"
      by (simp add: Let_def)
    from Suc.IH [OF rest] obtain j where j: "j < n" "header' = header\<lparr>h_nonce := i + 1 + of_nat j\<rparr>"
      "c = i + 1 + of_nat j + 1" "pe_accepted (pow_evaluate C H header')"
      "hx = pe_hash_hex (pow_evaluate C H header')"
      "\<forall>k < j. \<not> pe_accepted (pow_evaluate C H (header\<lparr>h_nonce := i + 1 + of_nat k\<rparr>))"
      by auto
    have "\<forall>k < Suc j. \<not> pe_accepted (pow_evaluate C H (header\<lparr>h_nonce := i + of_nat k\<rparr>))"
      using False j(6) by (auto simp: All_less_Suc2 add.assoc)
    with j show ?thesis by (intro exI [of _ "Suc j"]) (auto simp: add.assoc)
  qed
qed simp

section \<open>Properties\<close>


definition sample_header :: BlockHeader where
  "sample_header = \<lparr>h_version = 1, h_parents = [''g''], h_timestamp = 1, h_difficulty = 0x01000000, h_nonce = 0,
    h_merkle_root = ''m'', h_state_root = ''s'', h_blue_score = 1, h_height = 1\<rparr>"

text \<open>A digest function for examples: it is above the easiest target until nonce 3.\<close>

definition sample_digest :: "bytes \<Rightarrow> u64 \<Rightarrow> bytes" where
  "sample_digest bs nonce = replicate 32 (if nonce < 3 then 0xff else 0)"

lemma length_sample_digest: "length (sample_digest bs n) = 32"
  by (simp add: sample_digest_def)

definition sample_kaspa :: "(bytes, bytes) kaspa" where
  "sample_kaspa = \<lparr>keccak256 = (\<lambda>b. b), pow_hash_new = (\<lambda>b n. b), finalize_with_nonce = (\<lambda>b n. b @ to_le_bytes n),
    matrix_generate = (\<lambda>b. b), heavy_hash = (\<lambda>m h. m @ h)\<rparr>"

lemma be_value_zeros: "be_value (replicate n 0) = 0"
  by (induction n) simp_all


text \<open>
  C20. The nonce search is exact. When it reports success, the header it returns differs from the given
  one only in the nonce, passes the node's validation, carries the least accepted nonce, and the
  number of tries is that nonce plus one. When it reports failure, it has tried the given number of
  nonces, at least one, and the node rejects each of them.
\<close>

theorem mine_header_exact:
  assumes "\<And>bs n. length (H bs n) = 32"
  shows "case mine_header C H header max_tries of (header', found, tried, hash_hex) \<Rightarrow>
    if found then \<exists>j. j < max (unat max_tries) 1 \<and> header' = header\<lparr>h_nonce := of_nat j\<rparr> \<and> unat tried = j + 1
        \<and> validate_pow_header C H header' = Inr ()
        \<and> (\<forall>k < j. validate_pow_header C H (header\<lparr>h_nonce := of_nat k\<rparr>) \<noteq> Inr ())
    else unat tried = max (unat max_tries) 1
        \<and> (\<forall>k < max (unat max_tries) 1. validate_pow_header C H (header\<lparr>h_nonce := of_nat k\<rparr>) \<noteq> Inr ())"
proof -
  have ok: "validate_pow_header C H h = Inr () \<longleftrightarrow> pe_accepted (pow_evaluate C H h)" for h
    using validate_encoding_Inr [of h] unfolding validate_pow_header_cases [where H = H, OF assms]
      pow_accepted_iff [where H = H, OF assms] by (auto split: sum.splits)
  define N where "N = max (unat max_tries) 1"
  have tries: "unat (max max_tries 1) = N"
    by (simp add: N_def max_def word_le_nat_alt)
  have bound: "N < 2 ^ 64" using unat_u64_bound [of max_tries] by (simp add: N_def)
  obtain header' r where loop: "mine_loop C H header 0 (N) = (header', r)" by (cases "mine_loop C H header 0 (N)")
  show ?thesis
  proof (cases r)
    case None
    have "\<forall>k < N. validate_pow_header C H (header\<lparr>h_nonce := of_nat k\<rparr>) \<noteq> Inr ()"
      using mine_loop_None [of C H header 0] loop None bound by (auto simp: ok)
    then show ?thesis
      unfolding N_def [symmetric] by (simp add: mine_header_def Let_def tries loop None)
  next
    case (Some p)
    obtain c hx where p: "p = (c, hx)" by (cases p)
    obtain j where j: "j < N" "header' = header\<lparr>h_nonce := of_nat j\<rparr>" "c = of_nat j + 1"
      "pe_accepted (pow_evaluate C H header')"
      "\<forall>k < j. \<not> pe_accepted (pow_evaluate C H (header\<lparr>h_nonce := of_nat k\<rparr>))"
      using mine_loop_Some [of C H header 0 "N" header' c hx] loop Some p by auto
    have "unat c = unat (of_nat (j + 1) :: u64)" using j(3) by (simp add: add.commute)
    also have "\<dots> = j + 1" using j(1) bound by (intro unat_word_of_nat_small) simp
    finally have "unat c = j + 1" .
    with j show ?thesis
      unfolding N_def [symmetric] by (auto simp: mine_header_def Let_def tries loop Some p ok)
  qed
qed

lemma sample_validates:
  assumes "k < 8"
  shows "validate_pow_header plain_crypto sample_digest (sample_header\<lparr>h_nonce := of_nat k\<rparr>) = Inr () \<longleftrightarrow> 3 \<le> k"
proof -
  have "encodable (sample_header\<lparr>h_nonce := of_nat k\<rparr>)" by (simp add: encodable_def sample_header_def)
  then have enc: "validate_pow_preimage_encoding (sample_header\<lparr>h_nonce := of_nat k\<rparr>) = Inr ()"
    by (simp add: validate_encoding_Inr)
  have "unat (of_nat k :: u64) = k" using assms by (intro unat_word_of_nat_small) simp
  then have lt: "(of_nat k :: u64) < 3 \<longleftrightarrow> k < 3" by (simp add: word_less_nat_alt)
  have zero: "target_from_bits 0x01000000 = replicate 32 0" by (simp add: target_from_bits_def)
  have "replicate 32 x = x # replicate 31 x" for x :: u8 using replicate_Suc [of 31 x] by simp
  then have "\<not> replicate 32 (0xff :: u8) \<le> replicate 32 0" by simp
  then have "be_value (replicate 32 (0xff :: u8)) \<noteq> 0"
    using be_value_le_iff [of "replicate 32 (0xff :: u8)" "replicate 32 0"] by (simp add: be_value_zeros)
  then have "meets_target sample_digest (sample_header\<lparr>h_nonce := of_nat k\<rparr>) \<longleftrightarrow> \<not> k < 3"
    by (auto simp: meets_target_def sample_digest_def sample_header_def lt be_value_zeros zero)
  then show ?thesis
    unfolding validate_pow_header_cases [where H = sample_digest, OF length_sample_digest] by (auto simp: enc not_less)
qed

theorem mine_header_exact_witness:
  "case mine_header plain_crypto sample_digest sample_header 8 of (header', found, tried, hash_hex) \<Rightarrow>
    found \<and> header' = sample_header\<lparr>h_nonce := 3\<rparr> \<and> unat tried = 4"
proof -
  obtain header' found tried hash_hex
    where m: "mine_header plain_crypto sample_digest sample_header 8 = (header', found, tried, hash_hex)"
    by (cases "mine_header plain_crypto sample_digest sample_header 8")
  note exact = mine_header_exact [where H = sample_digest and C = plain_crypto and header = sample_header
      and max_tries = 8, OF length_sample_digest, unfolded m prod.case]
  have found
  proof (rule ccontr)
    assume "\<not> found"
    with exact have no: "\<And>k. k < 8 \<Longrightarrow>
        validate_pow_header plain_crypto sample_digest (sample_header\<lparr>h_nonce := of_nat k\<rparr>) \<noteq> Inr ()"
      by simp
    from no [of 3] sample_validates [of 3] show False by simp
  qed
  with exact obtain j where j: "j < 8" "header' = sample_header\<lparr>h_nonce := of_nat j\<rparr>" "unat tried = j + 1"
    "validate_pow_header plain_crypto sample_digest header' = Inr ()"
    "\<And>k. k < j \<Longrightarrow> validate_pow_header plain_crypto sample_digest (sample_header\<lparr>h_nonce := of_nat k\<rparr>) \<noteq> Inr ()"
    by auto
  have "3 \<le> j" using j(4) sample_validates [OF j(1)] unfolding j(2) by blast
  moreover have "\<not> 3 < j" using j(5) [of 3] sample_validates [of 3] by auto
  ultimately have "j = 3" by simp
  with j m \<open>found\<close> show ?thesis by simp
qed

end
