(* ===== verification/Pulse_Mempool.thy ===== *)
theory Pulse_Mempool
  imports Pulse_Ledger Pulse_Compare
begin

text \<open>
  The mempool (\<open>mempool.rs\<close>): pressure tiers, the canonical order of pending transactions, expiry of
  transactions with all their descendants, and reconciliation with a new UTXO view, which revalidates the
  pending transactions in first-seen order until a pass admits nothing more.
\<close>

section \<open>Operations\<close>

subsection \<open>Pressure\<close>

datatype MempoolPressureTier = Normal | Elevated | High | Saturated

fun tier_as_str :: "MempoolPressureTier \<Rightarrow> string" where
  "tier_as_str Normal = ''normal''"
| "tier_as_str Elevated = ''elevated''"
| "tier_as_str High = ''high_pressure''"
| "tier_as_str Saturated = ''saturated''"

definition MEMPOOL_PRESSURE_ELEVATED_BPS :: u64 where "MEMPOOL_PRESSURE_ELEVATED_BPS = 6000"
definition MEMPOOL_PRESSURE_HIGH_BPS :: u64 where "MEMPOOL_PRESSURE_HIGH_BPS = 8000"
definition MEMPOOL_PRESSURE_SATURATED_BPS :: u64 where "MEMPOOL_PRESSURE_SATURATED_BPS = 9500"

definition mempool_pressure_bps :: "nat \<Rightarrow> nat \<Rightarrow> u64" where
  "mempool_pressure_bps used capacity =
    (if capacity = 0 then 0
     else min (saturating_mul (of_nat used) 10000 div of_nat capacity) 10000)"

definition pressure_tier_from_bps :: "u64 \<Rightarrow> MempoolPressureTier" where
  "pressure_tier_from_bps pressure_bps =
    (if pressure_bps \<le> 5999 then Normal
     else if MEMPOOL_PRESSURE_ELEVATED_BPS \<le> pressure_bps \<and> pressure_bps \<le> 7999 then Elevated
     else if MEMPOOL_PRESSURE_HIGH_BPS \<le> pressure_bps \<and> pressure_bps \<le> 9499 then High
     else Saturated)"

fun tier_rank :: "MempoolPressureTier \<Rightarrow> nat" where
  "tier_rank Normal = 0"
| "tier_rank Elevated = 1"
| "tier_rank High = 2"
| "tier_rank Saturated = 3"

definition combined_pressure_tier :: "u64 \<Rightarrow> u64 \<Rightarrow> MempoolPressureTier" where
  "combined_pressure_tier mempool_pressure orphan_pressure =
    (let a = pressure_tier_from_bps mempool_pressure; b = pressure_tier_from_bps orphan_pressure
     in if tier_rank b < tier_rank a then a else b)"

subsection \<open>Order and age\<close>

record MempoolReconcileResult =
  rr_removed_txids :: "Hash list"
  rr_kept_txids :: "Hash list"

record MempoolExpiryResult =
  er_expired_txids :: "Hash list"
  er_kept_txids :: "Hash list"

definition assign_first_seen :: "Hash \<Rightarrow> Mempool \<Rightarrow> Mempool" where
  "assign_first_seen txid m =
    (if contains_key (mp_first_seen m) txid then m
     else m\<lparr>mp_next_first_seen := saturating_add (mp_next_first_seen m) 1,
       mp_first_seen := AList.update txid (mp_next_first_seen m) (mp_first_seen m)\<rparr>)"

definition first_seen_key :: "(Hash \<times> u64) list \<Rightarrow> Hash \<Rightarrow> u64 \<times> Hash" where
  "first_seen_key first_seen txid =
    ((case lookup first_seen txid of None \<Rightarrow> - 1 | Some sequence \<Rightarrow> sequence), txid)"

definition canonical_mempool_txids :: "ChainState \<Rightarrow> Hash list" where
  "canonical_mempool_txids state =
    sort_key (first_seen_key (mp_first_seen (cs_mempool state)))
      (sort (map fst (mp_transactions (cs_mempool state))))"

definition mempool_logical_clock :: "ChainState \<Rightarrow> u64" where
  "mempool_logical_clock state = dag_best_height (cs_dag state)"

definition record_mempool_admission_height :: "Hash \<Rightarrow> ChainState \<Rightarrow> ChainState" where
  "record_mempool_admission_height txid state =
    state\<lparr>cs_mempool := (cs_mempool state)\<lparr>mp_admission_height :=
      AList.update txid (mempool_logical_clock state) (mp_admission_height (cs_mempool state))\<rparr>\<rparr>"

definition mempool_tx_is_expired :: "Hash \<Rightarrow> ChainState \<Rightarrow> u64 \<Rightarrow> u64 \<Rightarrow> bool" where
  "mempool_tx_is_expired txid state current_height max_age_blocks =
    (case lookup (mp_admission_height (cs_mempool state)) txid of
       None \<Rightarrow> False
     | Some admission_height \<Rightarrow>
         if admission_height > current_height then False
         else case checked_add admission_height max_age_blocks of
             None \<Rightarrow> False
           | Some deadline \<Rightarrow> current_height \<ge> deadline)"

subsection \<open>Expiry\<close>

text \<open>The children map: \<open>entry(parent).or_default().insert(txid)\<close> for every input with a live parent.\<close>

definition link_child :: "Hash \<Rightarrow> Hash \<Rightarrow> (Hash \<times> Hash list) list \<Rightarrow> (Hash \<times> Hash list) list" where
  "link_child parent txid children =
    AList.update parent
      (insort_insert txid (case lookup children parent of None \<Rightarrow> [] | Some txids \<Rightarrow> txids)) children"

definition link_inputs ::
  "ChainState \<Rightarrow> Transaction \<Rightarrow> (Hash \<times> Hash list) list \<Rightarrow> (Hash \<times> Hash list) list" where
  "link_inputs state tx children =
    fold (\<lambda>input children.
        if contains_key (mp_transactions (cs_mempool state)) (op_txid (in_previous_output input))
        then link_child (op_txid (in_previous_output input)) (tx_txid tx) children else children)
      (tx_inputs tx) children"

definition mempool_children :: "ChainState \<Rightarrow> (Hash \<times> Hash list) list" where
  "mempool_children state =
    fold (link_inputs state) (map snd (mp_transactions (cs_mempool state))) []"

definition kids :: "(Hash \<times> Hash list) list \<Rightarrow> Hash \<Rightarrow> Hash list" where
  "kids children txid = (case lookup children txid of None \<Rightarrow> [] | Some txids \<Rightarrow> txids)"

definition expire_children :: "Hash list \<Rightarrow> Hash list \<times> Hash list \<Rightarrow> Hash list \<times> Hash list" where
  "expire_children descendants acc =
    fold (\<lambda>descendant (expired, pending).
        if descendant \<in> set expired then (expired, pending)
        else (insort_insert descendant expired, pending @ [descendant]))
      descendants acc"

definition all_kids :: "(Hash \<times> Hash list) list \<Rightarrow> Hash set" where
  "all_kids children = (\<Union>(_, txids) \<in> set children. set txids)"

lemma kids_subset: "set (kids children txid) \<subseteq> all_kids children"
proof (cases "lookup children txid")
  case (Some txids)
  then have "(txid, txids) \<in> set children" by (rule map_of_SomeD)
  with Some show ?thesis by (force simp: kids_def all_kids_def)
qed (simp add: kids_def)

lemma finite_all_kids [simp]: "finite (all_kids children)"
  by (auto simp: all_kids_def)

lemma expire_children_measure:
  assumes "set ds \<subseteq> U" "finite U" "expire_children ds (e, p) = (e', p')"
  shows "card (U - set e') + length p' = card (U - set e) + length p"
  using assms
proof (induction ds arbitrary: e p)
  case (Cons d ds)
  show ?case
  proof (cases "d \<in> set e")
    case True
    with Cons show ?thesis by (simp add: expire_children_def)
  next
    case False
    with Cons.prems have "expire_children ds (insort_insert d e, p @ [d]) = (e', p')"
      by (simp add: expire_children_def)
    from Cons.IH [OF _ Cons.prems(2) this] Cons.prems(1)
    have "card (U - set e') + length p' = card (U - insert d (set e)) + (length p + 1)"
      by (simp add: set_insort_insert)
    moreover have "card (U - set e) = Suc (card (U - insert d (set e)))"
      using False Cons.prems(1,2) by (metis Diff_insert card_Suc_Diff1 Diff_iff finite_Diff list.set_intros(1) subsetD)
    ultimately show ?thesis by simp
  qed
qed (simp add: expire_children_def)

function expire_loop :: "(Hash \<times> Hash list) list \<Rightarrow> Hash list \<Rightarrow> Hash list \<Rightarrow> Hash list" where
  "expire_loop children expired [] = expired"
| "expire_loop children expired (txid # pending) =
    (let (expired', pending') = expire_children (kids children txid) (expired, pending)
     in expire_loop children expired' pending')"
  by pat_completeness auto
termination
proof (relation "measure (\<lambda>(children, expired, pending). card (all_kids children - set expired) + length pending)")
  fix children expired txid pending x e' p'
  assume "x = expire_children (kids children txid) (expired, pending)" "(e', p') = x"
  then have "card (all_kids children - set e') + length p' = card (all_kids children - set expired) + length pending"
    using expire_children_measure [OF kids_subset finite_all_kids] by metis
  then show "((children, e', p'), (children, expired, txid # pending)) \<in>
      measure (\<lambda>(children, expired, pending). card (all_kids children - set expired) + length pending)"
    by simp
qed simp

definition retain_keys :: "('k \<Rightarrow> bool) \<Rightarrow> ('k \<times> 'v) list \<Rightarrow> ('k \<times> 'v) list" where
  "retain_keys p m = filter (\<lambda>(k, _). p k) m"

definition all_inputs :: "(Hash \<times> Transaction) list \<Rightarrow> OutPoint list" where
  "all_inputs txs = fold (\<lambda>(_, tx) spent. fold (\<lambda>input. List.insert (in_previous_output input)) (tx_inputs tx) spent)
    txs []"

definition prune_expired_mempool :: "ChainState \<Rightarrow> u64 \<Rightarrow> u64 \<Rightarrow> ChainState \<times> MempoolExpiryResult" where
  "prune_expired_mempool state current_height max_age_blocks =
    (let m = cs_mempool state;
         roots = fold insort_insert
           (filter (\<lambda>txid. mempool_tx_is_expired txid state current_height max_age_blocks)
             (map fst (mp_transactions m))) [];
         expired = expire_loop (mempool_children state) roots roots;
         transactions = fold AList.delete expired (mp_transactions m);
         live = contains_key transactions;
         state' = state\<lparr>cs_mempool := m\<lparr>mp_transactions := transactions,
           mp_first_seen := retain_keys live (fold AList.delete expired (mp_first_seen m)),
           mp_admission_height := retain_keys live (fold AList.delete expired (mp_admission_height m)),
           mp_spent_outpoints := all_inputs transactions\<rparr>\<rparr>
     in (state', \<lparr>er_expired_txids = expired, er_kept_txids = canonical_mempool_txids state'\<rparr>))"

subsection \<open>Reconciliation\<close>

fun spend_in_mempool :: "TxInput list \<Rightarrow> Mempool \<Rightarrow> Mempool \<times> (PulseError + unit)" where
  "spend_in_mempool [] m = (m, Inr ())"
| "spend_in_mempool (input # inputs) m =
    (if in_previous_output input \<in> set (mp_spent_outpoints m) then (m, Inl DoubleSpend)
     else spend_in_mempool inputs
       (m\<lparr>mp_spent_outpoints := in_previous_output input # mp_spent_outpoints m\<rparr>))"

definition simulate_mempool_accept :: "Transaction \<Rightarrow> ChainState \<Rightarrow> ChainState \<times> (PulseError + unit)" where
  "simulate_mempool_accept tx state =
    (case spend_in_mempool (tx_inputs tx) (cs_mempool state) of
       (m, Inl e) \<Rightarrow> (state\<lparr>cs_mempool := m\<rparr>, Inl e)
     | (m, Inr _) \<Rightarrow>
         let m = assign_first_seen (tx_txid tx) m
         in (state\<lparr>cs_mempool := m\<lparr>mp_transactions :=
               AList.update (tx_txid tx) tx (mp_transactions m)\<rparr>\<rparr>, Inr ()))"

record ReconcilePass =
  rp_working :: ChainState
  rp_next_pending :: "Transaction list"
  rp_progressed :: bool
  rp_kept :: "Hash list"
  rp_removed :: "Hash list"

definition reconcile_tx :: "crypto \<Rightarrow> Transaction \<Rightarrow> ReconcilePass \<Rightarrow> ReconcilePass" where
  "reconcile_tx C tx p =
    (case validate_transaction C tx (rp_working p) of
       Inr _ \<Rightarrow>
         (case simulate_mempool_accept tx (rp_working p) of
            (working, Inr _) \<Rightarrow>
              p\<lparr>rp_working := working, rp_kept := rp_kept p @ [tx_txid tx], rp_progressed := True\<rparr>
          | (working, Inl _) \<Rightarrow>
              p\<lparr>rp_working := working, rp_removed := rp_removed p @ [tx_txid tx]\<rparr>)
     | Inl UtxoNotFound \<Rightarrow> p\<lparr>rp_next_pending := rp_next_pending p @ [tx]\<rparr>
     | Inl _ \<Rightarrow> p\<lparr>rp_removed := rp_removed p @ [tx_txid tx]\<rparr>)"

text \<open>One pass over the pending transactions.\<close>

definition reconcile_pass ::
  "crypto \<Rightarrow> Transaction list \<Rightarrow> ChainState \<Rightarrow> Hash list \<Rightarrow> Hash list \<Rightarrow> ReconcilePass" where
  "reconcile_pass C pending working kept removed =
    fold (reconcile_tx C) pending \<lparr>rp_working = working, rp_next_pending = [], rp_progressed = False,
      rp_kept = kept, rp_removed = removed\<rparr>"

lemma reconcile_tx_measure:
  "length (rp_next_pending (reconcile_tx C tx p)) + (if rp_progressed (reconcile_tx C tx p) then 1 else 0)
    \<le> length (rp_next_pending p) + (if rp_progressed p then 1 else 0) + 1"
  "rp_progressed p \<Longrightarrow> length (rp_next_pending (reconcile_tx C tx p)) \<le> Suc (length (rp_next_pending p))"
  "rp_progressed p \<Longrightarrow> rp_progressed (reconcile_tx C tx p)"
  by (auto simp: reconcile_tx_def split: sum.splits prod.splits PulseError.splits)

lemma reconcile_fold_measure:
  "length (rp_next_pending (fold (reconcile_tx C) txs p)) + (if rp_progressed (fold (reconcile_tx C) txs p) then 1 else 0)
    \<le> length (rp_next_pending p) + (if rp_progressed p then 1 else 0) + length txs"
proof (induction txs arbitrary: p)
  case (Cons tx txs)
  show ?case using Cons.IH [of "reconcile_tx C tx p"] reconcile_tx_measure(1) [of C tx p] by simp
qed simp

function reconcile_loop ::
  "crypto \<Rightarrow> Transaction list \<Rightarrow> ChainState \<Rightarrow> Hash list \<Rightarrow> Hash list \<Rightarrow>
    ChainState \<times> Hash list \<times> Hash list" where
  "reconcile_loop C pending working kept removed =
    (if pending = [] then (working, kept, removed)
     else
       let p = reconcile_pass C pending working kept removed in
       if \<not> rp_progressed p then
         (rp_working p, rp_kept p, rp_removed p @ map tx_txid (rp_next_pending p))
       else reconcile_loop C (rp_next_pending p) (rp_working p) (rp_kept p) (rp_removed p))"
  by pat_completeness auto
termination
proof (relation "measure (\<lambda>(C, pending, working, kept, removed). length pending)")
  fix C pending working kept removed p
  assume p: "p = reconcile_pass C pending working kept removed" and "\<not> \<not> rp_progressed p"
  then show "((C, rp_next_pending p, rp_working p, rp_kept p, rp_removed p), C, pending, working, kept, removed)
      \<in> measure (\<lambda>(C, pending, working, kept, removed). length pending)"
    using reconcile_fold_measure [of C pending
      "\<lparr>rp_working = working, rp_next_pending = [], rp_progressed = False, rp_kept = kept, rp_removed = removed\<rparr>"]
    by (simp add: reconcile_pass_def)
qed simp

declare reconcile_loop.simps [simp del]

text \<open>
  The counters of the rebuilt mempool are those of the state, with the run and the removals counted;
  everything outside the mempool stays.  A transaction whose canonical encoding overflows a 32-bit length
  makes the code panic, which the model records as an error of that transaction.
\<close>

definition next_sequence :: "(Hash \<times> u64) list \<Rightarrow> u64" where
  "next_sequence first_seen =
    (if first_seen = [] then 0 else saturating_add (Max (set (map snd first_seen))) 1)"

definition reconcile_mempool :: "crypto \<Rightarrow> ChainState \<Rightarrow> ChainState \<times> MempoolReconcileResult" where
  "reconcile_mempool C state =
    (let m = cs_mempool state;
         counters = (mp_counters m)\<lparr>mc_reconcile_runs_total :=
           saturating_add (mc_reconcile_runs_total (mp_counters m)) 1\<rparr>;
         m = m\<lparr>mp_counters := counters\<rparr>
     in if mp_transactions m = [] then
          (state\<lparr>cs_mempool := m\<lparr>mp_spent_outpoints := [], mp_first_seen := [], mp_admission_height := []\<rparr>\<rparr>,
           \<lparr>rr_removed_txids = [], rr_kept_txids = []\<rparr>)
        else
          let txs = sort_key (\<lambda>tx. first_seen_key (mp_first_seen m) (tx_txid tx)) (map snd (mp_transactions m));
              working = state\<lparr>cs_mempool := m\<lparr>mp_transactions := [], mp_spent_outpoints := []\<rparr>\<rparr>;
              (working, kept_txids, removed_txids) = reconcile_loop C txs working [] [];
              rebuilt = cs_mempool working;
              live = contains_key (mp_transactions rebuilt);
              first_seen = retain_keys live (mp_first_seen rebuilt)
          in (state\<lparr>cs_mempool := rebuilt\<lparr>
                mp_first_seen := first_seen,
                mp_admission_height := retain_keys live (mp_admission_height rebuilt),
                mp_counters := counters\<lparr>mc_reconcile_removed_total :=
                  saturating_add (mc_reconcile_removed_total counters) (of_nat (length removed_txids))\<rparr>,
                mp_max_transactions := mp_max_transactions m,
                mp_max_spent_outpoints := mp_max_spent_outpoints m,
                mp_next_first_seen := next_sequence first_seen\<rparr>\<rparr>,
              \<lparr>rr_removed_txids = removed_txids, rr_kept_txids = kept_txids\<rparr>))"

section \<open>Validation and the pending set\<close>

text \<open>
  \<open>pool s K\<close> is the state \<open>s\<close> with exactly the transactions \<open>K\<close> pending.  Validation only reads that
  much of the mempool; more pending transactions can supply missing inputs or spend inputs, nothing else.
\<close>

definition spends :: "Transaction list \<Rightarrow> OutPoint list" where
  "spends K = concat (map (\<lambda>tx. map in_previous_output (tx_inputs tx)) K)"

definition pool :: "ChainState \<Rightarrow> Transaction list \<Rightarrow> ChainState" where
  "pool s K = s\<lparr>cs_mempool := (cs_mempool s)\<lparr>mp_transactions := map (\<lambda>tx. (tx_txid tx, tx)) K,
    mp_spent_outpoints := rev (spends K)\<rparr>\<rparr>"

definition provides :: "ChainState \<Rightarrow> ChainState \<Rightarrow> bool" where
  "provides w w' \<longleftrightarrow> cs_utxo w' = cs_utxo w \<and> cs_dag w' = cs_dag w
    \<and> (\<forall>k v. lookup (mp_transactions (cs_mempool w)) k = Some v
        \<longrightarrow> lookup (mp_transactions (cs_mempool w')) k = Some v)"

lemma provides_amount:
  "provides w w' \<Longrightarrow> tx_output_amount w op = Some a \<Longrightarrow> tx_output_amount w' op = Some a"
  by (auto simp: provides_def tx_output_amount_def split: option.splits Option.bind_splits)

lemma provides_address:
  "provides w w' \<Longrightarrow> referenced_output_address w op = Some a \<Longrightarrow> referenced_output_address w' op = Some a"
  by (auto simp: provides_def referenced_output_address_def split: option.splits Option.bind_splits)

lemma amount_iff_address: "tx_output_amount w op = None \<longleftrightarrow> referenced_output_address w op = None"
  by (auto simp: tx_output_amount_def referenced_output_address_def split: option.splits Option.bind_splits)

lemma provides_confirmed: "provides w w' \<Longrightarrow> transaction_is_confirmed txid w' = transaction_is_confirmed txid w"
  by (simp add: provides_def transaction_is_confirmed_def ordered_replay_def canonical_blocks_def canonical_order_def
      ordered_block_skipped_transaction_def)

lemma sum_inputs_resolved:
  "sum_inputs w acc xs = Inr t \<Longrightarrow> \<forall>i \<in> set xs. tx_output_amount w (in_previous_output i) \<noteq> None
    \<and> in_previous_output i \<notin> set (mp_spent_outpoints (cs_mempool w))"
  by (induction w acc xs rule: sum_inputs.induct) (auto simp: result_simps split: if_splits)

lemma sum_inputs_up:
  assumes "provides w w'" "sum_inputs w acc xs = Inr t"
    and "\<forall>i \<in> set xs. in_previous_output i \<notin> set (mp_spent_outpoints (cs_mempool w'))"
  shows "sum_inputs w' acc xs = Inr t"
  using assms
proof (induction w acc xs rule: sum_inputs.induct)
  case (2 w acc x xs)
  obtain a y where a: "tx_output_amount w (in_previous_output x) = Some a" "checked_add acc a = Some y"
    and rest: "sum_inputs w y xs = Inr t" and ns: "in_previous_output x \<notin> set (mp_spent_outpoints (cs_mempool w))"
    using "2.prems"(2) by (auto simp: result_simps split: if_splits)
  show ?case using "2.IH" [of a y] a rest ns "2.prems" provides_amount [OF "2.prems"(1) a(1)]
    by (simp add: result_simps)
qed simp

lemma sum_inputs_down:
  assumes "provides w w'" "set (mp_spent_outpoints (cs_mempool w)) \<subseteq> set (mp_spent_outpoints (cs_mempool w'))"
    and "sum_inputs w' acc xs = Inr t"
  shows "sum_inputs w acc xs = Inr t \<or> sum_inputs w acc xs = Inl UtxoNotFound"
  using assms
proof (induction w' acc xs rule: sum_inputs.induct)
  case (2 w' acc x xs)
  obtain a y where a: "tx_output_amount w' (in_previous_output x) = Some a" "checked_add acc a = Some y"
    and rest: "sum_inputs w' y xs = Inr t" and ns: "in_previous_output x \<notin> set (mp_spent_outpoints (cs_mempool w'))"
    using "2.prems"(3) by (auto simp: result_simps split: if_splits)
  show ?case
  proof (cases "tx_output_amount w (in_previous_output x)")
    case None
    then show ?thesis by (simp add: result_simps)
  next
    case (Some b)
    with provides_amount [OF "2.prems"(1)] a(1) have "b = a" by force
    with Some "2.IH" [of a y] a rest ns "2.prems" show ?thesis by (auto simp: result_simps)
  qed
qed simp

lemma verify_inputs_cong:
  assumes "\<forall>i \<in> set xs. referenced_output_address w' (in_previous_output i) = referenced_output_address w (in_previous_output i)"
  shows "verify_inputs C w' m xs = verify_inputs C w m xs"
  using assms by (induction xs) (simp_all add: verify_input_def)

lemma verify_signatures_cong:
  assumes "\<forall>i \<in> set (tx_inputs tx). referenced_output_address w' (in_previous_output i) = referenced_output_address w (in_previous_output i)"
  shows "verify_transaction_signatures C tx w' = verify_transaction_signatures C tx w"
  using verify_inputs_cong [OF assms]
  by (simp add: verify_transaction_signatures_def verify_transaction_signatures_with_message_def)

lemma provides_resolved:
  assumes "provides w w'" "sum_inputs w acc (tx_inputs tx) = Inr t"
  shows "verify_transaction_signatures C tx w' = verify_transaction_signatures C tx w"
proof (rule verify_signatures_cong, rule ballI)
  fix i
  assume "i \<in> set (tx_inputs tx)"
  with sum_inputs_resolved [OF assms(2)] obtain a where
    "referenced_output_address w (in_previous_output i) = Some a"
    using amount_iff_address by (metis not_None_eq)
  with provides_address [OF assms(1)]
  show "referenced_output_address w' (in_previous_output i) = referenced_output_address w (in_previous_output i)"
    by simp
qed

text \<open>Validation, as the checks on the transaction alone and the checks against the state.\<close>

definition well_formed_tx :: "crypto \<Rightarrow> Transaction \<Rightarrow> bool" where
  "well_formed_tx C tx \<longleftrightarrow> tx_outputs tx \<noteq> [] \<and> tx_inputs tx \<noteq> []
    \<and> \<not> list_ex (\<lambda>out. out_amount out = 0) (tx_outputs tx)
    \<and> distinct (map in_previous_output (tx_inputs tx)) \<and> compute_txid C tx = Some (tx_txid tx)"

definition pays :: "Transaction \<Rightarrow> u64 \<Rightarrow> bool" where
  "pays tx t \<longleftrightarrow> (\<exists>w r. checked_sum 0 (map out_amount (tx_outputs tx)) = Some w
    \<and> checked_add w (tx_fee tx) = Some r \<and> r \<le> t)"

lemma validate_transaction_iff:
  "validate_transaction C tx w = Inr () \<longleftrightarrow> well_formed_tx C tx \<and> \<not> transaction_is_confirmed (tx_txid tx) w
    \<and> (\<exists>t. sum_inputs w 0 (tx_inputs tx) = Inr t \<and> pays tx t) \<and> verify_transaction_signatures C tx w = Inr ()"
  by (auto simp: validate_transaction_def well_formed_tx_def pays_def result_simps not_less split: if_splits)

lemma validate_transaction_unresolved:
  "well_formed_tx C tx \<Longrightarrow> \<not> transaction_is_confirmed (tx_txid tx) w \<Longrightarrow> sum_inputs w 0 (tx_inputs tx) = Inl e \<Longrightarrow>
    validate_transaction C tx w = Inl e"
  by (simp add: validate_transaction_def well_formed_tx_def result_simps)

lemma validate_transaction_up:
  assumes "provides w w'" "validate_transaction C tx w = Inr ()"
    and "\<forall>i \<in> set (tx_inputs tx). in_previous_output i \<notin> set (mp_spent_outpoints (cs_mempool w'))"
  shows "validate_transaction C tx w' = Inr ()"
  using assms(2) provides_resolved [OF assms(1)] sum_inputs_up [OF assms(1) _ assms(3)] provides_confirmed [OF assms(1)]
  unfolding validate_transaction_iff by metis

lemma validate_transaction_down:
  assumes "provides w w'" "set (mp_spent_outpoints (cs_mempool w)) \<subseteq> set (mp_spent_outpoints (cs_mempool w'))"
    and "validate_transaction C tx w' = Inr ()"
  shows "validate_transaction C tx w = Inr () \<or> validate_transaction C tx w = Inl UtxoNotFound"
proof -
  obtain t where t: "sum_inputs w' 0 (tx_inputs tx) = Inr t" "pays tx t"
    and wf: "well_formed_tx C tx" "\<not> transaction_is_confirmed (tx_txid tx) w"
    and sigs: "verify_transaction_signatures C tx w' = Inr ()"
    using assms(3) provides_confirmed [OF assms(1)] unfolding validate_transaction_iff by metis
  from sum_inputs_down [OF assms(1,2) t(1)] show ?thesis
  proof
    assume s: "sum_inputs w 0 (tx_inputs tx) = Inr t"
    with provides_resolved [OF assms(1) s] t sigs wf show ?thesis unfolding validate_transaction_iff by metis
  next
    assume "sum_inputs w 0 (tx_inputs tx) = Inl UtxoNotFound"
    with wf show ?thesis by (simp add: validate_transaction_unresolved)
  qed
qed

lemma validate_transaction_inputs:
  assumes "validate_transaction C tx w = Inr ()"
  shows "distinct (map in_previous_output (tx_inputs tx))"
    "in_previous_output ` set (tx_inputs tx) \<inter> set (mp_spent_outpoints (cs_mempool w)) = {}"
  using assms sum_inputs_resolved [of w 0 "tx_inputs tx"] unfolding validate_transaction_iff well_formed_tx_def
  by blast+

section \<open>Reconciliation keeps a maximal valid set\<close>

lemma spend_in_mempool_ok:
  assumes "distinct (map in_previous_output xs)" "in_previous_output ` set xs \<inter> set (mp_spent_outpoints m) = {}"
  shows "spend_in_mempool xs m =
    (m\<lparr>mp_spent_outpoints := rev (map in_previous_output xs) @ mp_spent_outpoints m\<rparr>, Inr ())"
  using assms by (induction xs arbitrary: m) auto

text \<open>The working state after admitting \<open>K\<close>: what the pool holds, up to first-seen bookkeeping.\<close>

definition working_with :: "ChainState \<Rightarrow> Transaction list \<Rightarrow> ChainState \<Rightarrow> bool" where
  "working_with s K w \<longleftrightarrow> (\<exists>fs n. w = (pool s K)\<lparr>cs_mempool := (cs_mempool (pool s K))\<lparr>mp_first_seen := fs,
     mp_next_first_seen := n\<rparr>\<rparr>)"

lemma validate_transaction_same:
  assumes "provides w w'" "provides w' w"
    "set (mp_spent_outpoints (cs_mempool w)) = set (mp_spent_outpoints (cs_mempool w'))"
  shows "validate_transaction C tx w = validate_transaction C tx w'"
proof -
  have a: "tx_output_amount w op = tx_output_amount w' op" for op
    using provides_amount [OF assms(1)] provides_amount [OF assms(2)] by (metis not_None_eq)
  have r: "referenced_output_address w op = referenced_output_address w' op" for op
    using provides_address [OF assms(1)] provides_address [OF assms(2)] by (metis not_None_eq)
  have "sum_inputs w acc xs = sum_inputs w' acc xs" for acc xs
    by (induction xs arbitrary: acc) (simp_all add: a assms(3) cong: if_cong)
  then show ?thesis
    using verify_signatures_cong [of tx w w'] r provides_confirmed [OF assms(1)]
    by (simp add: validate_transaction_def cong: if_cong)
qed

lemma working_with_validate:
  assumes "working_with s K w"
  shows "validate_transaction C tx w = validate_transaction C tx (pool s K)"
proof (rule validate_transaction_same)
  show "provides w (pool s K)" "provides (pool s K) w"
    using assms by (auto simp: working_with_def provides_def pool_def)
  show "set (mp_spent_outpoints (cs_mempool w)) = set (mp_spent_outpoints (cs_mempool (pool s K)))"
    using assms by (auto simp: working_with_def pool_def)
qed

lemma update_fresh: "k \<notin> fst ` set m \<Longrightarrow> AList.update k v m = m @ [(k, v)]"
  by (induction m) auto

lemma simulate_working_with:
  assumes "working_with s K w" "validate_transaction C tx w = Inr ()" "tx_txid tx \<notin> tx_txid ` set K"
  obtains w' where "simulate_mempool_accept tx w = (w', Inr ())" "working_with s (K @ [tx]) w'"
proof -
  obtain fs n where w: "w = (pool s K)\<lparr>cs_mempool := (cs_mempool (pool s K))\<lparr>mp_first_seen := fs, mp_next_first_seen := n\<rparr>\<rparr>"
    using assms(1) by (auto simp: working_with_def)
  have fresh: "tx_txid tx \<notin> fst ` set (map (\<lambda>tx. (tx_txid tx, tx)) K)" using assms(3) by force
  define spent where "spent = rev (map in_previous_output (tx_inputs tx)) @ mp_spent_outpoints (cs_mempool w)"
  define m where "m = assign_first_seen (tx_txid tx) ((cs_mempool w)\<lparr>mp_spent_outpoints := spent\<rparr>)"
  have sim: "simulate_mempool_accept tx w =
      (w\<lparr>cs_mempool := m\<lparr>mp_transactions := AList.update (tx_txid tx) tx (mp_transactions m)\<rparr>\<rparr>, Inr ())"
    using spend_in_mempool_ok [OF validate_transaction_inputs [OF assms(2)]]
    by (simp add: simulate_mempool_accept_def m_def spent_def Let_def)
  have "working_with s (K @ [tx]) (w\<lparr>cs_mempool := m\<lparr>mp_transactions := AList.update (tx_txid tx) tx (mp_transactions m)\<rparr>\<rparr>)"
    using fresh unfolding working_with_def
    by (intro exI [of _ "mp_first_seen m"] exI [of _ "mp_next_first_seen m"])
      (simp add: m_def spent_def w pool_def spends_def assign_first_seen_def update_fresh)
  with sim show thesis by (rule that)
qed

text \<open>A transaction is dead once no further admission can make it valid.\<close>

definition dead :: "crypto \<Rightarrow> ChainState \<Rightarrow> Transaction list \<Rightarrow> Transaction \<Rightarrow> bool" where
  "dead C s K tx \<longleftrightarrow> (\<forall>K'. distinct (map tx_txid (K @ K')) \<longrightarrow> validate_transaction C tx (pool s (K @ K')) \<noteq> Inr ())"

lemma provides_pool:
  assumes "distinct (map tx_txid K')" "set K \<subseteq> set K'"
  shows "provides (pool s K) (pool s K')"
proof -
  have d: "distinct (map fst (map (\<lambda>tx. (tx_txid tx, tx)) K'))" using assms(1) by (simp add: comp_def)
  have "lookup (map (\<lambda>tx. (tx_txid tx, tx)) K') k = Some v"
    if "lookup (map (\<lambda>tx. (tx_txid tx, tx)) K) k = Some v" for k v
    using map_of_SomeD [OF that] assms(2) map_of_is_SomeI [OF d] by auto
  then show ?thesis by (simp add: provides_def pool_def)
qed

lemma deadI:
  assumes "validate_transaction C tx (pool s K) = Inl e" "e \<noteq> UtxoNotFound"
  shows "dead C s K tx"
  unfolding dead_def
proof (intro allI impI notI)
  fix K'
  assume d: "distinct (map tx_txid (K @ K'))" and v: "validate_transaction C tx (pool s (K @ K')) = Inr ()"
  have p: "provides (pool s K) (pool s (K @ K'))" by (rule provides_pool [OF d]) simp
  show False using validate_transaction_down [OF p _ v] assms by (simp add: pool_def spends_def)
qed

lemma dead_append: "dead C s K tx \<Longrightarrow> dead C s (K @ L) tx"
  unfolding dead_def by (metis append.assoc)

definition admissible :: "crypto \<Rightarrow> ChainState \<Rightarrow> Transaction list \<Rightarrow> bool" where
  "admissible C s K \<longleftrightarrow> (\<forall>i < length K. validate_transaction C (K ! i) (pool s (take i K)) = Inr ())"

lemma admissible_snoc:
  "admissible C s (K @ [tx]) \<longleftrightarrow> admissible C s K \<and> validate_transaction C tx (pool s K) = Inr ()"
  by (auto simp: admissible_def nth_append less_Suc_eq)

text \<open>
  The invariant of a pass: what has been admitted (\<open>K\<close>), removed for good (\<open>R\<close>) and put back (\<open>N\<close>)
  partitions the transactions seen.
\<close>

definition pass_ok :: "crypto \<Rightarrow> ChainState \<Rightarrow> Transaction multiset \<Rightarrow> Transaction list \<Rightarrow> Transaction list \<Rightarrow>
    Transaction list \<Rightarrow> ReconcilePass \<Rightarrow> bool" where
  "pass_ok C s T K0 K R p \<longleftrightarrow>
    working_with s K (rp_working p) \<and> rp_kept p = map tx_txid K \<and> rp_removed p = map tx_txid R
    \<and> mset K + mset R + mset (rp_next_pending p) = T \<and> admissible C s K \<and> (\<forall>tx \<in> set R. dead C s K tx)
    \<and> (\<not> rp_progressed p \<longrightarrow> K = K0 \<and> (\<forall>tx \<in> set (rp_next_pending p). validate_transaction C tx (pool s K) = Inl UtxoNotFound))"

lemma pass_okD:
  assumes "pass_ok C s T K0 K R p"
  shows "working_with s K (rp_working p)" "rp_kept p = map tx_txid K" "rp_removed p = map tx_txid R"
    "mset K + mset R + mset (rp_next_pending p) = T" "admissible C s K" "\<And>tx. tx \<in> set R \<Longrightarrow> dead C s K tx"
    "\<not> rp_progressed p \<Longrightarrow> K = K0"
    "\<And>tx. \<not> rp_progressed p \<Longrightarrow> tx \<in> set (rp_next_pending p) \<Longrightarrow>
      validate_transaction C tx (pool s K) = Inl UtxoNotFound"
  using assms unfolding pass_ok_def by blast+

lemma reconcile_tx_step:
  assumes ok: "pass_ok C s T K0 K R p" and fresh: "tx_txid tx \<notin> tx_txid ` set K"
  obtains K' R' where "pass_ok C s (add_mset tx T) K0 K' R' (reconcile_tx C tx p)"
proof -
  note D = pass_okD [OF ok]
  have v: "validate_transaction C tx (rp_working p) = validate_transaction C tx (pool s K)"
    by (rule working_with_validate [OF D(1)])
  show thesis
  proof (cases "validate_transaction C tx (rp_working p)")
    case (Inr u)
    then have valid: "validate_transaction C tx (rp_working p) = Inr ()" by simp
    obtain w' where w': "simulate_mempool_accept tx (rp_working p) = (w', Inr ())" "working_with s (K @ [tx]) w'"
      by (rule simulate_working_with [OF D(1) valid fresh])
    have "reconcile_tx C tx p = p\<lparr>rp_working := w', rp_kept := rp_kept p @ [tx_txid tx], rp_progressed := True\<rparr>"
      by (simp add: reconcile_tx_def valid w'(1))
    then have "pass_ok C s (add_mset tx T) K0 (K @ [tx]) R (reconcile_tx C tx p)"
      unfolding pass_ok_def using D w'(2) valid v by (auto simp: admissible_snoc intro: dead_append)
    then show thesis by (rule that)
  next
    case (Inl e)
    show thesis
    proof (cases "e = UtxoNotFound")
      case True
      with Inl have "reconcile_tx C tx p = p\<lparr>rp_next_pending := rp_next_pending p @ [tx]\<rparr>"
        by (simp add: reconcile_tx_def)
      then have "pass_ok C s (add_mset tx T) K0 K R (reconcile_tx C tx p)"
        unfolding pass_ok_def using D Inl v True by auto
      then show thesis by (rule that)
    next
      case False
      with Inl have "reconcile_tx C tx p = p\<lparr>rp_removed := rp_removed p @ [tx_txid tx]\<rparr>"
        by (cases e) (simp_all add: reconcile_tx_def)
      moreover have "dead C s K tx" using deadI [OF _ False] Inl v by simp
      ultimately have "pass_ok C s (add_mset tx T) K0 K (R @ [tx]) (reconcile_tx C tx p)"
        unfolding pass_ok_def using D by auto
      then show thesis by (rule that)
    qed
  qed
qed

lemma reconcile_fold_ok:
  assumes "pass_ok C s T K0 K R p" "mset L = T + mset txs" "distinct (map tx_txid L)"
  shows "\<exists>K' R'. pass_ok C s (mset L) K0 K' R' (fold (reconcile_tx C) txs p)"
  using assms
proof (induction txs arbitrary: T K R p)
  case Nil
  then show ?case by auto
next
  case (Cons tx txs)
  have "mset L = mset (K @ R @ rp_next_pending p @ tx # txs)"
    using pass_okD(4) [OF Cons.prems(1)] Cons.prems(2) by (simp add: ac_simps)
  then have "mset (map tx_txid L) = mset (map tx_txid (K @ R @ rp_next_pending p @ tx # txs))"
    by (metis mset_map)
  then have "distinct (map tx_txid (K @ R @ rp_next_pending p @ tx # txs))"
    using Cons.prems(3) mset_eq_imp_distinct_iff by blast
  then have fresh: "tx_txid tx \<notin> tx_txid ` set K" by auto
  obtain K' R' where step: "pass_ok C s (add_mset tx T) K0 K' R' (reconcile_tx C tx p)"
    by (rule reconcile_tx_step [OF Cons.prems(1) fresh])
  show ?case using Cons.IH [OF step] Cons.prems(2,3) by simp
qed

lemma admissible_dead_valid:
  "distinct (map tx_txid K) \<Longrightarrow> dead C s K tx \<Longrightarrow> validate_transaction C tx (pool s K) \<noteq> Inr ()"
  unfolding dead_def by (metis append_Nil2)

lemma reconcile_loop_ok:
  assumes "working_with s K w" "admissible C s K" "\<forall>tx \<in> set R. dead C s K tx" "distinct (map tx_txid (K @ R @ txs))"
    and "reconcile_loop C txs w (map tx_txid K) (map tx_txid R) = (w', kept, removed)"
  shows "\<exists>K' R'. working_with s K' w' \<and> kept = map tx_txid K' \<and> removed = map tx_txid R'
    \<and> mset (K' @ R') = mset (K @ R @ txs) \<and> admissible C s K'
    \<and> (\<forall>tx \<in> set R'. validate_transaction C tx (pool s K') \<noteq> Inr ())"
  using assms
proof (induction "length txs" arbitrary: txs K R w rule: less_induct)
  case less
  show ?case
  proof (cases "txs = []")
    case True
    have d: "distinct (map tx_txid K)" using less.prems(4) by simp
    from True less.prems(5) have "w' = w" "kept = map tx_txid K" "removed = map tx_txid R"
      by (simp_all add: reconcile_loop.simps)
    with True less.prems admissible_dead_valid [OF d] show ?thesis by (intro exI [of _ K] exI [of _ R]) auto
  next
    case False
    define p where "p = reconcile_pass C txs w (map tx_txid K) (map tx_txid R)"
    define p0 where "p0 = \<lparr>rp_working = w, rp_next_pending = [], rp_progressed = False,
      rp_kept = map tx_txid K, rp_removed = map tx_txid R\<rparr>"
    have p_eq: "p = fold (reconcile_tx C) txs p0" by (simp add: p_def reconcile_pass_def p0_def)
    have p0: "pass_ok C s (mset (K @ R)) K K R p0"
      unfolding pass_ok_def p0_def using less.prems by simp
    obtain K' R' where pass: "pass_ok C s (mset (K @ R @ txs)) K K' R' p"
      using reconcile_fold_ok [OF p0, of "K @ R @ txs" txs] less.prems(4) p_eq by auto
    note D = pass_okD [OF pass]
    have parts: "mset (K' @ R' @ rp_next_pending p) = mset (K @ R @ txs)" using D(4) by (simp add: add.assoc)
    then have "mset (map tx_txid (K' @ R' @ rp_next_pending p)) = mset (map tx_txid (K @ R @ txs))" by (metis mset_map)
    then have dist: "distinct (map tx_txid (K' @ R' @ rp_next_pending p))"
      using less.prems(4) mset_eq_imp_distinct_iff by blast
    have loop: "reconcile_loop C txs w (map tx_txid K) (map tx_txid R) =
        (if \<not> rp_progressed p then (rp_working p, rp_kept p, rp_removed p @ map tx_txid (rp_next_pending p))
         else reconcile_loop C (rp_next_pending p) (rp_working p) (rp_kept p) (rp_removed p))"
      using False by (subst reconcile_loop.simps) (simp add: p_def Let_def)
    show ?thesis
    proof (cases "rp_progressed p")
      case True
      have short: "length (rp_next_pending p) < length txs"
        using reconcile_fold_measure [of C txs p0] True by (simp add: p_eq [symmetric]) (simp add: p0_def)
      have rest: "reconcile_loop C (rp_next_pending p) (rp_working p) (map tx_txid K') (map tx_txid R') = (w', kept, removed)"
        using less.prems(5) loop True D(2,3) by simp
      show ?thesis using less.hyps [OF short D(1) D(5) _ dist rest] D(6) parts by simp
    next
      case False
      have res: "w' = rp_working p" "kept = map tx_txid K'" "removed = map tx_txid (R' @ rp_next_pending p)"
        using less.prems(5) loop False D(2,3) by simp_all
      have "validate_transaction C tx (pool s K') \<noteq> Inr ()" if "tx \<in> set (R' @ rp_next_pending p)" for tx
        using that D(6) D(8) [OF False] admissible_dead_valid [of K'] dist by auto
      then show ?thesis using res D(1,5) parts
        by (intro exI [of _ K'] exI [of _ "R' @ rp_next_pending p"]) simp
    qed
  qed
qed

lemma spends_append [simp]: "spends (K @ L) = spends K @ spends L"
  by (simp add: spends_def)

lemma mset_spends: "mset (spends K) = (\<Sum>tx \<in># mset K. mset (map in_previous_output (tx_inputs tx)))"
  by (induction K) (simp_all add: spends_def)

lemma admissible_distinct_spends: "admissible C s K \<Longrightarrow> distinct (spends K)"
proof (induction K rule: rev_induct)
  case (snoc tx K)
  then have "distinct (spends K)" and v: "validate_transaction C tx (pool s K) = Inr ()"
    by (simp_all add: admissible_snoc)
  then show ?case using validate_transaction_inputs [OF v] by (auto simp: spends_def pool_def)
qed (simp add: spends_def)

text \<open>If the transactions can be admitted in some order, none is left over.\<close>

lemma admissible_keeps_all:
  assumes A: "admissible C s A" and dist: "distinct (map tx_txid A)" and parts: "mset (K @ R) = mset A"
    and stuck: "\<forall>tx \<in> set R. validate_transaction C tx (pool s K) \<noteq> Inr ()"
  shows "R = []"
proof (rule ccontr)
  assume "R \<noteq> []"
  have sets: "set K \<union> set R = set A" using parts by (metis set_append set_mset_mset)
  with \<open>R \<noteq> []\<close> have "\<exists>i. i < length A \<and> A ! i \<in> set R" by (metis UnCI in_set_conv_nth list.set_sel(1))
  then obtain i where i: "i < length A" "A ! i \<in> set R" and least: "\<And>j. j < i \<Longrightarrow> \<not> (j < length A \<and> A ! j \<in> set R)"
    using exists_least_iff [of "\<lambda>i. i < length A \<and> A ! i \<in> set R"] by blast
  have sub: "set (take i A) \<subseteq> set K"
  proof
    fix tx
    assume "tx \<in> set (take i A)"
    then obtain j where j: "j < i" "tx = A ! j" by (auto simp: in_set_conv_nth)
    with i(1) have "tx \<in> set A" by simp
    moreover have "tx \<notin> set R" using least [OF j(1)] i(1) j by simp
    ultimately show "tx \<in> set K" using sets by blast
  qed
  have "mset (map tx_txid (K @ R)) = mset (map tx_txid A)" using parts by (metis mset_map)
  then have dK: "distinct (map tx_txid (K @ R))" using dist mset_eq_imp_distinct_iff by blast
  have "mset (spends (K @ R)) = mset (spends A)"
    by (simp only: mset_spends parts)
  then have "distinct (spends (K @ R))" using admissible_distinct_spends [OF A] mset_eq_imp_distinct_iff by blast
  then have "set (spends K) \<inter> set (spends R) = {}" by simp
  then have unspent: "\<forall>x \<in> set (tx_inputs (A ! i)). in_previous_output x \<notin> set (mp_spent_outpoints (cs_mempool (pool s K)))"
    using i(2) by (force simp: spends_def pool_def)
  have "provides (pool s (take i A)) (pool s K)" by (rule provides_pool [OF _ sub]) (use dK in simp)
  moreover have "validate_transaction C (A ! i) (pool s (take i A)) = Inr ()"
    using A i(1) by (simp add: admissible_def)
  ultimately have "validate_transaction C (A ! i) (pool s K) = Inr ()"
    by (rule validate_transaction_up [OF _ _ unspent])
  with stuck i(2) show False by blast
qed

lemma pool_validate:
  assumes "cs_utxo s' = cs_utxo s" "cs_dag s' = cs_dag s"
  shows "validate_transaction C tx (pool s' K) = validate_transaction C tx (pool s K)"
  by (rule validate_transaction_same) (use assms in \<open>simp_all add: provides_def pool_def\<close>)

lemma admissible_cong:
  "cs_utxo s' = cs_utxo s \<Longrightarrow> cs_dag s' = cs_dag s \<Longrightarrow> admissible C s' K = admissible C s K"
  by (simp only: admissible_def pool_validate [of s' s])

lemma sort_key_perm:
  assumes "mset xs = mset ys" "inj_on f (set xs)"
  shows "sort_key f xs = sort_key f ys"
proof (rule properties_for_sort_key)
  show "mset (sort_key f ys) = mset xs" using assms(1) by simp
  show "sorted (map f (sort_key f ys))" by simp
  fix k
  assume "k \<in> set (sort_key f ys)"
  then have "k \<in> set xs" using assms(1) by (metis set_mset_mset set_sort)
  have "filter (\<lambda>x. f k = f x) zs = replicate (count (mset zs) k) k" if "set zs \<subseteq> set xs" for zs
    using that assms(2) \<open>k \<in> set xs\<close> by (induction zs) (auto simp: inj_on_def)
  moreover have "set (sort_key f ys) \<subseteq> set xs" using assms(1) by (metis set_mset_mset set_sort subset_refl)
  ultimately show "filter (\<lambda>x. f k = f x) (sort_key f ys) = filter (\<lambda>x. f k = f x) xs"
    using assms(1) by simp
qed

definition keyed :: "(Hash \<times> Transaction) list \<Rightarrow> bool" where
  "keyed txs \<longleftrightarrow> distinct (map fst txs) \<and> (\<forall>(k, tx) \<in> set txs. k = tx_txid tx)"

lemma keyed_txids: "keyed txs \<Longrightarrow> map tx_txid (map snd txs) = map fst txs"
  by (auto simp: keyed_def)

text \<open>The parts of \<open>reconcile_mempool\<close> on a non-empty mempool.\<close>

definition reconcile_base :: "ChainState \<Rightarrow> ChainState" where
  "reconcile_base s = s\<lparr>cs_mempool := (cs_mempool s)\<lparr>mp_counters := (mp_counters (cs_mempool s))\<lparr>mc_reconcile_runs_total :=
     saturating_add (mc_reconcile_runs_total (mp_counters (cs_mempool s))) 1\<rparr>,
     mp_transactions := [], mp_spent_outpoints := []\<rparr>\<rparr>"

definition reconcile_order :: "ChainState \<Rightarrow> Transaction list" where
  "reconcile_order s = sort_key (\<lambda>tx. first_seen_key (mp_first_seen (cs_mempool s)) (tx_txid tx))
     (map snd (mp_transactions (cs_mempool s)))"

lemma reconcile_mempool_result:
  assumes run: "reconcile_mempool C s = (s', r)" and ne: "mp_transactions (cs_mempool s) \<noteq> []"
    and loop: "reconcile_loop C (reconcile_order s) (reconcile_base s) [] [] = (w, kept, removed)"
  shows "rr_kept_txids r = kept" "rr_removed_txids r = removed"
    "mp_transactions (cs_mempool s') = mp_transactions (cs_mempool w)"
    "mp_spent_outpoints (cs_mempool s') = mp_spent_outpoints (cs_mempool w)"
    "mp_first_seen (cs_mempool s') = retain_keys (contains_key (mp_transactions (cs_mempool w))) (mp_first_seen (cs_mempool w))"
    "mp_admission_height (cs_mempool s') = retain_keys (contains_key (mp_transactions (cs_mempool w))) (mp_admission_height (cs_mempool w))"
    "s' = s\<lparr>cs_mempool := cs_mempool s'\<rparr>"
  using run ne loop by (auto simp: reconcile_mempool_def Let_def reconcile_order_def reconcile_base_def)

lemma reconcile_mempool_order:
  assumes "mset txs = mset (mp_transactions (cs_mempool s))" "keyed (mp_transactions (cs_mempool s))"
  shows "reconcile_mempool C (s\<lparr>cs_mempool := (cs_mempool s)\<lparr>mp_transactions := txs\<rparr>\<rparr>) = reconcile_mempool C s"
proof -
  have "inj_on tx_txid (set (map snd (mp_transactions (cs_mempool s))))"
    using assms(2) keyed_txids [OF assms(2)] unfolding keyed_def by (metis distinct_map)
  then have inj: "inj_on (\<lambda>tx. first_seen_key fs (tx_txid tx)) (set (map snd (mp_transactions (cs_mempool s))))" for fs
    by (simp add: inj_on_def first_seen_key_def)
  have m: "mset (map snd (mp_transactions (cs_mempool s))) = mset (map snd txs)" using assms(1) by (metis mset_map)
  have "sort_key (\<lambda>tx. first_seen_key fs (tx_txid tx)) (map snd txs)
      = sort_key (\<lambda>tx. first_seen_key fs (tx_txid tx)) (map snd (mp_transactions (cs_mempool s)))" for fs
    using sort_key_perm [OF m inj] by simp
  moreover have "txs = [] \<longleftrightarrow> mp_transactions (cs_mempool s) = []" using assms(1) by (metis mset_zero_iff)
  ultimately show ?thesis by (simp add: reconcile_mempool_def Let_def)
qed

lemma retain_keys_dom: "fst ` set (retain_keys p m) \<subseteq> {k. p k}"
  by (auto simp: retain_keys_def)

lemma pool_keys: "mp_transactions (cs_mempool (pool s K)) = map (\<lambda>tx. (tx_txid tx, tx)) K"
  "mp_spent_outpoints (cs_mempool (pool s K)) = rev (spends K)"
  by (simp_all add: pool_def)

lemma contains_key_txids: "contains_key (map (\<lambda>tx. (tx_txid tx, tx)) K) k \<longleftrightarrow> k \<in> tx_txid ` set K"
  by (force simp: map_of_eq_None_iff)

lemma working_with_parts:
  assumes "working_with s K w"
  shows "mp_transactions (cs_mempool w) = map (\<lambda>tx. (tx_txid tx, tx)) K" "mp_spent_outpoints (cs_mempool w) = rev (spends K)"
  using assms by (auto simp: working_with_def pool_def)

lemma reconcile_mempool_parts:
  assumes run: "reconcile_mempool C s = (s', r)" and keyed: "keyed (mp_transactions (cs_mempool s))"
  shows "\<exists>K R. rr_kept_txids r = map tx_txid K \<and> rr_removed_txids r = map tx_txid R
    \<and> mset (K @ R) = mset (map snd (mp_transactions (cs_mempool s)))
    \<and> mp_transactions (cs_mempool s') = map (\<lambda>tx. (tx_txid tx, tx)) K
    \<and> set (mp_spent_outpoints (cs_mempool s')) = set (spends K)
    \<and> admissible C s K \<and> (\<forall>tx \<in> set R. validate_transaction C tx (pool s K) \<noteq> Inr ())
    \<and> fst ` set (mp_first_seen (cs_mempool s')) \<union> fst ` set (mp_admission_height (cs_mempool s')) \<subseteq> tx_txid ` set K
    \<and> s' = s\<lparr>cs_mempool := cs_mempool s'\<rparr>"
proof (cases "mp_transactions (cs_mempool s) = []")
  case True
  with run show ?thesis
    by (intro exI [of _ "[]"]) (auto simp: reconcile_mempool_def Let_def spends_def admissible_def)
next
  case False
  obtain w kept removed where loop: "reconcile_loop C (reconcile_order s) (reconcile_base s) [] [] = (w, kept, removed)"
    by (metis prod_cases3)
  note res = reconcile_mempool_result [OF run False loop]
  have order: "mset (reconcile_order s) = mset (map snd (mp_transactions (cs_mempool s)))"
    by (simp add: reconcile_order_def)
  then have "mset (map tx_txid (reconcile_order s)) = mset (map fst (mp_transactions (cs_mempool s)))"
    using keyed_txids [OF keyed] by (metis mset_map)
  then have "distinct (map tx_txid (reconcile_order s))"
    using keyed mset_eq_imp_distinct_iff unfolding keyed_def by blast
  then have d: "distinct (map tx_txid ([] @ [] @ reconcile_order s))" by simp
  have w0: "working_with (reconcile_base s) [] (reconcile_base s)"
    unfolding working_with_def
    by (intro exI [of _ "mp_first_seen (cs_mempool s)"] exI [of _ "mp_next_first_seen (cs_mempool s)"])
      (simp add: pool_def spends_def reconcile_base_def)
  obtain K R where KR: "working_with (reconcile_base s) K w" "kept = map tx_txid K" "removed = map tx_txid R"
    "mset (K @ R) = mset (reconcile_order s)" "admissible C (reconcile_base s) K"
    "\<forall>tx \<in> set R. validate_transaction C tx (pool (reconcile_base s) K) \<noteq> Inr ()"
    using reconcile_loop_ok [OF w0 _ _ d, of C w kept removed] loop by (auto simp: admissible_def)
  have same: "cs_utxo (reconcile_base s) = cs_utxo s" "cs_dag (reconcile_base s) = cs_dag s"
    by (simp_all add: reconcile_base_def)
  have adm: "admissible C s K" using KR(5) admissible_cong [OF same] by simp
  have stuck: "\<forall>tx \<in> set R. validate_transaction C tx (pool s K) \<noteq> Inr ()" using KR(6) pool_validate [OF same] by simp
  have meta: "fst ` set (mp_first_seen (cs_mempool s')) \<union> fst ` set (mp_admission_height (cs_mempool s')) \<subseteq> tx_txid ` set K"
    using retain_keys_dom [of "contains_key (mp_transactions (cs_mempool w))"] contains_key_txids [of K]
    unfolding res(5,6) working_with_parts [OF KR(1)] by blast
  show ?thesis
    using KR(2-4) res(1-4,7) working_with_parts [OF KR(1)] order adm stuck meta
    by (intro exI [of _ K] exI [of _ R]) simp
qed

text \<open>
  C7. Reconciliation computes a maximal set of pending transactions that are jointly valid on the ledger.
  The transactions it keeps and removes partition the pending ones.  Those it keeps, in the order it keeps
  them, are each valid on top of the ones before; no outpoint is spent twice and the spent-outpoint index
  holds exactly their inputs; first-seen and admission metadata exist only for them.  Each one it removes is
  still invalid on the resulting state.  If the pending transactions can be admitted in any order at all,
  none is removed (so a second reconciliation removes nothing).  The result does not depend on the iteration
  order of the hash map of transactions, and nothing outside the mempool changes.
\<close>

theorem reconcile_mempool_maximal:
  assumes run: "reconcile_mempool C s = (s', r)" and keyed: "keyed (mp_transactions (cs_mempool s))"
  shows "\<exists>K R. rr_kept_txids r = map tx_txid K \<and> rr_removed_txids r = map tx_txid R
    \<and> mset (K @ R) = mset (map snd (mp_transactions (cs_mempool s)))
    \<and> mp_transactions (cs_mempool s') = map (\<lambda>tx. (tx_txid tx, tx)) K
    \<and> set (mp_spent_outpoints (cs_mempool s')) = set (spends K) \<and> distinct (spends K)
    \<and> admissible C s K \<and> (\<forall>tx \<in> set R. \<exists>e. validate_transaction C tx s' = Inl e)
    \<and> fst ` set (mp_first_seen (cs_mempool s')) \<union> fst ` set (mp_admission_height (cs_mempool s')) \<subseteq> tx_txid ` set K
    \<and> (\<forall>A. mset A = mset (map snd (mp_transactions (cs_mempool s))) \<longrightarrow> admissible C s A \<longrightarrow> R = [])
    \<and> s' = s\<lparr>cs_mempool := cs_mempool s'\<rparr>
    \<and> (\<forall>txs. mset txs = mset (mp_transactions (cs_mempool s)) \<longrightarrow>
         reconcile_mempool C (s\<lparr>cs_mempool := (cs_mempool s)\<lparr>mp_transactions := txs\<rparr>\<rparr>) = (s', r))"
proof -
  obtain K R where KR: "rr_kept_txids r = map tx_txid K" "rr_removed_txids r = map tx_txid R"
    "mset (K @ R) = mset (map snd (mp_transactions (cs_mempool s)))"
    "mp_transactions (cs_mempool s') = map (\<lambda>tx. (tx_txid tx, tx)) K"
    "set (mp_spent_outpoints (cs_mempool s')) = set (spends K)"
    "admissible C s K" "\<forall>tx \<in> set R. validate_transaction C tx (pool s K) \<noteq> Inr ()"
    "fst ` set (mp_first_seen (cs_mempool s')) \<union> fst ` set (mp_admission_height (cs_mempool s')) \<subseteq> tx_txid ` set K"
    "s' = s\<lparr>cs_mempool := cs_mempool s'\<rparr>"
    using reconcile_mempool_parts [OF assms] by (elim exE conjE) (rule that)
  have same: "validate_transaction C tx s' = validate_transaction C tx (pool s K)" for tx
  proof (rule validate_transaction_same)
    have "cs_utxo s' = cs_utxo s" "cs_dag s' = cs_dag s" by (subst KR(9), simp)+
    then show "provides s' (pool s K)" "provides (pool s K) s'"
      by (simp_all add: provides_def KR(4) pool_def)
    show "set (mp_spent_outpoints (cs_mempool s')) = set (mp_spent_outpoints (cs_mempool (pool s K)))"
      by (simp add: KR(5) pool_def)
  qed
  have failed: "\<exists>e. validate_transaction C tx s' = Inl e" if "tx \<in> set R" for tx
    using KR(7) that same [of tx] by (metis old.sum.exhaust old.unit.exhaust)
  have all: "R = []" if "mset A = mset (map snd (mp_transactions (cs_mempool s)))" "admissible C s A" for A
  proof (rule admissible_keeps_all [OF that(2) _ _ KR(7)])
    have "mset (map tx_txid A) = mset (map fst (mp_transactions (cs_mempool s)))"
      using that(1) keyed_txids [OF keyed] by (metis mset_map)
    then show "distinct (map tx_txid A)" using keyed mset_eq_imp_distinct_iff unfolding keyed_def by blast
  qed (simp only: KR(3) that(1))
  show ?thesis
    using KR failed all admissible_distinct_spends [OF KR(6)] reconcile_mempool_order [OF _ keyed, of _ C] run
    by (intro exI [of _ K] exI [of _ R]) simp
qed

text \<open>
  A concrete mempool: a child that was seen before its parent, under a small crypto instance whose digest
  is the low byte of the nonce.
\<close>

definition nonce_crypto :: crypto where
  "nonce_crypto = \<lparr>sha256 = (\<lambda>b. [b ! (length b - 8)]), hex_encode = map (\<lambda>b. char_of (unat b)),
    hex_decode = (\<lambda>s. Some (replicate (if s = ''pk'' then 32 else 64) 0)), ed25519_verify = (\<lambda>_ _ _. True)\<rparr>"

definition sample_parent :: Transaction where
  "sample_parent = \<lparr>tx_txid = ''A'', tx_version = 1, tx_inputs = [\<lparr>in_previous_output = OutPoint ''cb'' 0,
     in_public_key = ''pk'', in_signature = ''sig''\<rparr>],
     tx_outputs = [\<lparr>out_address = address_from_public_key nonce_crypto ''pk'', out_amount = 40\<rparr>], tx_fee = 10, tx_nonce = 65\<rparr>"

definition sample_child :: Transaction where
  "sample_child = \<lparr>tx_txid = ''B'', tx_version = 1, tx_inputs = [\<lparr>in_previous_output = OutPoint ''A'' 0,
     in_public_key = ''pk'', in_signature = ''sig''\<rparr>],
     tx_outputs = [\<lparr>out_address = ''x'', out_amount = 39\<rparr>], tx_fee = 1, tx_nonce = 66\<rparr>"

definition pending_state :: ChainState where
  "pending_state = blank_state\<lparr>
     cs_utxo := \<lparr>us_utxos = [(OutPoint ''cb'' 0, \<lparr>u_outpoint = OutPoint ''cb'' 0,
       u_address = address_from_public_key nonce_crypto ''pk'', u_amount = 50, u_coinbase = True, u_height = 1\<rparr>)],
       us_address_index = [(address_from_public_key nonce_crypto ''pk'', [OutPoint ''cb'' 0])]\<rparr>,
     cs_mempool := (cs_mempool blank_state)\<lparr>mp_transactions := [(''B'', sample_child), (''A'', sample_parent)],
       mp_first_seen := [(''B'', 0), (''A'', 1)]\<rparr>\<rparr>"

lemma nonce_crypto_txid:
  assumes "canonical_transaction_bytes tx \<noteq> None"
  shows "compute_txid nonce_crypto tx = Some [char_of (unat (to_le_bytes (tx_nonce tx) ! 0))]"
proof -
  obtain b where b: "canonical_transaction_bytes tx = Some b" using assms by blast
  then obtain p where p: "b = p @ to_le_bytes (tx_nonce tx)"
    unfolding canonical_transaction_bytes_def by (auto split: Option.bind_splits)
  have "length (to_le_bytes (tx_nonce tx)) = 8" by simp
  then have "b ! (length b - 8) = to_le_bytes (tx_nonce tx) ! 0"
    unfolding p by (simp add: nth_append)
  then show ?thesis using b by (simp add: compute_txid_def nonce_crypto_def)
qed

lemma sample_address [simp]: "length (address_from_public_key nonce_crypto ''pk'') = 7"
  by (simp add: address_from_public_key_def nonce_crypto_def)

lemma sample_txids: "compute_txid nonce_crypto sample_parent = Some ''A''" "compute_txid nonce_crypto sample_child = Some ''B''"
  using nonce_crypto_txid [of sample_parent] nonce_crypto_txid [of sample_child]
  by (simp_all add: sample_parent_def sample_child_def canonical_transaction_bytes_def try_from_nat_def
    canonical_tx_input_bytes_def canonical_outpoint_bytes_def canonical_tx_output_bytes_def encode_counted_def
    encode_len_prefixed_bytes_def encode_len_prefixed_str_def TX_V1_DOMAIN_def to_le_bytes_def char_of_def bit_0)

lemma sample_messages: "signing_message sample_parent \<noteq> None" "signing_message sample_child \<noteq> None"
  by (simp_all add: sample_parent_def sample_child_def signing_message_def canonical_unsigned_transaction_bytes_def
    try_from_nat_def unsigned_input_bytes_def canonical_outpoint_bytes_def canonical_tx_output_bytes_def encode_counted_def
    encode_len_prefixed_bytes_def encode_len_prefixed_str_def UNSIGNED_TX_V1_DOMAIN_def)

lemma sample_signatures:
  assumes "referenced_output_address s (in_previous_output (hd (tx_inputs tx))) = Some (address_from_public_key nonce_crypto ''pk'')"
    and "tx = sample_parent \<or> tx = sample_child"
  shows "verify_transaction_signatures nonce_crypto tx s = Inr ()"
proof -
  have "verify_inputs nonce_crypto s m (tx_inputs tx) = Inr ()" for m
    using assms by (auto simp: verify_inputs_iff authorised_def nonce_crypto_def sample_parent_def sample_child_def)
  moreover obtain m where "signing_message tx = Some m" using assms(2) sample_messages by blast
  moreover have "tx_version tx = 1" using assms(2) by (auto simp: sample_parent_def sample_child_def)
  ultimately show ?thesis
    by (simp add: verify_transaction_signatures_def verify_transaction_signatures_with_message_def
        validate_transaction_version_v1_def TRANSACTION_VERSION_V1_def)
qed

lemma pending_admissible: "admissible nonce_crypto pending_state [sample_parent, sample_child]"
proof -
  have conf: "\<not> transaction_is_confirmed t (pool pending_state K)" for t K
    by (simp add: transaction_is_confirmed_def canonical_blocks_def canonical_order_def ordered_replay_def pool_def
        pending_state_def blank_state_def GHOSTDAG_V1_ORDERING_VERSION_def ghostdag_metadata_active_def List.map_filter_def)
  have wf: "well_formed_tx nonce_crypto sample_parent" "well_formed_tx nonce_crypto sample_child"
    using sample_txids by (simp_all add: well_formed_tx_def) (simp_all add: sample_parent_def sample_child_def)
  have sums: "sum_inputs (pool pending_state []) 0 (tx_inputs sample_parent) = Inr 50"
    "sum_inputs (pool pending_state [sample_parent]) 0 (tx_inputs sample_child) = Inr 40"
    by (simp_all add: pool_def pending_state_def sample_parent_def sample_child_def spends_def tx_output_amount_def
        output_at_def checked_add_def)
  have refs: "referenced_output_address (pool pending_state []) (in_previous_output (hd (tx_inputs sample_parent)))
      = Some (address_from_public_key nonce_crypto ''pk'')"
    "referenced_output_address (pool pending_state [sample_parent]) (in_previous_output (hd (tx_inputs sample_child)))
      = Some (address_from_public_key nonce_crypto ''pk'')"
    by (simp_all add: pool_def pending_state_def sample_parent_def sample_child_def referenced_output_address_def output_at_def)
  have pays: "pays sample_parent 50" "pays sample_child 40"
    by (simp_all add: pays_def sample_parent_def sample_child_def checked_add_def)
  have p: "validate_transaction nonce_crypto sample_parent (pool pending_state []) = Inr ()"
    unfolding validate_transaction_iff using wf conf sums pays sample_signatures [OF refs(1)] by blast
  have c: "validate_transaction nonce_crypto sample_child (pool pending_state [sample_parent]) = Inr ()"
    unfolding validate_transaction_iff using wf conf sums pays sample_signatures [OF refs(2)] by blast
  show ?thesis using p c by (simp add: admissible_def less_Suc_eq)
qed

theorem reconcile_mempool_maximal_witness:
  "keyed (mp_transactions (cs_mempool pending_state))
    \<and> rr_removed_txids (snd (reconcile_mempool nonce_crypto pending_state)) = []"
proof -
  have k: "keyed (mp_transactions (cs_mempool pending_state))"
    by (simp add: keyed_def pending_state_def sample_parent_def sample_child_def)
  have A: "mset [sample_parent, sample_child] = mset (map snd (mp_transactions (cs_mempool pending_state)))"
    by (simp add: pending_state_def)
  obtain R :: "Transaction list" where "rr_removed_txids (snd (reconcile_mempool nonce_crypto pending_state)) = map tx_txid R"
    "\<forall>A. mset A = mset (map snd (mp_transactions (cs_mempool pending_state))) \<longrightarrow>
       admissible nonce_crypto pending_state A \<longrightarrow> R = []"
    using reconcile_mempool_maximal [OF surjective_pairing k, of nonce_crypto] by (elim exE conjE) (rule that)
  with A pending_admissible k show ?thesis by (metis list.map_disc_iff)
qed

section \<open>Expiry removes whole packages\<close>

definition child_of :: "(Hash \<times> Transaction) list \<Rightarrow> (Hash \<times> Hash) set" where
  "child_of txs = {(parent, tx_txid tx) | parent tx. tx \<in> snd ` set txs \<and> contains_key txs parent
     \<and> parent \<in> (\<lambda>i. op_txid (in_previous_output i)) ` set (tx_inputs tx)}"

definition descendants :: "(Hash \<times> Transaction) list \<Rightarrow> Hash set \<Rightarrow> Hash set" where
  "descendants txs roots = (child_of txs)\<^sup>* `` roots"

lemma kids_link_child:
  "set (kids (link_child parent t children) a) = (if a = parent then insert t else id) (set (kids children a))"
  by (cases "lookup children parent") (auto simp: kids_def link_child_def lookup_update set_insort_insert)

lemma kids_link_inputs:
  "set (kids (link_inputs s tx children) a) = set (kids children a) \<union>
    (if contains_key (mp_transactions (cs_mempool s)) a \<and> a \<in> (\<lambda>i. op_txid (in_previous_output i)) ` set (tx_inputs tx)
     then {tx_txid tx} else {})"
proof -
  have "set (kids (fold (\<lambda>input children.
        if contains_key (mp_transactions (cs_mempool s)) (op_txid (in_previous_output input))
        then link_child (op_txid (in_previous_output input)) t children else children) xs children) a)
    = set (kids children a) \<union> (if contains_key (mp_transactions (cs_mempool s)) a
        \<and> a \<in> (\<lambda>i. op_txid (in_previous_output i)) ` set xs then {t} else {})" for t xs
    by (induction xs arbitrary: children) (auto simp: kids_link_child)
  then show ?thesis by (simp only: link_inputs_def)
qed

lemma kids_mempool_children:
  "set (kids (mempool_children s) a) = child_of (mp_transactions (cs_mempool s)) `` {a}"
proof -
  have "set (kids (fold (link_inputs s) txs children) a) = set (kids children a) \<union>
    {tx_txid tx | tx. tx \<in> set txs \<and> contains_key (mp_transactions (cs_mempool s)) a
      \<and> a \<in> (\<lambda>i. op_txid (in_previous_output i)) ` set (tx_inputs tx)}" for txs children
    by (induction txs arbitrary: children) (auto simp: kids_link_inputs)
  then show ?thesis by (auto simp: mempool_children_def child_of_def kids_def)
qed

lemma expire_children_sets:
  assumes "expire_children ds (e, p) = (e', p')"
  shows "set e' = set e \<union> set ds" "set p' = set p \<union> (set ds - set e)"
proof -
  have "set e' = set e \<union> set ds \<and> set p' = set p \<union> (set ds - set e)"
    using assms
  proof (induction ds arbitrary: e p)
    case (Cons d ds)
    show ?case
    proof (cases "d \<in> set e")
      case True
      with Cons show ?thesis by (auto simp: expire_children_def)
    next
      case False
      with Cons.prems have "expire_children ds (insort_insert d e, p @ [d]) = (e', p')"
        by (simp add: expire_children_def)
      from Cons.IH [OF this] False show ?thesis by (auto simp: set_insort_insert)
    qed
  qed (simp add: expire_children_def)
  then show "set e' = set e \<union> set ds" "set p' = set p \<union> (set ds - set e)" by auto
qed

lemma expire_loop_sound:
  "set e \<subseteq> E\<^sup>* `` roots \<Longrightarrow> set p \<subseteq> set e \<Longrightarrow> \<forall>a. set (kids children a) = E `` {a} \<Longrightarrow>
   set e \<subseteq> set (expire_loop children e p) \<and> set (expire_loop children e p) \<subseteq> E\<^sup>* `` roots"
proof (induction children e p rule: expire_loop.induct)
  case (2 children expired txid pending)
  obtain e' p' where ep: "expire_children (kids children txid) (expired, pending) = (e', p')" by (metis surj_pair)
  note sets = expire_children_sets [OF ep]
  have "txid \<in> E\<^sup>* `` roots" using "2.prems"(1,2) by auto
  then have "E `` {txid} \<subseteq> E\<^sup>* `` roots" by (auto intro: rtrancl_into_rtrancl)
  then have "set e' \<subseteq> E\<^sup>* `` roots" using "2.prems"(1,3) sets by simp
  moreover have "set p' \<subseteq> set e'" using "2.prems" sets by auto
  ultimately show ?case using "2.IH" [OF refl ep [symmetric]] "2.prems"(3) sets ep by auto
qed simp

lemma expire_loop_closed:
  "\<forall>a. set (kids children a) = E `` {a} \<Longrightarrow> \<forall>a \<in> set e - set p. E `` {a} \<subseteq> set e \<Longrightarrow> set p \<subseteq> set e \<Longrightarrow>
   E `` set (expire_loop children e p) \<subseteq> set (expire_loop children e p)"
proof (induction children e p rule: expire_loop.induct)
  case (1 children e)
  then show ?case by auto
next
  case (2 children expired txid pending)
  obtain e' p' where ep: "expire_children (kids children txid) (expired, pending) = (e', p')" by (metis surj_pair)
  note sets = expire_children_sets [OF ep]
  have "\<forall>a \<in> set e' - set p'. E `` {a} \<subseteq> set e'"
  proof
    fix a
    assume a: "a \<in> set e' - set p'"
    show "E `` {a} \<subseteq> set e'"
    proof (cases "a = txid")
      case True
      with sets "2.prems"(1) show ?thesis by auto
    next
      case False
      then have "a \<in> set expired - set (txid # pending)" using a sets by auto
      with "2.prems"(2) sets show ?thesis by blast
    qed
  qed
  moreover have "set p' \<subseteq> set e'" using "2.prems" sets by auto
  ultimately show ?case using "2.IH" [OF refl ep [symmetric]] "2.prems"(1) ep by simp
qed

lemma expire_loop_exact:
  "set (expire_loop (mempool_children s) roots roots) = descendants (mp_transactions (cs_mempool s)) (set roots)"
proof
  let ?E = "child_of (mp_transactions (cs_mempool s))"
  let ?X = "set (expire_loop (mempool_children s) roots roots)"
  have k: "\<forall>a. set (kids (mempool_children s) a) = ?E `` {a}" by (simp add: kids_mempool_children)
  have sound: "set roots \<subseteq> ?X" "?X \<subseteq> ?E\<^sup>* `` set roots"
    using expire_loop_sound [of roots ?E "set roots" roots "mempool_children s"] k by auto
  then show "?X \<subseteq> descendants (mp_transactions (cs_mempool s)) (set roots)" by (simp add: descendants_def)
  have "?E `` ?X \<subseteq> ?X" using expire_loop_closed [OF k, of roots roots] by simp
  then have "?E\<^sup>* `` ?X \<subseteq> ?X" by (rule Image_closed_trancl [THEN equalityD1])
  with sound(1) show "descendants (mp_transactions (cs_mempool s)) (set roots) \<subseteq> ?X"
    unfolding descendants_def by blast
qed

end
