(* ===== verification/Pulse_Pqc.thy ===== *)
theory Pulse_Pqc
  imports Pulse_Tx
begin

text \<open>
  Post-quantum envelopes (\<open>pqc.rs\<close>) and the reserved transaction format that carries them (\<open>tx_v3.rs\<close>): the
  textual envelope of a hybrid Ed25519 and ML-DSA-65 key or signature, the address of a key, and the
  canonical v3 bytes, which parse every envelope before they encode it. Hexadecimal and SHA3-256 belong to
  other crates and are parameters.
\<close>

section \<open>Operations\<close>

subsection \<open>Envelopes\<close>

definition PQC_ENVELOPE_VERSION_V1 :: string where "PQC_ENVELOPE_VERSION_V1 = ''pqc1''"
definition ED25519_PUBLIC_KEY_BYTES :: nat where "ED25519_PUBLIC_KEY_BYTES = 32"
definition ED25519_SIGNATURE_BYTES :: nat where "ED25519_SIGNATURE_BYTES = 64"
definition ML_DSA_65_PUBLIC_KEY_BYTES :: nat where "ML_DSA_65_PUBLIC_KEY_BYTES = 1952"
definition ML_DSA_65_SIGNATURE_BYTES :: nat where "ML_DSA_65_SIGNATURE_BYTES = 3309"
definition PQ_ADDRESS_DOMAIN_V1 :: bytes where "PQ_ADDRESS_DOMAIN_V1 = as_bytes ''PulseDAG:pq-address:v1''"

record HybridPublicKeyV1 =
  hk_ed25519 :: bytes
  hk_ml_dsa_65 :: bytes

record HybridSignatureV1 =
  hs_ed25519 :: bytes
  hs_ml_dsa_65 :: bytes

definition invalid_pqc_field :: "string \<Rightarrow> string \<Rightarrow> PulseError" where
  "invalid_pqc_field field reason =
    InvalidTransaction (''invalid post-quantum '' @ field @ '': '' @ reason)"

definition is_lowercase_hex :: "char \<Rightarrow> bool" where
  "is_lowercase_hex c \<longleftrightarrow> is_ascii_digit c \<or> (97 :: nat) \<le> of_char c \<and> of_char c \<le> (102 :: nat)"

definition decode_canonical_hex :: "crypto \<Rightarrow> string \<Rightarrow> string \<Rightarrow> nat \<Rightarrow> PulseError + bytes" where
  "decode_canonical_hex C field encoded expected_bytes =
    (if length encoded \<noteq> expected_bytes * 2 then
       Inl (invalid_pqc_field field ''unexpected encoded length'')
     else if \<not> list_all is_lowercase_hex encoded then
       Inl (invalid_pqc_field field ''must use canonical lowercase hexadecimal'')
     else ok_or (invalid_pqc_field field ''invalid hexadecimal'') (hex_decode C encoded))"

definition split_envelope :: "string \<Rightarrow> string \<Rightarrow> PulseError + (string \<times> string)" where
  "split_envelope field envelope =
    (case split_on (CHR '':'') envelope of
       [] \<Rightarrow> Inl (invalid_pqc_field field ''missing version'')
     | [version] \<Rightarrow> Inl (invalid_pqc_field field ''missing Ed25519 component'')
     | [version, classical] \<Rightarrow> Inl (invalid_pqc_field field ''missing ML-DSA-65 component'')
     | version # classical # post_quantum # rest \<Rightarrow>
         if rest \<noteq> [] then Inl (invalid_pqc_field field ''unexpected extra component'')
         else if version \<noteq> PQC_ENVELOPE_VERSION_V1 then
           Inl (invalid_pqc_field field ''unsupported envelope version'')
         else Inr (classical, post_quantum))"

definition encode_hybrid_public_key_v1 :: "crypto \<Rightarrow> bytes \<Rightarrow> bytes \<Rightarrow> PulseError + string" where
  "encode_hybrid_public_key_v1 C ed25519 ml_dsa_65 =
    (if length ed25519 \<noteq> ED25519_PUBLIC_KEY_BYTES then
       Inl (invalid_pqc_field ''public key'' ''invalid Ed25519 public-key length'')
     else if length ml_dsa_65 \<noteq> ML_DSA_65_PUBLIC_KEY_BYTES then
       Inl (invalid_pqc_field ''public key'' ''invalid ML-DSA-65 public-key length'')
     else Inr (PQC_ENVELOPE_VERSION_V1 @ '':'' @ hex_encode C ed25519 @ '':'' @ hex_encode C ml_dsa_65))"

definition decode_hybrid_public_key_v1 :: "crypto \<Rightarrow> string \<Rightarrow> PulseError + HybridPublicKeyV1" where
  "decode_hybrid_public_key_v1 C envelope =
    rbind (split_envelope ''public key'' envelope) (\<lambda>(ed25519, ml_dsa_65).
    rbind (decode_canonical_hex C ''Ed25519 public key'' ed25519 ED25519_PUBLIC_KEY_BYTES) (\<lambda>ed.
    rbind (decode_canonical_hex C ''ML-DSA-65 public key'' ml_dsa_65 ML_DSA_65_PUBLIC_KEY_BYTES) (\<lambda>ml.
    Inr \<lparr>hk_ed25519 = ed, hk_ml_dsa_65 = ml\<rparr>)))"

definition encode_hybrid_signature_v1 :: "crypto \<Rightarrow> bytes \<Rightarrow> bytes \<Rightarrow> PulseError + string" where
  "encode_hybrid_signature_v1 C ed25519 ml_dsa_65 =
    (if length ed25519 \<noteq> ED25519_SIGNATURE_BYTES then
       Inl (invalid_pqc_field ''signature'' ''invalid Ed25519 signature length'')
     else if length ml_dsa_65 \<noteq> ML_DSA_65_SIGNATURE_BYTES then
       Inl (invalid_pqc_field ''signature'' ''invalid ML-DSA-65 signature length'')
     else Inr (PQC_ENVELOPE_VERSION_V1 @ '':'' @ hex_encode C ed25519 @ '':'' @ hex_encode C ml_dsa_65))"

definition decode_hybrid_signature_v1 :: "crypto \<Rightarrow> string \<Rightarrow> PulseError + HybridSignatureV1" where
  "decode_hybrid_signature_v1 C envelope =
    rbind (split_envelope ''signature'' envelope) (\<lambda>(ed25519, ml_dsa_65).
    rbind (decode_canonical_hex C ''Ed25519 signature'' ed25519 ED25519_SIGNATURE_BYTES) (\<lambda>ed.
    rbind (decode_canonical_hex C ''ML-DSA-65 signature'' ml_dsa_65 ML_DSA_65_SIGNATURE_BYTES) (\<lambda>ml.
    Inr \<lparr>hs_ed25519 = ed, hs_ml_dsa_65 = ml\<rparr>)))"

text \<open>The fixed lengths always fit the \<open>u32\<close> conversions.\<close>

definition hybrid_address_bytes :: "HybridPublicKeyV1 \<Rightarrow> bytes option" where
  "hybrid_address_bytes keys = do {
    ed25519 \<leftarrow> encode_len_prefixed_bytes (hk_ed25519 keys);
    ml_dsa_65 \<leftarrow> encode_len_prefixed_bytes (hk_ml_dsa_65 keys);
    Some (PQ_ADDRESS_DOMAIN_V1 @ ed25519 @ ml_dsa_65)
  }"

definition address_from_hybrid_public_key_v1 ::
  "crypto \<Rightarrow> (bytes \<Rightarrow> bytes) \<Rightarrow> string \<Rightarrow> PulseError + Address" where
  "address_from_hybrid_public_key_v1 C sha3_256 envelope =
    rbind (decode_hybrid_public_key_v1 C envelope) (\<lambda>keys.
    rbind (ok_or length_panic (hybrid_address_bytes keys)) (\<lambda>bs.
    Inr (''pulseq1'' @ hex_encode C (sha3_256 bs))))"

subsection \<open>Transactions\<close>

definition TRANSACTION_VERSION_V3 :: u32 where "TRANSACTION_VERSION_V3 = 3"
definition UNSIGNED_TX_V3_DOMAIN :: bytes where "UNSIGNED_TX_V3_DOMAIN = as_bytes ''PulseDAG:unsigned-tx:v3:pqc1''"
definition TX_V3_DOMAIN :: bytes where "TX_V3_DOMAIN = as_bytes ''PulseDAG:tx:v3:pqc1''"

definition validate_v3_domain :: "Transaction \<Rightarrow> string \<Rightarrow> PulseError + unit" where
  "validate_v3_domain tx chain_id =
    (if tx_version tx \<noteq> TRANSACTION_VERSION_V3 then
       Inl (InvalidTransaction (''transaction/signing v3 requires version 3, got ''
         @ format_nat (unat (tx_version tx))))
     else if chain_id = [] then Inl ChainIdMismatch
     else Inr ())"

fun validate_v3_public_key_envelopes :: "crypto \<Rightarrow> TxInput list \<Rightarrow> PulseError + unit" where
  "validate_v3_public_key_envelopes C [] = Inr ()"
| "validate_v3_public_key_envelopes C (input # inputs) =
    rbind (decode_hybrid_public_key_v1 C (in_public_key input)) (\<lambda>_.
    validate_v3_public_key_envelopes C inputs)"

fun validate_v3_signature_envelopes :: "crypto \<Rightarrow> TxInput list \<Rightarrow> PulseError + unit" where
  "validate_v3_signature_envelopes C [] = Inr ()"
| "validate_v3_signature_envelopes C (input # inputs) =
    rbind (decode_hybrid_signature_v1 C (in_signature input)) (\<lambda>_.
    validate_v3_signature_envelopes C inputs)"

definition canonical_unsigned_transaction_bytes_v3 ::
  "crypto \<Rightarrow> Transaction \<Rightarrow> string \<Rightarrow> PulseError + bytes" where
  "canonical_unsigned_transaction_bytes_v3 C tx chain_id =
    rbind (validate_v3_domain tx chain_id) (\<lambda>_.
    rbind (validate_v3_public_key_envelopes C (tx_inputs tx)) (\<lambda>_. ok_or length_panic (do {
      dom \<leftarrow> encode_len_prefixed_bytes UNSIGNED_TX_V3_DOMAIN;
      chain \<leftarrow> encode_len_prefixed_str chain_id;
      inputs \<leftarrow> encode_counted unsigned_input_bytes (tx_inputs tx);
      outputs \<leftarrow> encode_counted canonical_tx_output_bytes (tx_outputs tx);
      Some (dom @ chain @ to_le_bytes (tx_version tx) @ inputs @ outputs
        @ to_le_bytes (tx_fee tx) @ to_le_bytes (tx_nonce tx))
    })))"

definition canonical_transaction_bytes_v3 ::
  "crypto \<Rightarrow> Transaction \<Rightarrow> string \<Rightarrow> PulseError + bytes" where
  "canonical_transaction_bytes_v3 C tx chain_id =
    rbind (validate_v3_domain tx chain_id) (\<lambda>_.
    rbind (validate_v3_public_key_envelopes C (tx_inputs tx)) (\<lambda>_.
    rbind (validate_v3_signature_envelopes C (tx_inputs tx)) (\<lambda>_. ok_or length_panic (do {
      dom \<leftarrow> encode_len_prefixed_bytes TX_V3_DOMAIN;
      chain \<leftarrow> encode_len_prefixed_str chain_id;
      inputs \<leftarrow> encode_counted canonical_tx_input_bytes (tx_inputs tx);
      outputs \<leftarrow> encode_counted canonical_tx_output_bytes (tx_outputs tx);
      Some (dom @ chain @ to_le_bytes (tx_version tx) @ inputs @ outputs
        @ to_le_bytes (tx_fee tx) @ to_le_bytes (tx_nonce tx))
    }))))"

definition signing_message_v3 :: "crypto \<Rightarrow> Transaction \<Rightarrow> string \<Rightarrow> PulseError + bytes" where
  "signing_message_v3 C tx chain_id = canonical_unsigned_transaction_bytes_v3 C tx chain_id"

definition compute_txid_v3 :: "crypto \<Rightarrow> Transaction \<Rightarrow> string \<Rightarrow> PulseError + Hash" where
  "compute_txid_v3 C tx chain_id =
    rbind (canonical_transaction_bytes_v3 C tx chain_id) (\<lambda>bs. Inr (hex_encode C (sha256 C bs)))"

section \<open>Canonical envelopes\<close>

text \<open>
  What the code relies on of the hexadecimal codec: encoding writes two lowercase digits per byte and is
  inverted by decoding, and a string of lowercase digits that decodes is the encoding of its value.
\<close>

definition hex_canonical :: "crypto \<Rightarrow> bool" where
  "hex_canonical C \<longleftrightarrow> hex_roundtrip C
    \<and> (\<forall>b. length (hex_encode C b) = 2 * length b \<and> list_all is_lowercase_hex (hex_encode C b))
    \<and> (\<forall>s b. list_all is_lowercase_hex s \<longrightarrow> hex_decode C s = Some b \<longrightarrow> hex_encode C b = s)"

lemma colon_not_hex: "list_all is_lowercase_hex s \<Longrightarrow> CHR '':'' \<notin> set s"
  by (auto simp: list_all_iff is_lowercase_hex_def is_ascii_digit_def)

lemma decode_canonical_hex_Inr:
  assumes "hex_canonical C"
  shows "decode_canonical_hex C f e n = Inr b \<longleftrightarrow> length b = n \<and> e = hex_encode C b"
proof
  assume "decode_canonical_hex C f e n = Inr b"
  then have "length e = n * 2" "list_all is_lowercase_hex e" "hex_decode C e = Some b"
    by (auto simp: decode_canonical_hex_def result_simps split: if_splits)
  moreover from this(2,3) have "hex_encode C b = e" using assms by (simp add: hex_canonical_def)
  moreover have "length (hex_encode C b) = 2 * length b" using assms by (simp add: hex_canonical_def)
  ultimately show "length b = n \<and> e = hex_encode C b" by simp
next
  assume "length b = n \<and> e = hex_encode C b"
  then show "decode_canonical_hex C f e n = Inr b"
    using assms by (simp add: decode_canonical_hex_def hex_canonical_def hex_roundtrip_def)
qed

lemma split_envelope_Inr:
  assumes "list_all is_lowercase_hex a" "list_all is_lowercase_hex b"
  shows "split_envelope f e = Inr (a, b) \<longleftrightarrow> e = PQC_ENVELOPE_VERSION_V1 @ '':'' @ a @ '':'' @ b"
proof
  assume "split_envelope f e = Inr (a, b)"
  then have "split_on (CHR '':'') e = [PQC_ENVELOPE_VERSION_V1, a, b]"
    by (auto simp: split_envelope_def split: list.splits if_splits)
  from split_on_join [OF this] show "e = PQC_ENVELOPE_VERSION_V1 @ '':'' @ a @ '':'' @ b" by simp
next
  assume e: "e = PQC_ENVELOPE_VERSION_V1 @ '':'' @ a @ '':'' @ b"
  have "split_on (CHR '':'') (a @ '':'' @ b) = [a, b]"
    using split_on_one [OF colon_not_hex [OF assms(1)] colon_not_hex [OF assms(2)]] by simp
  moreover have "CHR '':'' \<notin> set PQC_ENVELOPE_VERSION_V1" by (simp add: PQC_ENVELOPE_VERSION_V1_def)
  then have "split_on (CHR '':'') (PQC_ENVELOPE_VERSION_V1 @ CHR '':'' # s)
      = PQC_ENVELOPE_VERSION_V1 # split_on (CHR '':'') s" for s
    by (simp add: PQC_ENVELOPE_VERSION_V1_def)
  ultimately have "split_on (CHR '':'') e = [PQC_ENVELOPE_VERSION_V1, a, b]" by (simp add: e)
  then show "split_envelope f e = Inr (a, b)" by (simp add: split_envelope_def)
qed

lemma hex_encode_lowercase: "hex_canonical C \<Longrightarrow> list_all is_lowercase_hex (hex_encode C b)"
  by (simp add: hex_canonical_def)

lemma decode_public_key_iff:
  assumes "hex_canonical C"
  shows "decode_hybrid_public_key_v1 C e = Inr k \<longleftrightarrow>
    encode_hybrid_public_key_v1 C (hk_ed25519 k) (hk_ml_dsa_65 k) = Inr e"
proof -
  have "decode_hybrid_public_key_v1 C e = Inr k \<longleftrightarrow>
      split_envelope ''public key'' e = Inr (hex_encode C (hk_ed25519 k), hex_encode C (hk_ml_dsa_65 k))
      \<and> length (hk_ed25519 k) = ED25519_PUBLIC_KEY_BYTES \<and> length (hk_ml_dsa_65 k) = ML_DSA_65_PUBLIC_KEY_BYTES"
    by (cases k) (auto simp: decode_hybrid_public_key_v1_def result_simps decode_canonical_hex_Inr [OF assms])
  also have "\<dots> \<longleftrightarrow> encode_hybrid_public_key_v1 C (hk_ed25519 k) (hk_ml_dsa_65 k) = Inr e"
    unfolding split_envelope_Inr [OF hex_encode_lowercase [OF assms] hex_encode_lowercase [OF assms]]
    by (auto simp: encode_hybrid_public_key_v1_def)
  finally show ?thesis .
qed

lemma decode_signature_iff:
  assumes "hex_canonical C"
  shows "decode_hybrid_signature_v1 C e = Inr k \<longleftrightarrow>
    encode_hybrid_signature_v1 C (hs_ed25519 k) (hs_ml_dsa_65 k) = Inr e"
proof -
  have "decode_hybrid_signature_v1 C e = Inr k \<longleftrightarrow>
      split_envelope ''signature'' e = Inr (hex_encode C (hs_ed25519 k), hex_encode C (hs_ml_dsa_65 k))
      \<and> length (hs_ed25519 k) = ED25519_SIGNATURE_BYTES \<and> length (hs_ml_dsa_65 k) = ML_DSA_65_SIGNATURE_BYTES"
    by (cases k) (auto simp: decode_hybrid_signature_v1_def result_simps decode_canonical_hex_Inr [OF assms])
  also have "\<dots> \<longleftrightarrow> encode_hybrid_signature_v1 C (hs_ed25519 k) (hs_ml_dsa_65 k) = Inr e"
    unfolding split_envelope_Inr [OF hex_encode_lowercase [OF assms] hex_encode_lowercase [OF assms]]
    by (auto simp: encode_hybrid_signature_v1_def)
  finally show ?thesis .
qed

lemma hybrid_address_bytes_inj:
  assumes "hybrid_address_bytes k = Some b" "hybrid_address_bytes k' = Some b"
  shows "k = k'"
  using assms
  by (cases k, cases k') (auto simp: hybrid_address_bytes_def encode_len_prefixed_bytes_eq prefixed.enc_append_eq
      dest: prefixed.enc_inj split: if_splits)

subsection \<open>A hexadecimal codec\<close>

definition hex_digit :: "nat \<Rightarrow> char" where
  "hex_digit n = char_of (if n < 10 then 48 + n else 87 + n)"

definition hex_value :: "char \<Rightarrow> nat option" where
  "hex_value c = (if is_ascii_digit c then Some (of_char c - 48)
    else if (97 :: nat) \<le> of_char c \<and> of_char c \<le> (102 :: nat) then Some (of_char c - 87) else None)"

fun hex_of_bytes :: "bytes \<Rightarrow> string" where
  "hex_of_bytes [] = []"
| "hex_of_bytes (b # bs) = hex_digit (unat b div 16) # hex_digit (unat b mod 16) # hex_of_bytes bs"

fun bytes_of_hex :: "string \<Rightarrow> bytes option" where
  "bytes_of_hex [] = Some []"
| "bytes_of_hex [c] = None"
| "bytes_of_hex (c # d # s) = do {
    a \<leftarrow> hex_value c; b \<leftarrow> hex_value d; bs \<leftarrow> bytes_of_hex s;
    Some (of_nat (16 * a + b) # bs)
  }"

definition hex_crypto :: crypto where
  "hex_crypto = plain_crypto\<lparr>hex_encode := hex_of_bytes, hex_decode := bytes_of_hex\<rparr>"

lemma hex_digit_value:
  assumes "n < 16"
  shows "hex_value (hex_digit n) = Some n" "is_lowercase_hex (hex_digit n)"
proof -
  have "of_char (hex_digit n) = (if n < 10 then 48 + n else 87 + n)"
    using assms by (simp add: hex_digit_def take_bit_nat_eq_self)
  then show "hex_value (hex_digit n) = Some n" "is_lowercase_hex (hex_digit n)"
    using assms by (auto simp: hex_value_def is_ascii_digit_def is_lowercase_hex_def)
qed

lemma hex_value_digit:
  assumes "hex_value c = Some n"
  shows "n < 16 \<and> hex_digit n = c"
  using assms by (auto simp: hex_value_def hex_digit_def is_ascii_digit_def split: if_splits)

lemma hex_of_bytes_props:
  "length (hex_of_bytes b) = 2 * length b \<and> list_all is_lowercase_hex (hex_of_bytes b) \<and> bytes_of_hex (hex_of_bytes b) = Some b"
proof (induction b)
  case (Cons x b)
  have "unat x div 16 < 16" "unat x mod 16 < 16" using unat_u8_bound [of x] by (simp_all add: less_mult_imp_div_less)
  moreover have "16 * (unat x div 16) + unat x mod 16 = unat x" by simp
  ultimately show ?case using Cons hex_digit_value by (simp del: of_nat_add of_nat_mult)
qed simp

lemma bytes_of_hex_inverse: "bytes_of_hex s = Some b \<Longrightarrow> hex_of_bytes b = s"
proof (induction s arbitrary: b rule: bytes_of_hex.induct)
  case (3 c d s)
  then obtain x y bs where v: "hex_value c = Some x" "hex_value d = Some y" "bytes_of_hex s = Some bs"
    "b = of_nat (16 * x + y) # bs"
    by (auto simp: bind_eq_Some_conv)
  have xy: "x < 16" "y < 16" "hex_digit x = c" "hex_digit y = d" using v(1,2) hex_value_digit by auto
  then have "unat (of_nat (16 * x + y) :: u8) = 16 * x + y" by (intro unat_word_of_nat_small) simp
  then have "unat (of_nat (16 * x + y) :: u8) div 16 = x" "unat (of_nat (16 * x + y) :: u8) mod 16 = y"
    using xy by simp_all
  then show ?case using v(4) xy "3.IH" [OF v(1,2) v(3)] by simp
qed simp_all

lemma hex_canonical_hex_crypto: "hex_canonical hex_crypto"
  using hex_of_bytes_props bytes_of_hex_inverse
  by (auto simp: hex_canonical_def hex_roundtrip_def hex_crypto_def)

section \<open>Canonical v3 bytes\<close>

lemma v3_domains_ok: "len32 UNSIGNED_TX_V3_DOMAIN" "len32 TX_V3_DOMAIN"
  by (simp_all add: len32_def UNSIGNED_TX_V3_DOMAIN_def TX_V3_DOMAIN_def)

lemma v3_domains_distinct:
  "UNSIGNED_TX_V3_DOMAIN \<noteq> UNSIGNED_TX_V1_DOMAIN" "UNSIGNED_TX_V3_DOMAIN \<noteq> UNSIGNED_TX_V2_DOMAIN"
  by (simp_all add: UNSIGNED_TX_V3_DOMAIN_def UNSIGNED_TX_V1_DOMAIN_def UNSIGNED_TX_V2_DOMAIN_def)

lemma validate_keys_cong:
  "map without_signature xs = map without_signature ys \<Longrightarrow>
    validate_v3_public_key_envelopes C xs = validate_v3_public_key_envelopes C ys"
proof (induction xs arbitrary: ys)
  case (Cons x xs)
  then obtain y ys' where "ys = y # ys'" by (cases ys) auto
  with Cons show ?case by (auto simp: without_signature_def)
qed simp

lemma canonical_unsigned_bytes_v3_iff:
  assumes "canonical_unsigned_transaction_bytes_v3 C t c = Inr m"
  shows "canonical_unsigned_transaction_bytes_v3 C t' c' = Inr m \<longleftrightarrow> c' = c \<and> signed_part t' = signed_part t"
proof
  assume "canonical_unsigned_transaction_bytes_v3 C t' c' = Inr m"
  with assms show "c' = c \<and> signed_part t' = signed_part t"
    by (auto simp: canonical_unsigned_transaction_bytes_v3_def result_simps encode_tx_parts
        v3_domains_ok tx_append_eq signed_part_def dest: outputs.enc_inj split: if_splits)
next
  assume eq: "c' = c \<and> signed_part t' = signed_part t"
  then have "validate_v3_public_key_envelopes C (tx_inputs t') = validate_v3_public_key_envelopes C (tx_inputs t)"
    by (intro validate_keys_cong) (simp add: signed_part_def)
  with eq have "canonical_unsigned_transaction_bytes_v3 C t' c' = canonical_unsigned_transaction_bytes_v3 C t c"
    by (simp add: canonical_unsigned_transaction_bytes_v3_def encode_tx_parts signed_part_def validate_v3_domain_def)
  with assms show "canonical_unsigned_transaction_bytes_v3 C t' c' = Inr m" by simp
qed

lemma v3_messages_disjoint:
  assumes "canonical_unsigned_transaction_bytes_v3 C t c = Inr m"
  shows "canonical_unsigned_transaction_bytes t' \<noteq> Some m \<and> canonical_unsigned_transaction_bytes_v2 t' c' \<noteq> Inr m"
  using assms v3_domains_distinct
  by (auto simp: canonical_unsigned_transaction_bytes_v3_def canonical_unsigned_transaction_bytes_v2_def
      canonical_unsigned_transaction_bytes_def result_simps encode_tx_parts tx_domains_ok v3_domains_ok tx_append_eq
      split: if_splits)

section \<open>Properties\<close>

text \<open>
  C30. Hybrid envelopes are canonical: a string decodes to a key or a signature exactly when it is the
  encoding of that key or signature, so no second spelling is accepted. Two envelopes with the same
  post-quantum address are the same envelope, unless the hashed keys are a SHA3-256 collision.
\<close>

theorem hybrid_envelope_canonical:
  assumes "hex_canonical C"
  shows "(decode_hybrid_public_key_v1 C e = Inr k \<longleftrightarrow>
      encode_hybrid_public_key_v1 C (hk_ed25519 k) (hk_ml_dsa_65 k) = Inr e)
    \<and> (decode_hybrid_signature_v1 C e = Inr g \<longleftrightarrow>
      encode_hybrid_signature_v1 C (hs_ed25519 g) (hs_ml_dsa_65 g) = Inr e)
    \<and> (address_from_hybrid_public_key_v1 C S e = Inr a \<and> address_from_hybrid_public_key_v1 C S e' = Inr a \<longrightarrow>
      e = e' \<or> (\<exists>b b'. b \<noteq> b' \<and> S b = S b'))"
proof -
  have "e = e' \<or> (\<exists>b b'. b \<noteq> b' \<and> S b = S b')"
    if a: "address_from_hybrid_public_key_v1 C S e = Inr a" "address_from_hybrid_public_key_v1 C S e' = Inr a"
  proof -
    obtain l l' b b' where k: "decode_hybrid_public_key_v1 C e = Inr l" "decode_hybrid_public_key_v1 C e' = Inr l'"
      and b: "hybrid_address_bytes l = Some b" "hybrid_address_bytes l' = Some b'"
      and h: "hex_encode C (S b) = hex_encode C (S b')"
      using a by (auto simp: address_from_hybrid_public_key_v1_def result_simps)
    have "S b = S b'" using h assms by (metis hex_canonical_def hex_roundtrip_def option.inject)
    moreover have "e = e'" if "b = b'"
    proof -
      have "l = l'" using hybrid_address_bytes_inj b that by blast
      then show ?thesis
        using k decode_public_key_iff [OF assms, of e l] decode_public_key_iff [OF assms, of e' l'] by simp
    qed
    ultimately show ?thesis by blast
  qed
  then show ?thesis using decode_public_key_iff [OF assms] decode_signature_iff [OF assms] by blast
qed

definition sample_keys :: HybridPublicKeyV1 where
  "sample_keys = \<lparr>hk_ed25519 = replicate 32 1, hk_ml_dsa_65 = replicate 1952 2\<rparr>"

definition sample_envelope :: string where
  "sample_envelope = ''pqc1:'' @ hex_of_bytes (replicate 32 1) @ '':'' @ hex_of_bytes (replicate 1952 2)"

lemma encode_sample_keys:
  "encode_hybrid_public_key_v1 hex_crypto (hk_ed25519 sample_keys) (hk_ml_dsa_65 sample_keys) = Inr sample_envelope"
  by (simp add: encode_hybrid_public_key_v1_def sample_keys_def sample_envelope_def hex_crypto_def
      ED25519_PUBLIC_KEY_BYTES_def ML_DSA_65_PUBLIC_KEY_BYTES_def PQC_ENVELOPE_VERSION_V1_def)

theorem hybrid_envelope_canonical_witness:
  "decode_hybrid_public_key_v1 hex_crypto sample_envelope = Inr sample_keys"
  using hybrid_envelope_canonical [OF hex_canonical_hex_crypto] encode_sample_keys by blast

text \<open>
  C29. A v3 signing message exists only for transactions whose key envelopes all parse, and binds the chain
  and everything of the transaction but the signatures and the id. No v1 or v2 signing message equals
  a v3 message.
\<close>

theorem signing_message_v3_binds:
  assumes "signing_message_v3 C t c = Inr m"
  shows "list_all (\<lambda>i. \<exists>k. decode_hybrid_public_key_v1 C (in_public_key i) = Inr k) (tx_inputs t)
    \<and> (signing_message_v3 C t' c' = Inr m \<longleftrightarrow> c' = c \<and> signed_part t' = signed_part t)
    \<and> signing_message t' \<noteq> Some m \<and> signing_message_v2 t' c' \<noteq> Inr m"
proof -
  have "list_all (\<lambda>i. \<exists>k. decode_hybrid_public_key_v1 C (in_public_key i) = Inr k) xs"
    if "validate_v3_public_key_envelopes C xs = Inr ()" for xs
    using that by (induction xs) (auto simp: result_simps)
  moreover have "validate_v3_public_key_envelopes C (tx_inputs t) = Inr ()"
    using assms by (auto simp: signing_message_v3_def canonical_unsigned_transaction_bytes_v3_def result_simps)
  ultimately show ?thesis
    using canonical_unsigned_bytes_v3_iff v3_messages_disjoint assms
    by (simp add: signing_message_v3_def signing_message_v2_def signing_message_def)
qed

definition sample_v3 :: Transaction where
  "sample_v3 = \<lparr>tx_txid = ''id'', tx_version = 3,
    tx_inputs = [\<lparr>in_previous_output = OutPoint ''p'' 0, in_public_key = sample_envelope, in_signature = []\<rparr>],
    tx_outputs = [\<lparr>out_address = ''a'', out_amount = 5\<rparr>], tx_fee = 1, tx_nonce = 7\<rparr>"

theorem signing_message_v3_binds_witness:
  "\<exists>m. signing_message_v3 hex_crypto sample_v3 ''main'' = Inr m
    \<and> signing_message_v3 hex_crypto sample_v3 ''test'' \<noteq> Inr m"
proof -
  have "decode_hybrid_public_key_v1 hex_crypto sample_envelope = Inr sample_keys"
    using decode_public_key_iff [OF hex_canonical_hex_crypto] encode_sample_keys by blast
  moreover have "length sample_envelope = 3974"
    using hex_of_bytes_props [of "replicate 32 1"] hex_of_bytes_props [of "replicate 1952 2"]
    by (simp add: sample_envelope_def)
  ultimately obtain m where m: "signing_message_v3 hex_crypto sample_v3 ''main'' = Inr m"
    by (simp add: signing_message_v3_def canonical_unsigned_transaction_bytes_v3_def validate_v3_domain_def
        sample_v3_def TRANSACTION_VERSION_V3_def encode_tx_parts UNSIGNED_TX_V3_DOMAIN_def counted_ok_def len32_def unsigned_ok_def
        without_signature_def outpoint_ok_def output_ok_def)
  with signing_message_v3_binds [OF m, of sample_v3 "''test''"] show ?thesis by auto
qed

end
