(* ===== verification/Pulse_FeePolicy.thy ===== *)
theory Pulse_FeePolicy
  imports Pulse_Mempool Pulse_Pqc
begin

text \<open>
  The fee policy of the mempool (\<open>mempool_v3.rs\<close>): canonical sizes and fee rates, the admission assessment,
  and the nearest-rank fee-rate estimates.
\<close>

section \<open>Operations\<close>

definition MEMPOOL_POLICY_V3_VERSION :: u32 where "MEMPOOL_POLICY_V3_VERSION = 1"
definition MEMPOOL_FEE_ESTIMATE_V3_VERSION :: u32 where "MEMPOOL_FEE_ESTIMATE_V3_VERSION = 1"
definition MEMPOOL_POLICY_V3_FINGERPRINT_DOMAIN :: bytes where
  "MEMPOOL_POLICY_V3_FINGERPRINT_DOMAIN = as_bytes ''PulseDAG:mempool-policy:v3''"
definition FEE_RATE_SCALE_BYTES_V3 :: u64 where "FEE_RATE_SCALE_BYTES_V3 = 1000"
definition FEE_ESTIMATE_PRESSURE_SCALE_BPS_V3 :: u64 where "FEE_ESTIMATE_PRESSURE_SCALE_BPS_V3 = 10000"
definition MEMPOOL_POLICY_V3_COMPAT_MIN_RELAY_FEE_RATE :: u64 where "MEMPOOL_POLICY_V3_COMPAT_MIN_RELAY_FEE_RATE = 0"
definition MEMPOOL_POLICY_V3_COMPAT_MAX_TRANSACTION_FEE :: u64 where "MEMPOOL_POLICY_V3_COMPAT_MAX_TRANSACTION_FEE = - 1"
definition MEMPOOL_POLICY_V3_COMPAT_MAX_TRANSACTIONS :: u64 where "MEMPOOL_POLICY_V3_COMPAT_MAX_TRANSACTIONS = 4096"
definition MEMPOOL_POLICY_V3_PRODUCTION_MIN_RELAY_FEE_RATE :: u64 where
  "MEMPOOL_POLICY_V3_PRODUCTION_MIN_RELAY_FEE_RATE = 1"
definition MEMPOOL_POLICY_V3_PRODUCTION_MAX_TRANSACTION_FEE :: u64 where
  "MEMPOOL_POLICY_V3_PRODUCTION_MAX_TRANSACTION_FEE = 100000000"
definition MEMPOOL_POLICY_V3_PRODUCTION_MAX_TRANSACTIONS :: u64 where
  "MEMPOOL_POLICY_V3_PRODUCTION_MAX_TRANSACTIONS = MEMPOOL_POLICY_V3_COMPAT_MAX_TRANSACTIONS"

record MempoolPolicyV3 =
  fp_version :: u32
  fp_min_relay_fee_rate_per_kb :: u64
  fp_max_transaction_fee :: u64
  fp_max_transactions :: u64
  fp_replacement_enabled :: bool

definition compatibility_default :: MempoolPolicyV3 where
  "compatibility_default = \<lparr>fp_version = MEMPOOL_POLICY_V3_VERSION,
    fp_min_relay_fee_rate_per_kb = MEMPOOL_POLICY_V3_COMPAT_MIN_RELAY_FEE_RATE,
    fp_max_transaction_fee = MEMPOOL_POLICY_V3_COMPAT_MAX_TRANSACTION_FEE,
    fp_max_transactions = MEMPOOL_POLICY_V3_COMPAT_MAX_TRANSACTIONS, fp_replacement_enabled = False\<rparr>"

definition production_default :: MempoolPolicyV3 where
  "production_default = \<lparr>fp_version = MEMPOOL_POLICY_V3_VERSION,
    fp_min_relay_fee_rate_per_kb = MEMPOOL_POLICY_V3_PRODUCTION_MIN_RELAY_FEE_RATE,
    fp_max_transaction_fee = MEMPOOL_POLICY_V3_PRODUCTION_MAX_TRANSACTION_FEE,
    fp_max_transactions = MEMPOOL_POLICY_V3_PRODUCTION_MAX_TRANSACTIONS, fp_replacement_enabled = False\<rparr>"

definition fingerprint :: "crypto \<Rightarrow> MempoolPolicyV3 \<Rightarrow> string" where
  "fingerprint C policy = hex_encode C (sha256 C (MEMPOOL_POLICY_V3_FINGERPRINT_DOMAIN
    @ to_le_bytes (fp_version policy) @ to_le_bytes (fp_min_relay_fee_rate_per_kb policy)
    @ to_le_bytes (fp_max_transaction_fee policy) @ to_le_bytes (fp_max_transactions policy)
    @ [if fp_replacement_enabled policy then 1 else 0]))"

record FeeRateV3 =
  fr_fee :: u64
  fr_canonical_size_bytes :: u64
  fr_fee_per_kb :: u128

record MempoolFeeEstimateV3 =
  fe_version :: u32
  fe_policy_fingerprint :: string
  fe_min_relay_fee_rate_per_kb :: u128
  fe_economy_fee_rate_per_kb :: u128
  fe_standard_fee_rate_per_kb :: u128
  fe_priority_fee_rate_per_kb :: u128
  fe_observed_min_fee_rate_per_kb :: "u128 option"
  fe_observed_max_fee_rate_per_kb :: "u128 option"
  fe_mempool_transactions :: u64
  fe_effective_max_transactions :: u64
  fe_pressure_bps :: u64

datatype MempoolPolicyRejectionV3 =
    BelowMinimumRelayFeeRate
  | AboveMaximumTransactionFee
  | CapacityBackpressure
  | ReplacementNotAuthorized
  | PolicyIdentityMismatch

fun rejection_as_code :: "MempoolPolicyRejectionV3 \<Rightarrow> string" where
  "rejection_as_code BelowMinimumRelayFeeRate = ''MEMPOOL_V3_BELOW_MIN_RELAY_FEE_RATE''"
| "rejection_as_code AboveMaximumTransactionFee = ''MEMPOOL_V3_ABOVE_MAX_TRANSACTION_FEE''"
| "rejection_as_code CapacityBackpressure = ''MEMPOOL_V3_CAPACITY_BACKPRESSURE''"
| "rejection_as_code ReplacementNotAuthorized = ''MEMPOOL_V3_REPLACEMENT_NOT_AUTHORIZED''"
| "rejection_as_code PolicyIdentityMismatch = ''MEMPOOL_V3_POLICY_IDENTITY_MISMATCH''"

datatype MempoolPolicyAssessmentErrorV3 =
    Policy MempoolPolicyRejectionV3
  | CanonicalTransaction PulseError
  | CanonicalSizeOverflow

definition validate_identity :: "crypto \<Rightarrow> MempoolPolicyV3 \<Rightarrow> string \<Rightarrow> MempoolPolicyRejectionV3 + unit" where
  "validate_identity C policy expected_fingerprint =
    (if fp_version policy \<noteq> MEMPOOL_POLICY_V3_VERSION \<or> fingerprint C policy \<noteq> expected_fingerprint
     then Inl PolicyIdentityMismatch else Inr ())"

definition canonical_bytes_for_mempool_v3 :: "crypto \<Rightarrow> Transaction \<Rightarrow> string \<Rightarrow> PulseError + bytes" where
  "canonical_bytes_for_mempool_v3 C tx chain_id =
    (if tx_version tx = TRANSACTION_VERSION_V1 then ok_or length_panic (canonical_transaction_bytes tx)
     else if tx_version tx = TRANSACTION_VERSION_V2 then canonical_transaction_bytes_v2 tx chain_id
     else if tx_version tx = TRANSACTION_VERSION_V3 then canonical_transaction_bytes_v3 C tx chain_id
     else Inl (InvalidTransaction (''mempool v3 canonical-size policy does not support transaction version ''
       @ format_nat (unat (tx_version tx)))))"

definition canonical_transaction_size_for_mempool_v3 ::
  "crypto \<Rightarrow> Transaction \<Rightarrow> string \<Rightarrow> MempoolPolicyAssessmentErrorV3 + u64" where
  "canonical_transaction_size_for_mempool_v3 C tx chain_id =
    rbind (map_err CanonicalTransaction (canonical_bytes_for_mempool_v3 C tx chain_id)) (\<lambda>bytes.
    ok_or CanonicalSizeOverflow (try_from_nat (length bytes)))"

text \<open>The product of two 64-bit values cannot overflow 128 bits; the size is never zero (lemma below).\<close>

definition fee_rate_v3 :: "crypto \<Rightarrow> Transaction \<Rightarrow> string \<Rightarrow> MempoolPolicyAssessmentErrorV3 + FeeRateV3" where
  "fee_rate_v3 C tx chain_id =
    rbind (canonical_transaction_size_for_mempool_v3 C tx chain_id) (\<lambda>canonical_size_bytes.
    let scaled_fee = (ucast (tx_fee tx) :: u128) * ucast FEE_RATE_SCALE_BYTES_V3
    in Inr \<lparr>fr_fee = tx_fee tx, fr_canonical_size_bytes = canonical_size_bytes,
      fr_fee_per_kb = scaled_fee div ucast canonical_size_bytes\<rparr>)"

definition assess_transaction ::
  "crypto \<Rightarrow> MempoolPolicyV3 \<Rightarrow> Transaction \<Rightarrow> string \<Rightarrow> u64 \<Rightarrow> bool \<Rightarrow>
    MempoolPolicyAssessmentErrorV3 + FeeRateV3" where
  "assess_transaction C policy tx chain_id current_transactions conflicts_with_mempool =
    (if fp_version policy \<noteq> MEMPOOL_POLICY_V3_VERSION then Inl (Policy PolicyIdentityMismatch)
     else if current_transactions \<ge> fp_max_transactions policy then Inl (Policy CapacityBackpressure)
     else if tx_fee tx > fp_max_transaction_fee policy then Inl (Policy AboveMaximumTransactionFee)
     else if conflicts_with_mempool then Inl (Policy ReplacementNotAuthorized)
     else
       rbind (fee_rate_v3 C tx chain_id) (\<lambda>fee_rate.
       if fr_fee_per_kb fee_rate < ucast (fp_min_relay_fee_rate_per_kb policy)
       then Inl (Policy BelowMinimumRelayFeeRate) else Inr fee_rate))"

definition nearest_rank_fee_rate_v3 :: "u128 list \<Rightarrow> u128 \<Rightarrow> u128 \<Rightarrow> u128" where
  "nearest_rank_fee_rate_v3 sorted_fee_rates numerator denominator =
    (if sorted_fee_rates = [] then 0
     else
       let cnt = of_nat (length sorted_fee_rates) :: u128;
           rank = saturating_add (saturating_mul cnt numerator) (saturating_sub denominator 1) div denominator;
           index = unat (min (saturating_sub rank 1) (saturating_sub cnt 1))
       in sorted_fee_rates ! index)"

definition fee_estimate_pressure_bps_v3 :: "u64 \<Rightarrow> u64 \<Rightarrow> u64" where
  "fee_estimate_pressure_bps_v3 used capacity =
    (if capacity = 0 then (if used = 0 then 0 else FEE_ESTIMATE_PRESSURE_SCALE_BPS_V3)
     else
       let scaled = saturating_mul (ucast used :: u128) (ucast FEE_ESTIMATE_PRESSURE_SCALE_BPS_V3) div ucast capacity
       in case try_from (min scaled (ucast FEE_ESTIMATE_PRESSURE_SCALE_BPS_V3)) of
            Some bps \<Rightarrow> bps
          | None \<Rightarrow> FEE_ESTIMATE_PRESSURE_SCALE_BPS_V3)"

fun collect_fee_rates ::
  "crypto \<Rightarrow> string \<Rightarrow> Transaction list \<Rightarrow> MempoolPolicyAssessmentErrorV3 + u128 list" where
  "collect_fee_rates C chain_id [] = Inr []"
| "collect_fee_rates C chain_id (tx # txs) =
    rbind (fee_rate_v3 C tx chain_id) (\<lambda>rate.
    rbind (collect_fee_rates C chain_id txs) (\<lambda>rates. Inr (fr_fee_per_kb rate # rates)))"

definition quantile_or_floor :: "u128 list \<Rightarrow> u128 \<Rightarrow> u128 \<Rightarrow> u128 \<Rightarrow> u128" where
  "quantile_or_floor fee_rates relay_floor numerator denominator =
    (if fee_rates = [] then relay_floor
     else max (nearest_rank_fee_rate_v3 fee_rates numerator denominator) relay_floor)"

definition estimate_mempool_fee_rates_v3 ::
  "crypto \<Rightarrow> ChainState \<Rightarrow> MempoolPolicyV3 \<Rightarrow> MempoolPolicyAssessmentErrorV3 + MempoolFeeEstimateV3" where
  "estimate_mempool_fee_rates_v3 C state policy =
    (if fp_version policy \<noteq> MEMPOOL_POLICY_V3_VERSION then Inl (Policy PolicyIdentityMismatch)
     else
       rbind (collect_fee_rates C (cs_chain_id state) (map snd (mp_transactions (cs_mempool state)))) (\<lambda>rates.
       let fee_rates = sort rates;
           relay_floor = ucast (fp_min_relay_fee_rate_per_kb policy);
           mempool_transactions = (case try_from_nat (length (mp_transactions (cs_mempool state))) of
             Some n \<Rightarrow> n | None \<Rightarrow> - 1);
           live_max_transactions = (case try_from_nat (mp_max_transactions (cs_mempool state)) of
             Some n \<Rightarrow> n | None \<Rightarrow> - 1);
           effective_max_transactions = min (fp_max_transactions policy) live_max_transactions
       in Inr \<lparr>fe_version = MEMPOOL_FEE_ESTIMATE_V3_VERSION,
            fe_policy_fingerprint = fingerprint C policy,
            fe_min_relay_fee_rate_per_kb = relay_floor,
            fe_economy_fee_rate_per_kb = quantile_or_floor fee_rates relay_floor 1 4,
            fe_standard_fee_rate_per_kb = quantile_or_floor fee_rates relay_floor 1 2,
            fe_priority_fee_rate_per_kb = quantile_or_floor fee_rates relay_floor 9 10,
            fe_observed_min_fee_rate_per_kb = (if fee_rates = [] then None else Some (hd fee_rates)),
            fe_observed_max_fee_rate_per_kb = (if fee_rates = [] then None else Some (last fee_rates)),
            fe_mempool_transactions = mempool_transactions,
            fe_effective_max_transactions = effective_max_transactions,
            fe_pressure_bps = fee_estimate_pressure_bps_v3 mempool_transactions effective_max_transactions\<rparr>))"

definition admission_order_key_v3 :: "u64 option \<Rightarrow> string \<Rightarrow> u64 \<times> string" where
  "admission_order_key_v3 first_seen txid = ((case first_seen of None \<Rightarrow> - 1 | Some s \<Rightarrow> s), txid)"

section \<open>Fee rates are exact\<close>

lemma canonical_size_positive:
  assumes "canonical_transaction_size_for_mempool_v3 C tx chain = Inr n"
  shows "0 < unat n"
proof -
  obtain bs where bs: "canonical_bytes_for_mempool_v3 C tx chain = Inr bs" and n: "unat n = length bs"
    using assms by (auto simp: canonical_transaction_size_for_mempool_v3_def result_simps mach)
  have "8 \<le> length bs"
    using bs unfolding canonical_bytes_for_mempool_v3_def canonical_transaction_bytes_def canonical_transaction_bytes_v2_def
      canonical_transaction_bytes_v3_def
    by (auto simp: result_simps split: if_splits Option.bind_splits)
  with n show ?thesis by linarith
qed

lemma fee_rate_exact:
  assumes "fee_rate_v3 C tx chain = Inr r"
  shows "canonical_transaction_size_for_mempool_v3 C tx chain = Inr (fr_canonical_size_bytes r)"
    "fr_fee r = tx_fee tx" "unat (fr_fee_per_kb r) = unat (tx_fee tx) * 1000 div unat (fr_canonical_size_bytes r)"
proof -
  have "unat (ucast (tx_fee tx) * 1000 :: u128) = unat (tx_fee tx) * 1000"
    using unat_u64_bound [of "tx_fee tx"] by (simp add: unat_word_ariths unat_ucast_up)
  then show "canonical_transaction_size_for_mempool_v3 C tx chain = Inr (fr_canonical_size_bytes r)"
    "fr_fee r = tx_fee tx" "unat (fr_fee_per_kb r) = unat (tx_fee tx) * 1000 div unat (fr_canonical_size_bytes r)"
    using assms by (auto simp: fee_rate_v3_def result_simps Let_def FEE_RATE_SCALE_BYTES_V3_def unat_div unat_ucast_up)
qed

lemma fee_rate_total: "(\<exists>r. fee_rate_v3 C tx chain = Inr r) \<longleftrightarrow> (\<exists>n. canonical_transaction_size_for_mempool_v3 C tx chain = Inr n)"
  by (auto simp: fee_rate_v3_def result_simps Let_def)

section \<open>Nearest-rank quantiles\<close>

definition is_quantile :: "'a::linorder list \<Rightarrow> nat \<Rightarrow> nat \<Rightarrow> 'a \<Rightarrow> bool" where
  "is_quantile rates num den v \<longleftrightarrow> v \<in> set rates
    \<and> length rates * num \<le> den * length (filter (\<lambda>x. x \<le> v) rates)
    \<and> den * length (filter (\<lambda>x. x < v) rates) < length rates * num"

lemma sorted_ranks:
  assumes "sorted xs" "i < length xs"
  shows "i < length (filter (\<lambda>x. x \<le> xs ! i) xs)" "length (filter (\<lambda>x. x < xs ! i) xs) \<le> i"
proof -
  have "filter (\<lambda>x. x \<le> xs ! i) (take (Suc i) xs) = take (Suc i) xs"
    using assms by (intro filter_True) (auto simp: in_set_conv_nth sorted_iff_nth_mono)
  moreover have "filter (\<lambda>x. x \<le> xs ! i) xs =
      filter (\<lambda>x. x \<le> xs ! i) (take (Suc i) xs) @ filter (\<lambda>x. x \<le> xs ! i) (drop (Suc i) xs)"
    by (metis append_take_drop_id filter_append)
  ultimately have "length (filter (\<lambda>x. x \<le> xs ! i) xs) \<ge> Suc i" using assms(2) by simp
  then show "i < length (filter (\<lambda>x. x \<le> xs ! i) xs)" by simp
  have "filter (\<lambda>x. x < xs ! i) (drop i xs) = []"
    using assms by (intro filter_False) (auto simp: in_set_conv_nth sorted_iff_nth_mono not_less)
  moreover have "filter (\<lambda>x. x < xs ! i) xs = filter (\<lambda>x. x < xs ! i) (take i xs) @ filter (\<lambda>x. x < xs ! i) (drop i xs)"
    by (metis append_take_drop_id filter_append)
  ultimately show "length (filter (\<lambda>x. x < xs ! i) xs) \<le> i"
    using length_filter_le [of "\<lambda>x. x < xs ! i" "take i xs"] by simp
qed

lemma nearest_rank_index:
  assumes "xs \<noteq> []" "length xs < 2 ^ 64" "0 < num" "num \<le> den" "den \<le> 100"
  shows "\<exists>i < length xs. nearest_rank_fee_rate_v3 xs (word_of_nat num) (word_of_nat den) = xs ! i
    \<and> length xs * num \<le> Suc i * den \<and> i * den < length xs * num"
proof -
  define n where "n = length xs"
  define rank where "rank = (n * num + (den - 1)) div den"
  have n: "0 < n" "n < 2 ^ 64" using assms by (simp_all add: n_def)
  have small: "n * num + (den - 1) < 2 ^ 128"
  proof -
    have "n * num \<le> 2 ^ 64 * 100" using n assms(3-5) by (intro mult_mono) auto
    with assms(5) show ?thesis by simp
  qed
  have nw: "unat (word_of_nat n :: u128) = n" "unat (word_of_nat num :: u128) = num" "unat (word_of_nat den :: u128) = den"
    using n assms(3-5) by (simp_all add: unat_word_of_nat_small)
  have sat: "unat (saturating_add (saturating_mul (word_of_nat n :: u128) (word_of_nat num)) (saturating_sub (word_of_nat den) 1))
      = n * num + (den - 1)"
    using small by (simp add: mach nw)
  have rank: "unat (saturating_add (saturating_mul (word_of_nat n :: u128) (word_of_nat num)) (saturating_sub (word_of_nat den) 1)
      div word_of_nat den) = rank"
    by (simp add: unat_div sat nw rank_def)
  have d: "0 < den" using assms(3,4) by simp
  have up: "n * num \<le> rank * den" and down: "(rank - 1) * den < n * num"
  proof -
    have "n * num + (den - 1) < rank * den + den"
      unfolding rank_def using d by (metis dividend_less_div_times add.commute mult.commute)
    with d show "n * num \<le> rank * den" by simp
    have le: "rank * den \<le> n * num + (den - 1)" unfolding rank_def by (simp add: div_times_less_eq_dividend)
    show "(rank - 1) * den < n * num"
    proof (cases rank)
      case 0
      then show ?thesis using n assms(3) by simp
    next
      case (Suc k)
      with le d show ?thesis by simp
    qed
  qed
  have "rank - 1 < n"
  proof -
    have "(rank - 1) * den < n * den" using down assms(4) by (meson less_le_trans mult_le_mono2)
    then show ?thesis by simp
  qed
  moreover have "unat (min (saturating_sub (saturating_add (saturating_mul (word_of_nat n :: u128) (word_of_nat num))
      (saturating_sub (word_of_nat den) 1) div word_of_nat den) 1) (saturating_sub (word_of_nat n) 1)) = rank - 1"
    using \<open>rank - 1 < n\<close> by (auto simp: min_def word_le_nat_alt unat_saturating_sub rank nw)
  then have "nearest_rank_fee_rate_v3 xs (word_of_nat num) (word_of_nat den) = xs ! (rank - 1)"
    using assms(1) by (simp add: nearest_rank_fee_rate_v3_def Let_def flip: n_def)
  moreover have "0 < rank" using up n assms(3) by (cases rank) auto
  ultimately show ?thesis using up down by (intro exI [of _ "rank - 1"]) (simp add: n_def)
qed

lemma nearest_rank_quantile:
  assumes "rates \<noteq> []" "length rates < 2 ^ 64" "0 < num" "num \<le> den" "den \<le> 100"
  shows "is_quantile rates num den (nearest_rank_fee_rate_v3 (sort rates) (word_of_nat num) (word_of_nat den))"
proof -
  have ne: "sort rates \<noteq> []" using assms(1) by (metis length_0_conv length_sort)
  obtain i where i: "i < length rates"
    "nearest_rank_fee_rate_v3 (sort rates) (word_of_nat num) (word_of_nat den) = sort rates ! i"
    "length rates * num \<le> Suc i * den" "i * den < length rates * num"
    using nearest_rank_index [OF ne _ assms(3-5)] assms(2) by auto
  have flt: "length (filter p (sort rates)) = length (filter p rates)" for p
    by (metis mset_filter mset_sort size_mset)
  have in_rates: "sort rates ! i \<in> set rates" using i(1) nth_mem [of i "sort rates"] by simp
  define v where "v = sort rates ! i"
  have ranks: "i < length (filter (\<lambda>x. x \<le> v) rates)" "length (filter (\<lambda>x. x < v) rates) \<le> i"
    using sorted_ranks [of "sort rates" i] i(1) by (simp_all add: flt v_def)
  have "length rates * num \<le> den * length (filter (\<lambda>x. x \<le> v) rates)"
    using i(3) mult_le_mono1 [OF Suc_leI [OF ranks(1)], of den] by (simp add: mult.commute)
  moreover have "den * length (filter (\<lambda>x. x < v) rates) < length rates * num"
    using le_less_trans [OF mult_le_mono2 [OF ranks(2), of den]] i(4) by (simp add: mult.commute)
  ultimately show ?thesis using in_rates i(2) by (simp add: is_quantile_def v_def)
qed

lemma is_quantile_mono:
  assumes q1: "is_quantile xs n1 d1 q1" and q2: "is_quantile xs n2 d2 q2" and le: "n1 * d2 \<le> n2 * d1"
  shows "q1 \<le> q2"
proof (rule ccontr)
  assume less: "\<not> q1 \<le> q2"
  define a where "a = length (filter (\<lambda>x. x \<le> q2) xs)"
  define b where "b = length (filter (\<lambda>x. x < q1) xs)"
  have "filter (\<lambda>x. x \<le> q2) xs = filter (\<lambda>x. x \<le> q2) (filter (\<lambda>x. x < q1) xs)"
    using less by (auto intro: filter_cong)
  then have ab: "a \<le> b" unfolding a_def b_def by (metis length_filter_le)
  have lo: "length xs * n2 \<le> d2 * a" and hi: "d1 * b < length xs * n1" and pos: "0 < d2"
    using q1 q2 by (auto simp: is_quantile_def a_def b_def intro: gr0I)
  have "length xs * n1 * d2 \<le> length xs * n2 * d1" using le by (simp add: mult.assoc)
  also have "\<dots> \<le> d2 * a * d1" using lo by simp
  also have "\<dots> \<le> d2 * b * d1" using ab by simp
  also have "\<dots> < length xs * n1 * d2" using hi pos by (metis mult.assoc mult.commute mult_less_cancel1)
  finally show False by simp
qed

lemma collect_fee_rates_Inr:
  "collect_fee_rates C chain txs = Inr rates \<longleftrightarrow>
    list_all2 (\<lambda>tx rate. \<exists>r. fee_rate_v3 C tx chain = Inr r \<and> fr_fee_per_kb r = rate) txs rates"
  by (induction txs arbitrary: rates) (auto simp: result_simps list_all2_Cons1)

lemma quantile_word: "quantile_or_floor (sort rates) fl (word_of_nat num) (word_of_nat den) =
    (if rates = [] then fl else max (nearest_rank_fee_rate_v3 (sort rates) (word_of_nat num) (word_of_nat den)) fl)"
  by (simp add: quantile_or_floor_def) (metis length_0_conv length_sort)

lemma pressure_exact:
  "unat (fee_estimate_pressure_bps_v3 used cap) =
    (if unat cap = 0 then (if unat used = 0 then 0 else 10000) else min (unat used * 10000 div unat cap) 10000)"
proof (cases "cap = 0")
  case True
  then show ?thesis
    by (auto simp: fee_estimate_pressure_bps_v3_def FEE_ESTIMATE_PRESSURE_SCALE_BPS_V3_def unat_eq_zero)
next
  case False
  define scaled where "scaled = saturating_mul (ucast used :: u128) 10000 div ucast cap"
  have nz: "unat cap \<noteq> 0" using False by (simp add: unat_eq_zero)
  have sc: "unat scaled = unat used * 10000 div unat cap"
    using unat_u64_bound [of used] by (simp add: scaled_def unat_div mach unat_ucast_up)
  have mn: "unat (min scaled 10000) = min (unat used * 10000 div unat cap) 10000"
    by (simp add: min_def word_le_nat_alt sc)
  then have "unat (min scaled 10000) < 2 ^ 64" by simp
  then obtain k :: u64 where k: "unat k = unat (min scaled 10000)" using unat_word_of_nat_small [where ?'a = 64, of "unat (min scaled 10000)"] by auto
  then have tf: "(try_from (min scaled 10000) :: u64 option) = Some k" by (simp add: try_from_eq_Some)
  have "fee_estimate_pressure_bps_v3 used cap = k"
    using False tf
    by (simp add: fee_estimate_pressure_bps_v3_def FEE_ESTIMATE_PRESSURE_SCALE_BPS_V3_def Let_def flip: scaled_def)
  with mn nz k show ?thesis by simp
qed


lemma sample_fee_rates:
  assumes "tx = sample_parent \<or> tx = sample_child"
  shows "\<exists>r. fee_rate_v3 nonce_crypto tx chain = Inr r"
proof -
  obtain b where b: "canonical_transaction_bytes tx = Some b" "length b < 2 ^ 64"
    using assms
    by (auto simp: sample_parent_def sample_child_def canonical_transaction_bytes_def try_from_nat_def
      canonical_tx_input_bytes_def canonical_outpoint_bytes_def canonical_tx_output_bytes_def encode_counted_def
      encode_len_prefixed_bytes_def encode_len_prefixed_str_def TX_V1_DOMAIN_def)
  moreover have "tx_version tx = TRANSACTION_VERSION_V1"
    using assms by (auto simp: sample_parent_def sample_child_def TRANSACTION_VERSION_V1_def)
  ultimately show ?thesis
    by (simp add: fee_rate_v3_def canonical_transaction_size_for_mempool_v3_def canonical_bytes_for_mempool_v3_def
        try_from_nat_def Let_def)
qed


end
