(* ===== verification/Pulse_MempoolResource.thy ===== *)
theory Pulse_MempoolResource
  imports Pulse_FeePolicy
begin

text \<open>
  The production resource limits of the mempool (\<open>mempool_resource_v1.rs\<close>): size limits per transaction,
  eviction of whole packages until the caps hold, orphan limits, and the invariant the normalisation
  establishes.  The JSON size of the network message that carries a transaction is a parameter \<open>J\<close>, the
  bytes of \<open>serde_json::to_vec\<close> or its error.
\<close>

section \<open>Operations\<close>

type_synonym json = "string \<Rightarrow> Transaction \<Rightarrow> string + bytes"

definition MEMPOOL_RESOURCE_POLICY_V1_VERSION :: u32 where "MEMPOOL_RESOURCE_POLICY_V1_VERSION = 1"
definition MEMPOOL_RESOURCE_EXPIRY_BOUNDARY_V1 :: u32 where "MEMPOOL_RESOURCE_EXPIRY_BOUNDARY_V1 = 1"
definition MEMPOOL_RESOURCE_MAX_TRANSACTIONS_V1 :: u64 where "MEMPOOL_RESOURCE_MAX_TRANSACTIONS_V1 = 4096"
definition MEMPOOL_RESOURCE_MAX_SPENT_OUTPOINTS_V1 :: u64 where "MEMPOOL_RESOURCE_MAX_SPENT_OUTPOINTS_V1 = 8192"
definition MEMPOOL_RESOURCE_MAX_ORPHANS_V1 :: u64 where "MEMPOOL_RESOURCE_MAX_ORPHANS_V1 = 512"
definition MEMPOOL_RESOURCE_MAX_TRANSACTION_BYTES_V1 :: u64 where
  "MEMPOOL_RESOURCE_MAX_TRANSACTION_BYTES_V1 = 64 * 1024"
definition MEMPOOL_RESOURCE_MAX_TRANSACTION_MESSAGE_BYTES_V1 :: u64 where
  "MEMPOOL_RESOURCE_MAX_TRANSACTION_MESSAGE_BYTES_V1 = 64 * 1024"
definition MEMPOOL_RESOURCE_LIVE_MAX_AGE_BLOCKS_V1 :: u64 where "MEMPOOL_RESOURCE_LIVE_MAX_AGE_BLOCKS_V1 = 1440"
definition MEMPOOL_RESOURCE_ORPHAN_MAX_AGE_BLOCKS_V1 :: u64 where "MEMPOOL_RESOURCE_ORPHAN_MAX_AGE_BLOCKS_V1 = 1440"

record MempoolResourcePolicyV1 =
  rs_version :: u32
  rs_max_transactions :: u64
  rs_max_spent_outpoints :: u64
  rs_max_orphans :: u64
  rs_max_transaction_bytes :: u64
  rs_live_max_age_blocks :: u64
  rs_orphan_max_age_blocks :: u64
  rs_expiry_boundary_version :: u32

definition resource_default :: MempoolResourcePolicyV1 where
  "resource_default = \<lparr>rs_version = MEMPOOL_RESOURCE_POLICY_V1_VERSION,
    rs_max_transactions = MEMPOOL_RESOURCE_MAX_TRANSACTIONS_V1,
    rs_max_spent_outpoints = MEMPOOL_RESOURCE_MAX_SPENT_OUTPOINTS_V1,
    rs_max_orphans = MEMPOOL_RESOURCE_MAX_ORPHANS_V1,
    rs_max_transaction_bytes = MEMPOOL_RESOURCE_MAX_TRANSACTION_BYTES_V1,
    rs_live_max_age_blocks = MEMPOOL_RESOURCE_LIVE_MAX_AGE_BLOCKS_V1,
    rs_orphan_max_age_blocks = MEMPOOL_RESOURCE_ORPHAN_MAX_AGE_BLOCKS_V1,
    rs_expiry_boundary_version = MEMPOOL_RESOURCE_EXPIRY_BOUNDARY_V1\<rparr>"

record MempoolResourceNormalizationV1 =
  no_seeded_live_admission_heights :: u64
  no_seeded_orphan_admission_heights :: u64
  no_expired_live_txids :: "Hash list"
  no_expired_orphan_txids :: "Hash list"
  no_removed_live_txids :: "Hash list"
  no_removed_orphan_txids :: "Hash list"

definition transaction_message_size_for_resource_v1 :: "json \<Rightarrow> Transaction \<Rightarrow> string \<Rightarrow> string + u64" where
  "transaction_message_size_for_resource_v1 J tx chain_id =
    rbind (map_err (\<lambda>error. ''transaction carrier serialization failed: '' @ error) (J chain_id tx)) (\<lambda>bytes.
    ok_or ''transaction carrier size overflow'' (try_from_nat (length bytes)))"

definition apply_production_mempool_resource_caps_v1 :: "Mempool \<Rightarrow> Mempool" where
  "apply_production_mempool_resource_caps_v1 m = m\<lparr>
    mp_max_transactions := unat (rs_max_transactions resource_default),
    mp_max_spent_outpoints := unat (rs_max_spent_outpoints resource_default),
    mp_max_orphans := unat (rs_max_orphans resource_default)\<rparr>"

definition size_within :: "'e + u64 \<Rightarrow> u64 \<Rightarrow> bool" where
  "size_within r limit = (case r of Inl _ \<Rightarrow> False | Inr sz \<Rightarrow> sz \<le> limit)"

definition transaction_fits_production_resource_v1 ::
  "crypto \<Rightarrow> json \<Rightarrow> Transaction \<Rightarrow> string \<Rightarrow> MempoolResourcePolicyV1 \<Rightarrow> bool" where
  "transaction_fits_production_resource_v1 C J tx chain_id policy \<longleftrightarrow>
    size_within (canonical_transaction_size_for_mempool_v3 C tx chain_id) (rs_max_transaction_bytes policy)
    \<and> size_within (transaction_message_size_for_resource_v1 J tx chain_id)
        MEMPOOL_RESOURCE_MAX_TRANSACTION_MESSAGE_BYTES_V1"

text \<open>\<open>live_children\<close> is the same loop as in \<open>prune_expired_mempool\<close>.\<close>

definition live_children :: "ChainState \<Rightarrow> (Hash \<times> Hash list) list" where
  "live_children state = fold (link_inputs state) (map snd (mp_transactions (cs_mempool state))) []"

function package_loop :: "(Hash \<times> Hash list) list \<Rightarrow> Hash list \<Rightarrow> Hash list \<Rightarrow> Hash list" where
  "package_loop children removal [] = removal"
| "package_loop children removal (txid # pending) =
    (if txid \<in> set removal then package_loop children removal pending
     else package_loop children (insort_insert txid removal) (pending @ kids children txid))"
  by pat_completeness auto
termination
proof (relation "measures [\<lambda>(children, removal, pending). card ((all_kids children \<union> set pending) - set removal),
    \<lambda>(children, removal, pending). length pending]")
  fix children and removal :: "Hash list" and txid pending
  assume in_r: "txid \<in> set removal"
  then have "(all_kids children \<union> set (txid # pending)) - set removal = (all_kids children \<union> set pending) - set removal"
    by auto
  then show "((children, removal, pending), children, removal, txid # pending) \<in> measures
      [\<lambda>(children, removal, pending). card ((all_kids children \<union> set pending) - set removal),
       \<lambda>(children, removal, pending). length pending]"
    by simp
next
  fix children and removal :: "Hash list" and txid pending
  assume nin: "txid \<notin> set removal"
  have "(all_kids children \<union> set (pending @ kids children txid)) - set (insort_insert txid removal)
      \<subset> (all_kids children \<union> set (txid # pending)) - set removal"
    using nin kids_subset [of children txid] by (auto simp: set_insort_insert)
  then have "card ((all_kids children \<union> set (pending @ kids children txid)) - set (insort_insert txid removal))
      < card ((all_kids children \<union> set (txid # pending)) - set removal)"
    by (rule psubset_card_mono [rotated]) simp
  then show "((children, insort_insert txid removal, pending @ kids children txid), children, removal, txid # pending)
      \<in> measures [\<lambda>(children, removal, pending). card ((all_kids children \<union> set pending) - set removal),
       \<lambda>(children, removal, pending). length pending]"
    by simp
qed simp

definition package_from_roots :: "ChainState \<Rightarrow> Hash list \<Rightarrow> Hash list" where
  "package_from_roots state roots = package_loop (live_children state) [] roots"

definition rebuild_spent_outpoints :: "ChainState \<Rightarrow> ChainState" where
  "rebuild_spent_outpoints state = state\<lparr>cs_mempool := (cs_mempool state)\<lparr>
    mp_spent_outpoints := all_inputs (mp_transactions (cs_mempool state))\<rparr>\<rparr>"

fun remove_txids :: "Hash list \<Rightarrow> Mempool \<Rightarrow> Mempool \<times> Hash list" where
  "remove_txids [] m = (m, [])"
| "remove_txids (txid # package) m =
    (if contains_key (mp_transactions m) txid then
       let (m', removed) = remove_txids package (m\<lparr>
             mp_transactions := AList.delete txid (mp_transactions m),
             mp_first_seen := AList.delete txid (mp_first_seen m),
             mp_admission_height := AList.delete txid (mp_admission_height m)\<rparr>)
       in (m', txid # removed)
     else remove_txids package m)"

definition remove_live_package :: "ChainState \<Rightarrow> Hash list \<Rightarrow> ChainState \<times> Hash list" where
  "remove_live_package state roots =
    (let (m, removed) = remove_txids (package_from_roots state roots) (cs_mempool state);
         state' = state\<lparr>cs_mempool := m\<rparr>
     in (if removed \<noteq> [] then rebuild_spent_outpoints state' else state', removed))"

definition victim_before :: "Transaction \<Rightarrow> Transaction \<Rightarrow> bool" where
  "victim_before a b \<longleftrightarrow> tx_fee a < tx_fee b \<or> (tx_fee a = tx_fee b \<and> tx_txid b < tx_txid a)"

definition lowest_live_resource_victim :: "ChainState \<Rightarrow> Hash option" where
  "lowest_live_resource_victim state =
    map_option tx_txid (fold (\<lambda>tx best. case best of
        None \<Rightarrow> Some tx
      | Some b \<Rightarrow> if victim_before tx b then Some tx else Some b)
      (map snd (mp_transactions (cs_mempool state))) None)"

definition count_evicted :: "nat \<Rightarrow> ChainState \<Rightarrow> ChainState" where
  "count_evicted n state = state\<lparr>cs_mempool := (cs_mempool state)\<lparr>mp_counters :=
    (mp_counters (cs_mempool state))\<lparr>mc_evicted_total :=
      saturating_add (mc_evicted_total (mp_counters (cs_mempool state))) (of_nat n)\<rparr>\<rparr>\<rparr>"

lemma remove_txids_length: "length (mp_transactions (fst (remove_txids package m))) + length (snd (remove_txids package m))
    \<le> length (mp_transactions m)"
proof (induction package m rule: remove_txids.induct)
  case (2 txid package m)
  show ?case
  proof (cases "contains_key (mp_transactions m) txid")
    case True
    then obtain tx where "(txid, tx) \<in> set (mp_transactions m)" by (auto dest: map_of_SomeD)
    then have "length (AList.delete txid (mp_transactions m)) < length (mp_transactions m)"
      by (auto simp: AList.delete_eq intro: length_filter_less)
    with 2 True show ?thesis by (auto simp: case_prod_beta Let_def)
  qed (use 2 in simp)
qed simp

definition over_caps :: "Mempool \<Rightarrow> bool" where
  "over_caps m \<longleftrightarrow> length (mp_transactions m) > mp_max_transactions m
    \<or> length (mp_spent_outpoints m) > mp_max_spent_outpoints m"

function evict_loop :: "ChainState \<Rightarrow> Hash list \<Rightarrow> ChainState \<times> Hash list" where
  "evict_loop state removed_live_txids =
    (if over_caps (cs_mempool state) then
       (case lowest_live_resource_victim state of
          None \<Rightarrow> (state, removed_live_txids)
        | Some victim \<Rightarrow>
            let (state', removed) = remove_live_package state [victim] in
            if removed = [] then (state', removed_live_txids)
            else evict_loop (count_evicted (length removed) state') (removed_live_txids @ removed))
     else (state, removed_live_txids))"
  by pat_completeness auto
termination
proof (relation "measure (\<lambda>(state, removed). length (mp_transactions (cs_mempool state)))")
  fix state removed_live_txids victim x state' and removed :: "Hash list"
  assume "x = remove_live_package state [victim]" "(state', removed) = x" "removed \<noteq> []"
  then have "length (mp_transactions (cs_mempool state')) + length removed \<le> length (mp_transactions (cs_mempool state))"
    using remove_txids_length [of "package_from_roots state [victim]" "cs_mempool state"]
    by (auto simp: remove_live_package_def rebuild_spent_outpoints_def case_prod_beta Let_def split: if_splits)
  moreover have "0 < length removed" using \<open>removed \<noteq> []\<close> by simp
  ultimately have "length (mp_transactions (cs_mempool state')) < length (mp_transactions (cs_mempool state))" by linarith
  then show "((count_evicted (length removed) state', removed_live_txids @ removed), state, removed_live_txids)
      \<in> measure (\<lambda>(state, removed). length (mp_transactions (cs_mempool state)))"
    by (simp add: count_evicted_def)
qed simp

declare evict_loop.simps [simp del]

definition remove_orphan :: "Hash \<Rightarrow> Mempool \<Rightarrow> Mempool \<times> bool" where
  "remove_orphan txid m =
    (let removed = contains_key (mp_orphan_transactions m) txid;
         m = m\<lparr>mp_orphan_transactions := AList.delete txid (mp_orphan_transactions m),
           mp_orphan_missing_outpoints := AList.delete txid (mp_orphan_missing_outpoints m),
           mp_orphan_received_order := AList.delete txid (mp_orphan_received_order m),
           mp_orphan_admission_height := AList.delete txid (mp_orphan_admission_height m)\<rparr>
     in (if removed then m\<lparr>mp_counters := (mp_counters m)\<lparr>
           mc_orphan_dropped_total := saturating_add (mc_orphan_dropped_total (mp_counters m)) 1,
           mc_orphan_pruned_total := saturating_add (mc_orphan_pruned_total (mp_counters m)) 1\<rparr>\<rparr> else m, removed))"

fun remove_orphans :: "Hash list \<Rightarrow> Mempool \<Rightarrow> Mempool \<times> Hash list" where
  "remove_orphans [] m = (m, [])"
| "remove_orphans (txid # txids) m =
    (let (m', removed) = remove_orphan txid m;
         (m'', rest) = remove_orphans txids m'
     in (m'', if removed then txid # rest else rest))"

definition logical_expired :: "u64 \<Rightarrow> u64 \<Rightarrow> u64 \<Rightarrow> bool" where
  "logical_expired current_height admission_height max_age_blocks =
    (case checked_add admission_height max_age_blocks of
       None \<Rightarrow> False
     | Some deadline \<Rightarrow> current_height \<ge> deadline)"

fun orphan_before :: "u64 \<times> Hash \<Rightarrow> u64 \<times> Hash \<Rightarrow> bool" where
  "orphan_before (fa, ta) (fb, tb) \<longleftrightarrow> fa < fb \<or> (fa = fb \<and> tb \<le> ta)"

fun insert_candidate :: "u64 \<times> Hash \<Rightarrow> (u64 \<times> Hash) list \<Rightarrow> (u64 \<times> Hash) list" where
  "insert_candidate c [] = [c]"
| "insert_candidate c (d # ds) = (if orphan_before c d then c # d # ds else d # insert_candidate c ds)"

definition deterministic_orphan_victims :: "Mempool \<Rightarrow> Hash list" where
  "deterministic_orphan_victims m =
    map snd (foldr insert_candidate (map (\<lambda>tx. (tx_fee tx, tx_txid tx)) (map snd (mp_orphan_transactions m))) [])"

fun seed_heights :: "u64 \<Rightarrow> Hash list \<Rightarrow> (Hash \<times> u64) list \<Rightarrow> u64 \<Rightarrow> (Hash \<times> u64) list \<times> u64" where
  "seed_heights current_height [] heights seeded = (heights, seeded)"
| "seed_heights current_height (txid # txids) heights seeded =
    (if contains_key heights txid then seed_heights current_height txids heights seeded
     else seed_heights current_height txids (AList.update txid current_height heights) (saturating_add seeded 1))"

definition does_not_fit :: "crypto \<Rightarrow> json \<Rightarrow> string \<Rightarrow> (Hash \<times> Transaction) list \<Rightarrow> Hash \<Rightarrow> bool" where
  "does_not_fit C J chain_id txs txid =
    (case lookup txs txid of
       None \<Rightarrow> False
     | Some tx \<Rightarrow> \<not> transaction_fits_production_resource_v1 C J tx chain_id resource_default)"

definition oversized_roots :: "crypto \<Rightarrow> json \<Rightarrow> ChainState \<Rightarrow> Hash list" where
  "oversized_roots C J state =
    filter (does_not_fit C J (cs_chain_id state) (mp_transactions (cs_mempool state)))
      (sort (map fst (mp_transactions (cs_mempool state))))"

definition orphan_expired :: "u64 \<Rightarrow> Mempool \<Rightarrow> Hash \<Rightarrow> bool" where
  "orphan_expired current_height m txid =
    (case lookup (mp_orphan_admission_height m) txid of
       None \<Rightarrow> False
     | Some height \<Rightarrow> logical_expired current_height height (rs_orphan_max_age_blocks resource_default))"

definition retain_metadata :: "Mempool \<Rightarrow> Mempool" where
  "retain_metadata m =
    (let live = contains_key (mp_transactions m); orphan = contains_key (mp_orphan_transactions m)
     in m\<lparr>mp_first_seen := retain_keys live (mp_first_seen m),
          mp_admission_height := retain_keys live (mp_admission_height m),
          mp_orphan_missing_outpoints := retain_keys orphan (mp_orphan_missing_outpoints m),
          mp_orphan_received_order := retain_keys orphan (mp_orphan_received_order m),
          mp_orphan_admission_height := retain_keys orphan (mp_orphan_admission_height m)\<rparr>)"

definition sort_dedup :: "Hash list \<Rightarrow> Hash list" where
  "sort_dedup xs = remdups_adj (sort xs)"

text \<open>The four parts of the normalisation: seeding ages, the live set, the orphans, the metadata.\<close>

definition seed_admission_heights :: "ChainState \<Rightarrow> ChainState \<times> u64 \<times> u64" where
  "seed_admission_heights state =
    (let m = apply_production_mempool_resource_caps_v1 (cs_mempool state);
         (live, n) = seed_heights (mempool_logical_clock state) (sort (map fst (mp_transactions m))) (mp_admission_height m) 0;
         (orphan, k) = seed_heights (mempool_logical_clock state) (sort (map fst (mp_orphan_transactions m)))
           (mp_orphan_admission_height m) 0
     in (state\<lparr>cs_mempool := m\<lparr>mp_admission_height := live, mp_orphan_admission_height := orphan\<rparr>\<rparr>, n, k))"

definition limit_live :: "crypto \<Rightarrow> json \<Rightarrow> ChainState \<Rightarrow> ChainState \<times> Hash list \<times> Hash list" where
  "limit_live C J state =
    (let (state, expiry) = prune_expired_mempool state (mempool_logical_clock state) (rs_live_max_age_blocks resource_default);
         (state, removed_oversized) = remove_live_package state (oversized_roots C J state);
         state = (if removed_oversized \<noteq> [] then count_evicted (length removed_oversized) state else state);
         (state, removed) = evict_loop (rebuild_spent_outpoints state) (er_expired_txids expiry @ removed_oversized)
     in (state, er_expired_txids expiry, removed))"

definition limit_orphans :: "crypto \<Rightarrow> json \<Rightarrow> string \<Rightarrow> u64 \<Rightarrow> Mempool \<Rightarrow> Mempool \<times> Hash list \<times> Hash list" where
  "limit_orphans C J chain_id current_height m =
    (let orphans = sort (map fst (mp_orphan_transactions m));
         expired_orphans = filter (orphan_expired current_height m) orphans;
         oversized = filter (\<lambda>txid. \<not> orphan_expired current_height m txid
           \<and> does_not_fit C J chain_id (mp_orphan_transactions m) txid) orphans;
         (m, expired) = remove_orphans expired_orphans m;
         (m, invalid) = remove_orphans oversized m;
         overflow = length (mp_orphan_transactions m) - mp_max_orphans m;
         (m, victims) = remove_orphans (take overflow (deterministic_orphan_victims m)) m
     in (m, expired, expired @ invalid @ victims))"

definition normalize_production_mempool_resources_v1 ::
  "crypto \<Rightarrow> json \<Rightarrow> ChainState \<Rightarrow> ChainState \<times> MempoolResourceNormalizationV1" where
  "normalize_production_mempool_resources_v1 C J state =
    (let (state, seeded_live, seeded_orphan) = seed_admission_heights state;
         (state, expired_live, removed_live) = limit_live C J state;
         (m, expired_orphan, removed_orphan) =
           limit_orphans C J (cs_chain_id state) (mempool_logical_clock state) (cs_mempool state)
     in (state\<lparr>cs_mempool := retain_metadata m\<rparr>,
         \<lparr>no_seeded_live_admission_heights = seeded_live, no_seeded_orphan_admission_heights = seeded_orphan,
          no_expired_live_txids = sort_dedup expired_live, no_expired_orphan_txids = sort_dedup expired_orphan,
          no_removed_live_txids = sort_dedup removed_live, no_removed_orphan_txids = sort_dedup removed_orphan\<rparr>))"

definition production_mempool_resource_invariants_v1 :: "crypto \<Rightarrow> json \<Rightarrow> ChainState \<Rightarrow> bool" where
  "production_mempool_resource_invariants_v1 C J state \<longleftrightarrow>
    (let m = cs_mempool state; policy = resource_default;
         live = contains_key (mp_transactions m); orphan = contains_key (mp_orphan_transactions m)
     in mp_max_transactions m = unat (rs_max_transactions policy)
      \<and> mp_max_spent_outpoints m = unat (rs_max_spent_outpoints policy)
      \<and> mp_max_orphans m = unat (rs_max_orphans policy)
      \<and> length (mp_transactions m) \<le> unat (rs_max_transactions policy)
      \<and> length (mp_spent_outpoints m) \<le> unat (rs_max_spent_outpoints policy)
      \<and> length (mp_orphan_transactions m) \<le> unat (rs_max_orphans policy)
      \<and> list_all (\<lambda>tx. transaction_fits_production_resource_v1 C J tx (cs_chain_id state) policy)
          (map snd (mp_transactions m))
      \<and> list_all live (map fst (mp_first_seen m)) \<and> list_all live (map fst (mp_admission_height m))
      \<and> list_all orphan (map fst (mp_orphan_missing_outpoints m))
      \<and> list_all orphan (map fst (mp_orphan_received_order m))
      \<and> list_all orphan (map fst (mp_orphan_admission_height m)))"

section \<open>Packages\<close>

lemma live_children_eq: "live_children s = mempool_children s"
  by (simp add: live_children_def mempool_children_def)

lemma package_loop_sound:
  "set r \<union> set p \<subseteq> E\<^sup>* `` roots \<Longrightarrow> \<forall>a. set (kids children a) = E `` {a} \<Longrightarrow>
   set r \<union> set p \<subseteq> set (package_loop children r p) \<and> set (package_loop children r p) \<subseteq> E\<^sup>* `` roots"
proof (induction children r p rule: package_loop.induct)
  case (2 children removal txid pending)
  show ?case
  proof (cases "txid \<in> set removal")
    case True
    then show ?thesis using "2.IH"(1) [OF True] "2.prems" by auto
  next
    case False
    have "txid \<in> E\<^sup>* `` roots" using "2.prems"(1) by auto
    then have "E `` {txid} \<subseteq> E\<^sup>* `` roots" by (auto intro: rtrancl_into_rtrancl)
    then show ?thesis using "2.IH"(2) [OF False] "2.prems" False by (auto simp: set_insort_insert)
  qed
qed simp

lemma package_loop_closed:
  "\<forall>a. set (kids children a) = E `` {a} \<Longrightarrow> E `` set r \<subseteq> set r \<union> set p \<Longrightarrow>
   E `` set (package_loop children r p) \<subseteq> set (package_loop children r p)"
proof (induction children r p rule: package_loop.induct)
  case (2 children removal txid pending)
  show ?case
  proof (cases "txid \<in> set removal")
    case True
    then show ?thesis using "2.IH"(1) [OF True] "2.prems" by auto
  next
    case False
    have "E `` set (insort_insert txid removal) \<subseteq> set (insort_insert txid removal) \<union> set (pending @ kids children txid)"
      using "2.prems" by (auto simp: set_insort_insert)
    then show ?thesis using "2.IH"(2) [OF False] "2.prems"(1) False by simp
  qed
qed simp

lemma package_from_roots_exact:
  "set (package_from_roots s roots) = descendants (mp_transactions (cs_mempool s)) (set roots)"
proof
  let ?E = "child_of (mp_transactions (cs_mempool s))"
  let ?X = "set (package_from_roots s roots)"
  have k: "\<forall>a. set (kids (live_children s) a) = ?E `` {a}" by (simp add: live_children_eq kids_mempool_children)
  have sound: "set roots \<subseteq> ?X" "?X \<subseteq> ?E\<^sup>* `` set roots"
    using package_loop_sound [of "[]" roots ?E "set roots" "live_children s"] k by (auto simp: package_from_roots_def)
  then show "?X \<subseteq> descendants (mp_transactions (cs_mempool s)) (set roots)" by (simp add: descendants_def)
  have "?E `` ?X \<subseteq> ?X" using package_loop_closed [OF k, of "[]" roots] by (simp add: package_from_roots_def)
  then have "?E\<^sup>* `` ?X \<subseteq> ?X" by (rule Image_closed_trancl [THEN equalityD1])
  with sound(1) show "descendants (mp_transactions (cs_mempool s)) (set roots) \<subseteq> ?X"
    unfolding descendants_def by blast
qed

text \<open>Removing a set of transactions that contains the children of its members.\<close>

definition without :: "Hash set \<Rightarrow> (Hash \<times> 'v) list \<Rightarrow> (Hash \<times> 'v) list" where
  "without X txs = filter (\<lambda>(k, _). k \<notin> X) txs"

definition closed_removal :: "(Hash \<times> Transaction) list \<Rightarrow> (Hash \<times> Transaction) list \<Rightarrow> bool" where
  "closed_removal txs txs' \<longleftrightarrow> (\<exists>X. txs' = without X txs \<and> child_of txs `` X \<subseteq> X)"

lemma delete_without: "AList.delete k m = without {k} m"
  by (auto simp: without_def AList.delete_eq intro: filter_cong)

lemma without_without: "without X (without Y m) = without (X \<union> Y) m"
  by (auto simp: without_def intro: filter_cong)

lemma fold_delete_without: "fold AList.delete ks m = without (set ks) m"
proof (induction ks arbitrary: m)
  case Nil
  then show ?case by (simp add: without_def)
next
  case (Cons k ks)
  then show ?case by (simp add: delete_without without_without)
qed

lemma set_without: "set (without X m) = {(k, v) \<in> set m. k \<notin> X}"
  by (auto simp: without_def)

lemma keys_without: "fst ` set (without X m) = fst ` set m - X"
  by (force simp: set_without)

lemma keyed_without: "keyed txs \<Longrightarrow> keyed (without X txs)"
  by (auto simp: keyed_def without_def distinct_map_filter)

lemma contains_key_iff: "contains_key m k \<longleftrightarrow> k \<in> fst ` set m"
  by (simp add: map_of_eq_None_iff)

lemma descendants_closed: "child_of txs `` descendants txs R \<subseteq> descendants txs R"
  unfolding descendants_def by (auto intro: rtrancl_into_rtrancl)

lemma descendants_roots: "R \<subseteq> descendants txs R"
  by (auto simp: descendants_def)

lemma closed_removal_refl: "closed_removal txs txs"
  unfolding closed_removal_def by (rule exI [of _ "{}"]) (simp add: without_def)

lemma closed_removal_descendants: "closed_removal txs (without (descendants txs R) txs)"
  unfolding closed_removal_def using descendants_closed by blast

lemma closed_removal_trans:
  assumes "closed_removal t1 t2" "closed_removal t2 t3" "keyed t1"
  shows "closed_removal t1 t3"
proof -
  obtain X Y where X: "t2 = without X t1" "child_of t1 `` X \<subseteq> X" and Y: "t3 = without Y t2" "child_of t2 `` Y \<subseteq> Y"
    using assms(1,2) by (auto simp: closed_removal_def)
  have "child_of t1 `` (Y \<union> X) \<subseteq> Y \<union> X"
  proof (intro subsetI, elim ImageE)
    fix b a
    assume ab: "(a, b) \<in> child_of t1" and a: "a \<in> Y \<union> X"
    then obtain k tx where tx: "(k, tx) \<in> set t1" "b = tx_txid tx" "contains_key t1 a"
      "a \<in> (\<lambda>i. op_txid (in_previous_output i)) ` set (tx_inputs tx)"
      by (auto simp: child_of_def)
    have k: "k = b" using tx(1,2) assms(3) by (auto simp: keyed_def)
    show "b \<in> Y \<union> X"
    proof (cases "a \<in> X \<or> b \<in> X")
      case True
      with ab X(2) show ?thesis by blast
    next
      case False
      then have "tx \<in> snd ` set t2" using tx(1) k by (force simp: X(1) set_without)
      moreover have "contains_key t2 a" using tx(3) False unfolding contains_key_iff X(1) keys_without by blast
      ultimately have "(a, b) \<in> child_of t2" using tx(2,4) by (auto simp: child_of_def)
      with a False Y(2) show ?thesis by blast
    qed
  qed
  moreover have "t3 = without (Y \<union> X) t1" by (simp add: X(1) Y(1) without_without)
  ultimately show ?thesis unfolding closed_removal_def by blast
qed

lemma closed_removal_keyed: "closed_removal t t' \<Longrightarrow> keyed t \<Longrightarrow> keyed t'"
  by (auto simp: closed_removal_def keyed_without)

lemma closed_removal_subset: "closed_removal t t' \<Longrightarrow> set t' \<subseteq> set t"
  by (auto simp: closed_removal_def set_without)

lemma closed_removal_children:
  assumes "closed_removal t t'" "(a, b) \<in> child_of t" "a \<notin> fst ` set t'"
  shows "b \<notin> fst ` set t'"
proof -
  obtain X where X: "t' = without X t" "child_of t `` X \<subseteq> X" using assms(1) by (auto simp: closed_removal_def)
  have "contains_key t a" using assms(2) by (auto simp: child_of_def)
  then have "a \<in> fst ` set t" unfolding contains_key_iff .
  with assms(3) have "a \<in> X" unfolding X(1) keys_without by blast
  with X(2) assms(2) have "b \<in> X" by blast
  then show ?thesis unfolding X(1) keys_without by blast
qed

lemma child_in_keys: "keyed txs \<Longrightarrow> (a, b) \<in> child_of txs \<Longrightarrow> b \<in> fst ` set txs"
  by (force simp: child_of_def keyed_def)

lemma descendants_in_keys:
  assumes "keyed txs" "R \<subseteq> fst ` set txs"
  shows "descendants txs R \<subseteq> fst ` set txs"
proof -
  have "(a, b) \<in> (child_of txs)\<^sup>* \<Longrightarrow> a \<in> R \<Longrightarrow> b \<in> fst ` set txs" for a b
    by (induction rule: rtrancl_induct) (use assms child_in_keys in auto)
  then show ?thesis by (auto simp: descendants_def)
qed

section \<open>The steps of the normalisation\<close>

lemma all_inputs_set: "set (all_inputs txs) = (\<Union>(_, tx) \<in> set txs. in_previous_output ` set (tx_inputs tx))"
  and all_inputs_distinct: "distinct (all_inputs txs)"
proof -
  have inner: "set (fold (\<lambda>i. List.insert (in_previous_output i)) xs acc) = in_previous_output ` set xs \<union> set acc
      \<and> (distinct acc \<longrightarrow> distinct (fold (\<lambda>i. List.insert (in_previous_output i)) xs acc))" for xs acc
    by (induction xs arbitrary: acc) auto
  have "set (fold (\<lambda>(_, tx) spent. fold (\<lambda>i. List.insert (in_previous_output i)) (tx_inputs tx) spent) txs acc)
      = (\<Union>(_, tx) \<in> set txs. in_previous_output ` set (tx_inputs tx)) \<union> set acc
      \<and> (distinct acc \<longrightarrow> distinct (fold (\<lambda>(_, tx) spent. fold (\<lambda>i. List.insert (in_previous_output i)) (tx_inputs tx) spent) txs acc))"
    for txs :: "(Hash \<times> Transaction) list" and acc
  proof (induction txs arbitrary: acc)
    case (Cons p txs)
    obtain k tx where "p = (k, tx)" by force
    with Cons.IH [of "fold (\<lambda>i. List.insert (in_previous_output i)) (tx_inputs tx) acc"] inner [of "tx_inputs tx" acc]
    show ?case by auto
  qed simp
  then show "set (all_inputs txs) = (\<Union>(_, tx) \<in> set txs. in_previous_output ` set (tx_inputs tx))" "distinct (all_inputs txs)"
    by (simp_all add: all_inputs_def)
qed

lemma remove_txids_exact:
  "mp_transactions (fst (remove_txids package m)) = without (set package) (mp_transactions m)"
  "set (snd (remove_txids package m)) = set package \<inter> fst ` set (mp_transactions m)"
  "\<exists>fs ah. fst (remove_txids package m) = m\<lparr>mp_transactions := without (set package) (mp_transactions m),
     mp_first_seen := fs, mp_admission_height := ah\<rparr>"
proof -
  have "mp_transactions (fst (remove_txids package m)) = without (set package) (mp_transactions m)
    \<and> set (snd (remove_txids package m)) = set package \<inter> fst ` set (mp_transactions m)
    \<and> (\<exists>fs ah. fst (remove_txids package m) = m\<lparr>mp_transactions := without (set package) (mp_transactions m),
       mp_first_seen := fs, mp_admission_height := ah\<rparr>)"
  proof (induction package m rule: remove_txids.induct)
    case (1 m)
    have "m = m\<lparr>mp_first_seen := mp_first_seen m, mp_admission_height := mp_admission_height m\<rparr>" by simp
    then have "\<exists>fs ah. m = m\<lparr>mp_first_seen := fs, mp_admission_height := ah\<rparr>" by blast
    then show ?case by (simp add: without_def)
  next
    case (2 txid package m)
    show ?case
    proof (cases "contains_key (mp_transactions m) txid")
      case True
      have w: "without (set package) (AList.delete txid (mp_transactions m)) = without (set (txid # package)) (mp_transactions m)"
        by (simp add: delete_without without_without)
      have k: "fst ` set (AList.delete txid (mp_transactions m)) = fst ` set (mp_transactions m) - {txid}"
        by (simp add: delete_without keys_without)
      have "txid \<in> fst ` set (mp_transactions m)" using True unfolding contains_key_iff .
      then have ins: "insert txid (set package \<inter> (fst ` set (mp_transactions m) - {txid})) =
          set (txid # package) \<inter> fst ` set (mp_transactions m)" by auto
      define m1 where "m1 = m\<lparr>mp_transactions := AList.delete txid (mp_transactions m),
        mp_first_seen := AList.delete txid (mp_first_seen m),
        mp_admission_height := AList.delete txid (mp_admission_height m)\<rparr>"
      have rec: "remove_txids (txid # package) m = (fst (remove_txids package m1), txid # snd (remove_txids package m1))"
        using True by (simp add: m1_def case_prod_beta Let_def)
      have t: "mp_transactions m1 = AList.delete txid (mp_transactions m)" by (simp add: m1_def)
      note IH = "2.IH"(1) [OF True, folded m1_def, unfolded t w k]
      obtain fs ah where "fst (remove_txids package m1) = m1\<lparr>mp_transactions := without (set (txid # package)) (mp_transactions m),
          mp_first_seen := fs, mp_admission_height := ah\<rparr>" using IH by blast
      then have "fst (remove_txids package m1) = m\<lparr>mp_transactions := without (set (txid # package)) (mp_transactions m),
          mp_first_seen := fs, mp_admission_height := ah\<rparr>" by (simp add: m1_def)
      then have ex: "\<exists>fs ah. fst (remove_txids package m1) = m\<lparr>mp_transactions := without (set (txid # package)) (mp_transactions m),
          mp_first_seen := fs, mp_admission_height := ah\<rparr>" by blast
      show ?thesis unfolding rec fst_conv snd_conv
      proof (intro conjI ex)
        show "mp_transactions (fst (remove_txids package m1)) = without (set (txid # package)) (mp_transactions m)"
          using IH by blast
        show "set (txid # snd (remove_txids package m1)) = set (txid # package) \<inter> fst ` set (mp_transactions m)"
          using IH ins by simp
      qed
    next
      case False
      then have "txid \<notin> fst ` set (mp_transactions m)" unfolding contains_key_iff .
      then have "(txid, v) \<notin> set (mp_transactions m)" for v by force
      then have "without (set (txid # package)) (mp_transactions m) = without (set package) (mp_transactions m)"
        unfolding without_def by (intro filter_cong) auto
      then show ?thesis using False "2.IH"(2) [OF False] \<open>txid \<notin> fst ` set (mp_transactions m)\<close> by simp
    qed
  qed
  then show "mp_transactions (fst (remove_txids package m)) = without (set package) (mp_transactions m)"
    "set (snd (remove_txids package m)) = set package \<inter> fst ` set (mp_transactions m)"
    "\<exists>fs ah. fst (remove_txids package m) = m\<lparr>mp_transactions := without (set package) (mp_transactions m),
     mp_first_seen := fs, mp_admission_height := ah\<rparr>" by auto
qed

text \<open>What every live step keeps: only the live part of the mempool and its counters change.\<close>

definition live_step :: "ChainState \<Rightarrow> ChainState \<Rightarrow> bool" where
  "live_step s s' \<longleftrightarrow> s' = s\<lparr>cs_mempool := cs_mempool s'\<rparr>
    \<and> mp_orphan_transactions (cs_mempool s') = mp_orphan_transactions (cs_mempool s)
    \<and> mp_max_transactions (cs_mempool s') = mp_max_transactions (cs_mempool s)
    \<and> mp_max_spent_outpoints (cs_mempool s') = mp_max_spent_outpoints (cs_mempool s)
    \<and> mp_max_orphans (cs_mempool s') = mp_max_orphans (cs_mempool s)
    \<and> closed_removal (mp_transactions (cs_mempool s)) (mp_transactions (cs_mempool s'))"

definition txids :: "ChainState \<Rightarrow> Hash set" where
  "txids s = fst ` set (mp_transactions (cs_mempool s))"

lemma live_step_trans:
  assumes "live_step s s'" "live_step s' s''" "keyed (mp_transactions (cs_mempool s))"
  shows "live_step s s''"
proof -
  have "closed_removal (mp_transactions (cs_mempool s)) (mp_transactions (cs_mempool s''))"
    using assms closed_removal_trans unfolding live_step_def by blast
  moreover have "s'' = s\<lparr>cs_mempool := cs_mempool s''\<rparr>"
    using assms(1,2) unfolding live_step_def by (metis ChainState.update_convs(4) ChainState.surjective)
  ultimately show ?thesis using assms(1,2) by (simp add: live_step_def)
qed

lemma live_step_keyed: "live_step s s' \<Longrightarrow> keyed (mp_transactions (cs_mempool s)) \<Longrightarrow> keyed (mp_transactions (cs_mempool s'))"
  by (auto simp: live_step_def intro: closed_removal_keyed)

lemma live_step_txids: "live_step s s' \<Longrightarrow> txids s' \<subseteq> txids s"
  by (auto simp: live_step_def txids_def dest!: closed_removal_subset)

lemma live_step_refl: "live_step s s"
  by (simp add: live_step_def closed_removal_refl)

lemma remove_live_package_step:
  assumes "remove_live_package s roots = (s', removed)"
  shows "live_step s s'"
    "mp_transactions (cs_mempool s') = without (descendants (mp_transactions (cs_mempool s)) (set roots)) (mp_transactions (cs_mempool s))"
    "set removed = descendants (mp_transactions (cs_mempool s)) (set roots) \<inter> txids s"
    "txids s' = txids s - set removed"
    "removed \<noteq> [] \<Longrightarrow> mp_spent_outpoints (cs_mempool s') = all_inputs (mp_transactions (cs_mempool s'))"
    "removed = [] \<Longrightarrow> mp_spent_outpoints (cs_mempool s') = mp_spent_outpoints (cs_mempool s)"
proof -
  let ?D = "descendants (mp_transactions (cs_mempool s)) (set roots)"
  obtain m where m: "remove_txids (package_from_roots s roots) (cs_mempool s) = (m, removed)"
    and s': "s' = (if removed \<noteq> [] then rebuild_spent_outpoints (s\<lparr>cs_mempool := m\<rparr>) else s\<lparr>cs_mempool := m\<rparr>)"
    using assms by (auto simp: remove_live_package_def Let_def split: prod.splits)
  note ex = remove_txids_exact [of "package_from_roots s roots" "cs_mempool s", unfolded package_from_roots_exact m fst_conv snd_conv]
  obtain fs ah where upd: "m = (cs_mempool s)\<lparr>mp_transactions := without ?D (mp_transactions (cs_mempool s)),
      mp_first_seen := fs, mp_admission_height := ah\<rparr>" using ex(3) by blast
  show txs: "mp_transactions (cs_mempool s') = without ?D (mp_transactions (cs_mempool s))"
    by (simp add: s' rebuild_spent_outpoints_def ex(1))
  then show "live_step s s'"
    using closed_removal_descendants by (simp add: live_step_def s' rebuild_spent_outpoints_def upd)
  show rem: "set removed = ?D \<inter> txids s" using ex(2) by (simp add: txids_def)
  show "txids s' = txids s - set removed" unfolding rem unfolding txids_def txs keys_without by blast
  show "removed \<noteq> [] \<Longrightarrow> mp_spent_outpoints (cs_mempool s') = all_inputs (mp_transactions (cs_mempool s'))"
    by (simp add: s' rebuild_spent_outpoints_def)
  show "removed = [] \<Longrightarrow> mp_spent_outpoints (cs_mempool s') = mp_spent_outpoints (cs_mempool s)"
    by (simp add: s' upd)
qed

lemma prune_expired_step:
  assumes "prune_expired_mempool s h age = (s', r)" "keyed (mp_transactions (cs_mempool s))"
  shows "live_step s s'" "set (er_expired_txids r) = txids s - txids s'"
    "mp_spent_outpoints (cs_mempool s') = all_inputs (mp_transactions (cs_mempool s'))"
    "\<And>txid. txid \<in> txids s' \<Longrightarrow> \<not> mempool_tx_is_expired txid s h age"
proof -
  define roots where "roots = fold insort_insert (filter (\<lambda>txid. mempool_tx_is_expired txid s h age)
    (map fst (mp_transactions (cs_mempool s)))) []"
  let ?D = "descendants (mp_transactions (cs_mempool s)) (set roots)"
  define expired where "expired = expire_loop (mempool_children s) roots roots"
  have D: "set expired = ?D" by (simp add: expired_def expire_loop_exact)
  have roots: "set roots = {txid \<in> txids s. mempool_tx_is_expired txid s h age}"
    by (auto simp: roots_def set_fold_insort_insert txids_def)
  have r: "er_expired_txids r = expired"
    and s': "\<exists>fs ah. s' = s\<lparr>cs_mempool := (cs_mempool s)\<lparr>mp_transactions := fold AList.delete expired (mp_transactions (cs_mempool s)),
      mp_first_seen := fs, mp_admission_height := ah,
      mp_spent_outpoints := all_inputs (fold AList.delete expired (mp_transactions (cs_mempool s)))\<rparr>\<rparr>"
    using assms(1) unfolding prune_expired_mempool_def Let_def roots_def [symmetric] expired_def [symmetric] by auto
  then have txs: "mp_transactions (cs_mempool s') = without ?D (mp_transactions (cs_mempool s))"
    by (auto simp: fold_delete_without D)
  show "live_step s s'"
    using s' txs closed_removal_descendants by (auto simp: live_step_def)
  show "mp_spent_outpoints (cs_mempool s') = all_inputs (mp_transactions (cs_mempool s'))"
    using s' by auto
  have "?D \<subseteq> txids s" using descendants_in_keys [OF assms(2)] roots by (auto simp: txids_def)
  then show "set (er_expired_txids r) = txids s - txids s'"
    unfolding r D unfolding txids_def txs keys_without by blast
  fix txid
  assume "txid \<in> txids s'"
  then have "txid \<in> txids s" "txid \<notin> ?D" by (auto simp: txids_def txs keys_without)
  with descendants_roots [of "set roots"] roots show "\<not> mempool_tx_is_expired txid s h age" by blast
qed

lemma count_evicted_step:
  "live_step s (count_evicted n s)" "txids (count_evicted n s) = txids s"
  "mp_transactions (cs_mempool (count_evicted n s)) = mp_transactions (cs_mempool s)"
  "mp_spent_outpoints (cs_mempool (count_evicted n s)) = mp_spent_outpoints (cs_mempool s)"
  by (simp_all add: count_evicted_def live_step_def closed_removal_refl txids_def)

lemma rebuild_step:
  "live_step s (rebuild_spent_outpoints s)" "txids (rebuild_spent_outpoints s) = txids s"
  "mp_transactions (cs_mempool (rebuild_spent_outpoints s)) = mp_transactions (cs_mempool s)"
  "mp_spent_outpoints (cs_mempool (rebuild_spent_outpoints s)) = all_inputs (mp_transactions (cs_mempool s))"
  by (simp_all add: rebuild_spent_outpoints_def live_step_def closed_removal_refl txids_def)

lemma fold_best:
  "fold (\<lambda>tx best. case best of None \<Rightarrow> Some tx | Some b \<Rightarrow> if victim_before tx b then Some tx else Some b) txs best = None
     \<longleftrightarrow> txs = [] \<and> best = None"
  "fold (\<lambda>tx best. case best of None \<Rightarrow> Some tx | Some b \<Rightarrow> if victim_before tx b then Some tx else Some b) txs best = Some v
     \<Longrightarrow> v \<in> set txs \<or> best = Some v"
  by (induction txs arbitrary: best) (auto split: option.splits if_splits)

lemma victim_live:
  assumes "keyed (mp_transactions (cs_mempool s))" "mp_transactions (cs_mempool s) \<noteq> []"
  obtains v where "lowest_live_resource_victim s = Some v" "v \<in> txids s"
proof -
  obtain tx where f: "fold (\<lambda>tx best. case best of None \<Rightarrow> Some tx | Some b \<Rightarrow> if victim_before tx b then Some tx else Some b)
      (map snd (mp_transactions (cs_mempool s))) None = Some tx"
    using fold_best(1) [of "map snd (mp_transactions (cs_mempool s))" None] assms(2) by auto
  then have "tx \<in> snd ` set (mp_transactions (cs_mempool s))" using fold_best(2) [OF f] by simp
  then have "tx_txid tx \<in> txids s" using assms(1) by (force simp: keyed_def txids_def)
  with f show thesis by (intro that) (simp_all add: lowest_live_resource_victim_def)
qed

lemma evict_loop_step:
  assumes "evict_loop s rem = (s', rem')" "keyed (mp_transactions (cs_mempool s))"
    "mp_spent_outpoints (cs_mempool s) = all_inputs (mp_transactions (cs_mempool s))"
  shows "live_step s s' \<and> \<not> over_caps (cs_mempool s') \<and> set rem' = set rem \<union> (txids s - txids s')
    \<and> mp_spent_outpoints (cs_mempool s') = all_inputs (mp_transactions (cs_mempool s'))"
  using assms
proof (induction s rem arbitrary: s' rem' rule: evict_loop.induct)
  case (1 s rem)
  show ?case
  proof (cases "over_caps (cs_mempool s)")
    case False
    with "1.prems" show ?thesis by (auto simp: evict_loop.simps [of s] live_step_refl)
  next
    case True
    have "mp_transactions (cs_mempool s) \<noteq> []"
      using True "1.prems"(3) by (auto simp: over_caps_def all_inputs_def)
    then obtain v where v: "lowest_live_resource_victim s = Some v" "v \<in> txids s"
      by (rule victim_live [OF "1.prems"(2)])
    obtain s1 rm where pkg: "remove_live_package s [v] = (s1, rm)" by (metis surj_pair)
    note P = remove_live_package_step [OF pkg]
    have "v \<in> set rm" using P(3) v(2) descendants_roots [of "set [v]"] by auto
    then have ne: "rm \<noteq> []" by auto
    let ?s2 = "count_evicted (length rm) s1"
    have rec: "evict_loop ?s2 (rem @ rm) = (s', rem')"
      using "1.prems"(1) True v(1) pkg ne by (simp add: evict_loop.simps [of s])
    have k1: "keyed (mp_transactions (cs_mempool s1))" by (rule live_step_keyed [OF P(1) "1.prems"(2)])
    have IH: "live_step ?s2 s' \<and> \<not> over_caps (cs_mempool s') \<and> set rem' = set (rem @ rm) \<union> (txids ?s2 - txids s')
        \<and> mp_spent_outpoints (cs_mempool s') = all_inputs (mp_transactions (cs_mempool s'))"
      by (rule "1.IH" [OF True v(1) pkg [symmetric] refl ne rec]) (simp_all add: count_evicted_step k1 P(5) [OF ne])
    have s2: "live_step s1 s'" using live_step_trans [OF count_evicted_step(1)] IH k1 by blast
    have "live_step s s'" by (rule live_step_trans [OF P(1) s2 "1.prems"(2)])
    moreover have "set rm \<union> (txids s1 - txids s') = txids s - txids s'"
      using P(3,4) live_step_txids [OF s2] by auto
    ultimately show ?thesis using IH by (auto simp: count_evicted_step)
  qed
qed

lemma limit_live_step:
  assumes "limit_live C J s = (s', expired, removed)" "keyed (mp_transactions (cs_mempool s))"
  shows "live_step s s' \<and> \<not> over_caps (cs_mempool s') \<and> set removed = txids s - txids s'
    \<and> mp_spent_outpoints (cs_mempool s') = all_inputs (mp_transactions (cs_mempool s'))
    \<and> (\<forall>(k, tx) \<in> set (mp_transactions (cs_mempool s')).
         transaction_fits_production_resource_v1 C J tx (cs_chain_id s) resource_default)"
proof -
  obtain s1 r where p: "prune_expired_mempool s (mempool_logical_clock s) (rs_live_max_age_blocks resource_default) = (s1, r)"
    by (metis surj_pair)
  obtain s2 over where o: "remove_live_package s1 (oversized_roots C J s1) = (s2, over)" by (metis surj_pair)
  define s3 where "s3 = rebuild_spent_outpoints (if over \<noteq> [] then count_evicted (length over) s2 else s2)"
  have e: "evict_loop s3 (er_expired_txids r @ over) = (s', removed)"
    using assms(1) by (auto simp: limit_live_def p o s3_def Let_def split: prod.splits if_splits)
  note P = prune_expired_step [OF p assms(2)]
  have k1: "keyed (mp_transactions (cs_mempool s1))" by (rule live_step_keyed [OF P(1) assms(2)])
  note O = remove_live_package_step [OF o]
  have k2: "keyed (mp_transactions (cs_mempool s2))" by (rule live_step_keyed [OF O(1) k1])
  have s3: "live_step s2 s3" "txids s3 = txids s2" "mp_transactions (cs_mempool s3) = mp_transactions (cs_mempool s2)"
    "mp_spent_outpoints (cs_mempool s3) = all_inputs (mp_transactions (cs_mempool s3))"
    using live_step_trans [OF count_evicted_step(1) rebuild_step(1)] k2
    by (auto simp: s3_def rebuild_step count_evicted_step)
  have E: "live_step s3 s' \<and> \<not> over_caps (cs_mempool s') \<and> set removed = set (er_expired_txids r @ over) \<union> (txids s3 - txids s')
      \<and> mp_spent_outpoints (cs_mempool s') = all_inputs (mp_transactions (cs_mempool s'))"
    by (rule evict_loop_step [OF e]) (simp_all add: s3 k2)
  have s23: "live_step s2 s'" by (rule live_step_trans [OF s3(1) _ k2]) (use E in blast)
  have "live_step s1 s'" by (rule live_step_trans [OF O(1) s23 k1])
  then have all: "live_step s s'" by (rule live_step_trans [OF P(1) _ assms(2)])
  have sets: "set removed = txids s - txids s'"
    using E P(2) O(3,4) s3(2) live_step_txids [OF s23] live_step_txids [OF P(1)] live_step_txids [OF O(1)] by auto
  have chain: "cs_chain_id s1 = cs_chain_id s" using P(1) unfolding live_step_def by (metis ChainState.select_convs(1) ChainState.surjective ChainState.update_convs(4))
  have fits: "transaction_fits_production_resource_v1 C J tx (cs_chain_id s) resource_default"
    if kt: "(k, tx) \<in> set (mp_transactions (cs_mempool s'))" for k tx
  proof (rule ccontr)
    assume bad: "\<not> transaction_fits_production_resource_v1 C J tx (cs_chain_id s) resource_default"
    have in2: "(k, tx) \<in> set (mp_transactions (cs_mempool s2))"
      using kt s23 closed_removal_subset unfolding live_step_def by blast
    then have in1: "(k, tx) \<in> set (mp_transactions (cs_mempool s1))" by (simp add: O(2) set_without)
    then have "lookup (mp_transactions (cs_mempool s1)) k = Some tx" using k1 by (simp add: keyed_def)
    then have "k \<in> set (oversized_roots C J s1)"
      using in1 bad chain by (force simp: oversized_roots_def does_not_fit_def)
    then have "k \<in> descendants (mp_transactions (cs_mempool s1)) (set (oversized_roots C J s1))"
      using descendants_roots by blast
    with in2 show False by (simp add: O(2) set_without)
  qed
  show ?thesis using all E sets fits by blast
qed

text \<open>The orphan steps leave the live part alone.\<close>

definition orphan_step :: "Mempool \<Rightarrow> Mempool \<Rightarrow> bool" where
  "orphan_step m m' \<longleftrightarrow> mp_transactions m' = mp_transactions m \<and> mp_spent_outpoints m' = mp_spent_outpoints m
    \<and> mp_max_transactions m' = mp_max_transactions m \<and> mp_max_spent_outpoints m' = mp_max_spent_outpoints m
    \<and> mp_max_orphans m' = mp_max_orphans m \<and> (\<exists>X. mp_orphan_transactions m' = without X (mp_orphan_transactions m))"

lemma orphan_step_trans: "orphan_step a b \<Longrightarrow> orphan_step b c \<Longrightarrow> orphan_step a c"
  by (auto simp: orphan_step_def without_without)

lemma remove_orphan_step:
  "orphan_step m (fst (remove_orphan txid m))"
  "mp_orphan_transactions (fst (remove_orphan txid m)) = without {txid} (mp_orphan_transactions m)"
  by (auto simp: remove_orphan_def orphan_step_def Let_def delete_without)

lemma remove_orphans_step:
  "orphan_step m (fst (remove_orphans xs m)) \<and>
   mp_orphan_transactions (fst (remove_orphans xs m)) = without (set xs) (mp_orphan_transactions m)"
proof (induction xs arbitrary: m)
  case Nil
  have "without {} (mp_orphan_transactions m) = mp_orphan_transactions m" by (simp add: without_def)
  then show ?case by (auto simp: orphan_step_def intro: exI [of _ "{}"])
next
  case (Cons x xs)
  have rec: "fst (remove_orphans (x # xs) m) = fst (remove_orphans xs (fst (remove_orphan x m)))"
    by (simp add: case_prod_beta Let_def)
  note IH = Cons.IH [of "fst (remove_orphan x m)"]
  have "orphan_step m (fst (remove_orphans (x # xs) m))"
    unfolding rec by (rule orphan_step_trans [OF remove_orphan_step(1)]) (rule IH [THEN conjunct1])
  moreover have "mp_orphan_transactions (fst (remove_orphans (x # xs) m)) = without (set (x # xs)) (mp_orphan_transactions m)"
    unfolding rec using IH by (simp add: remove_orphan_step(2) without_without)
  ultimately show ?case by blast
qed

lemma length_without:
  assumes "distinct (map fst m)" "distinct ks" "set ks \<subseteq> fst ` set m"
  shows "length (without (set ks) m) = length m - length ks"
proof -
  have "distinct (map fst (without (set ks) m))" using assms(1) by (simp add: without_def distinct_map_filter)
  then have "length (without (set ks) m) = card (fst ` set (without (set ks) m))"
    by (metis distinct_card length_map set_map)
  also have "\<dots> = card (fst ` set m) - card (set ks)"
    using assms(3) by (simp add: keys_without card_Diff_subset)
  also have "\<dots> = length m - length ks"
    using assms(1,2) by (metis distinct_card length_map set_map)
  finally show ?thesis .
qed

lemma mset_insert_candidate: "mset (insert_candidate c cs) = add_mset c (mset cs)"
  by (induction cs) auto

lemma mset_orphan_victims:
  "mset (deterministic_orphan_victims m) = mset (map tx_txid (map snd (mp_orphan_transactions m)))"
proof -
  have "mset (foldr insert_candidate cs []) = mset cs" for cs
    by (induction cs) (auto simp: mset_insert_candidate)
  then show ?thesis by (simp add: deterministic_orphan_victims_def image_mset.compositionality comp_def)
qed

lemma limit_orphans_step:
  assumes "limit_orphans C J chain h m = (m', expired, removed)" "keyed (mp_orphan_transactions m)"
  shows "orphan_step m m'" "length (mp_orphan_transactions m') \<le> mp_max_orphans m'"
proof -
  obtain m1 e1 where 1: "remove_orphans (filter (orphan_expired h m) (sort (map fst (mp_orphan_transactions m)))) m = (m1, e1)"
    by (metis surj_pair)
  obtain m2 e2 where 2: "remove_orphans (filter (\<lambda>txid. \<not> orphan_expired h m txid
      \<and> does_not_fit C J chain (mp_orphan_transactions m) txid) (sort (map fst (mp_orphan_transactions m)))) m1 = (m2, e2)"
    by (metis surj_pair)
  define n where "n = length (mp_orphan_transactions m2) - mp_max_orphans m2"
  define vs where "vs = take n (deterministic_orphan_victims m2)"
  have m': "m' = fst (remove_orphans vs m2)"
    using assms(1) by (auto simp: limit_orphans_def Let_def 1 2 n_def vs_def split: prod.splits)
  have s1: "orphan_step m m1" "orphan_step m1 m2" "orphan_step m2 m'"
    using remove_orphans_step [of m] remove_orphans_step [of m1] remove_orphans_step [of m2] 1 2 m' by (metis fst_conv)+
  then show "orphan_step m m'" using orphan_step_trans by blast
  have k2: "keyed (mp_orphan_transactions m2)"
    using s1(1,2) assms(2) by (auto simp: orphan_step_def keyed_without)
  have perm: "mset (deterministic_orphan_victims m2) = mset (map fst (mp_orphan_transactions m2))"
    by (simp only: mset_orphan_victims keyed_txids [OF k2])
  have d: "distinct (deterministic_orphan_victims m2)"
    using perm k2 mset_eq_imp_distinct_iff unfolding keyed_def by blast
  have len: "length (deterministic_orphan_victims m2) = length (mp_orphan_transactions m2)"
    using perm by (metis length_map size_mset)
  have sub: "set vs \<subseteq> fst ` set (mp_orphan_transactions m2)"
    using perm set_take_subset [of n "deterministic_orphan_victims m2"] unfolding vs_def by (metis list.set_map set_mset_mset)
  have "length (mp_orphan_transactions m') = length (mp_orphan_transactions m2) - length vs"
    using length_without [OF _ _ sub] k2 d remove_orphans_step [of m2 vs] by (simp add: m' keyed_def vs_def)
  moreover have "length vs = n" by (simp add: vs_def len n_def)
  moreover have "mp_max_orphans m' = mp_max_orphans m2" using s1(3) by (simp add: orphan_step_def)
  ultimately show "length (mp_orphan_transactions m') \<le> mp_max_orphans m'" by (simp add: n_def)
qed

lemma sort_dedup_sorted: "set (sort_dedup xs) = set xs" "sorted (sort_dedup xs)" "distinct (sort_dedup xs)"
proof -
  have "sorted (remdups_adj ys)" "distinct (remdups_adj ys)" if "sorted ys" for ys :: "Hash list"
    using that by (induction ys rule: remdups_adj.induct) (auto split: if_splits)
  then show "set (sort_dedup xs) = set xs" "sorted (sort_dedup xs)" "distinct (sort_dedup xs)"
    by (simp_all add: sort_dedup_def)
qed

section \<open>The normalisation establishes the resource invariant\<close>

text \<open>
  C8. Normalising the mempool of any state whose transaction and orphan maps are keyed by transaction id
  terminates and establishes the production resource invariant: the caps are the production ones and hold,
  every live transaction fits both size limits, and no metadata refers to a transaction that is gone.
  Live transactions are only ever dropped together with all their pending descendants, so no kept
  transaction spends an output of a dropped one; the report lists exactly the dropped ones, sorted and once
  each; the spent-outpoint index is exactly the inputs of the kept ones; nothing outside the mempool changes.
\<close>

theorem normalize_establishes_invariants:
  assumes run: "normalize_production_mempool_resources_v1 C J s = (s', out)"
    and live: "keyed (mp_transactions (cs_mempool s))" and orphans: "keyed (mp_orphan_transactions (cs_mempool s))"
  shows "production_mempool_resource_invariants_v1 C J s'
    \<and> keyed (mp_transactions (cs_mempool s')) \<and> set (mp_transactions (cs_mempool s')) \<subseteq> set (mp_transactions (cs_mempool s))
    \<and> keyed (mp_orphan_transactions (cs_mempool s'))
    \<and> set (mp_orphan_transactions (cs_mempool s')) \<subseteq> set (mp_orphan_transactions (cs_mempool s))
    \<and> (\<forall>(a, b) \<in> child_of (mp_transactions (cs_mempool s)). a \<notin> txids s' \<longrightarrow> b \<notin> txids s')
    \<and> set (no_removed_live_txids out) = txids s - txids s'
    \<and> sorted (no_removed_live_txids out) \<and> distinct (no_removed_live_txids out)
    \<and> set (mp_spent_outpoints (cs_mempool s')) = (\<Union>(_, tx) \<in> set (mp_transactions (cs_mempool s')). in_previous_output ` set (tx_inputs tx))
    \<and> distinct (mp_spent_outpoints (cs_mempool s')) \<and> s' = s\<lparr>cs_mempool := cs_mempool s'\<rparr>"
proof -
  obtain s1 a b where 1: "seed_admission_heights s = (s1, a, b)" by (metis prod_cases3)
  obtain s2 el rl where 2: "limit_live C J s1 = (s2, el, rl)" by (metis prod_cases3)
  obtain m eo ro where 3: "limit_orphans C J (cs_chain_id s2) (mempool_logical_clock s2) (cs_mempool s2) = (m, eo, ro)"
    by (metis prod_cases3)
  have s': "s' = s2\<lparr>cs_mempool := retain_metadata m\<rparr>" and out: "no_removed_live_txids out = sort_dedup rl"
    using run by (auto simp: normalize_production_mempool_resources_v1_def Let_def 1 2 3)
  have s1: "mp_transactions (cs_mempool s1) = mp_transactions (cs_mempool s)"
    "mp_orphan_transactions (cs_mempool s1) = mp_orphan_transactions (cs_mempool s)"
    "mp_max_transactions (cs_mempool s1) = unat (rs_max_transactions resource_default)"
    "mp_max_spent_outpoints (cs_mempool s1) = unat (rs_max_spent_outpoints resource_default)"
    "mp_max_orphans (cs_mempool s1) = unat (rs_max_orphans resource_default)"
    "s1 = s\<lparr>cs_mempool := cs_mempool s1\<rparr>" "cs_chain_id s1 = cs_chain_id s"
    using 1 by (auto simp: seed_admission_heights_def apply_production_mempool_resource_caps_v1_def Let_def split: prod.splits)
  have k1: "keyed (mp_transactions (cs_mempool s1))" using live s1(1) by simp
  note L = limit_live_step [OF 2 k1]
  have L1: "live_step s1 s2" and caps: "\<not> over_caps (cs_mempool s2)" using L by blast+
  have o2: "keyed (mp_orphan_transactions (cs_mempool s2))" using L1 orphans s1(2) by (simp add: live_step_def)
  note O = limit_orphans_step [OF 3 o2]
  have m: "mp_transactions m = mp_transactions (cs_mempool s2)" "mp_spent_outpoints m = mp_spent_outpoints (cs_mempool s2)"
    "mp_max_transactions m = mp_max_transactions (cs_mempool s2)" "mp_max_spent_outpoints m = mp_max_spent_outpoints (cs_mempool s2)"
    "mp_max_orphans m = mp_max_orphans (cs_mempool s2)"
    using O(1) by (simp_all add: orphan_step_def)
  obtain X where X: "mp_orphan_transactions m = without X (mp_orphan_transactions (cs_mempool s2))"
    using O(1) by (auto simp: orphan_step_def)
  have r: "mp_transactions (retain_metadata m) = mp_transactions m" "mp_spent_outpoints (retain_metadata m) = mp_spent_outpoints m"
    "mp_orphan_transactions (retain_metadata m) = mp_orphan_transactions m"
    "mp_max_transactions (retain_metadata m) = mp_max_transactions m"
    "mp_max_spent_outpoints (retain_metadata m) = mp_max_spent_outpoints m"
    "mp_max_orphans (retain_metadata m) = mp_max_orphans m"
    by (simp_all add: retain_metadata_def Let_def)
  have base: "s2 = s1\<lparr>cs_mempool := cs_mempool s2\<rparr>" using L1 by (simp add: live_step_def)
  have whole: "s' = s\<lparr>cs_mempool := cs_mempool s'\<rparr>" by (subst s', subst base, subst s1(6)) (simp add: s')
  then have chain: "cs_chain_id s' = cs_chain_id s1" using s1(7) by (metis ChainState.select_convs(1) ChainState.surjective ChainState.update_convs(4))
  have max: "mp_max_transactions (cs_mempool s2) = unat (rs_max_transactions resource_default)"
    "mp_max_spent_outpoints (cs_mempool s2) = unat (rs_max_spent_outpoints resource_default)"
    "mp_max_orphans (cs_mempool s2) = unat (rs_max_orphans resource_default)"
    using L1 s1(3-5) by (simp_all add: live_step_def)
  have fits: "list_all (\<lambda>tx. transaction_fits_production_resource_v1 C J tx (cs_chain_id s') resource_default)
      (map snd (mp_transactions (cs_mempool s')))"
  proof -
    have "mp_transactions (cs_mempool s') = mp_transactions (cs_mempool s2)" by (simp add: s' r m)
    then show ?thesis using L by (auto simp: list_all_iff chain)
  qed
  have retained: "list_all (contains_key (mp_transactions (cs_mempool s'))) (map fst (mp_first_seen (cs_mempool s')))"
    "list_all (contains_key (mp_transactions (cs_mempool s'))) (map fst (mp_admission_height (cs_mempool s')))"
    "list_all (contains_key (mp_orphan_transactions (cs_mempool s'))) (map fst (mp_orphan_missing_outpoints (cs_mempool s')))"
    "list_all (contains_key (mp_orphan_transactions (cs_mempool s'))) (map fst (mp_orphan_received_order (cs_mempool s')))"
    "list_all (contains_key (mp_orphan_transactions (cs_mempool s'))) (map fst (mp_orphan_admission_height (cs_mempool s')))"
    by (auto simp: s' retain_metadata_def Let_def retain_keys_def list_all_iff)
  have "production_mempool_resource_invariants_v1 C J s'"
    unfolding production_mempool_resource_invariants_v1_def Let_def
    using fits retained caps max O(2) by (simp add: s' r m over_caps_def)
  moreover have t: "txids s' = txids s2" "txids s = txids s1" by (simp_all add: txids_def s' r m s1(1))
  moreover have "keyed (mp_transactions (cs_mempool s'))" using live_step_keyed [OF L1 k1] by (simp add: s' r m)
  moreover have cr: "closed_removal (mp_transactions (cs_mempool s)) (mp_transactions (cs_mempool s'))"
    using L1 by (simp add: live_step_def s' r m s1(1))
  moreover have "keyed (mp_orphan_transactions (cs_mempool s'))" using keyed_without [OF o2] by (simp add: s' r X)
  moreover have "set (mp_orphan_transactions (cs_mempool s')) \<subseteq> set (mp_orphan_transactions (cs_mempool s))"
    using L1 s1(2) by (auto simp: s' r X set_without live_step_def)
  moreover have "\<forall>(a, b) \<in> child_of (mp_transactions (cs_mempool s)). a \<notin> txids s' \<longrightarrow> b \<notin> txids s'"
    using closed_removal_children [OF cr] unfolding txids_def by blast
  moreover have "set (no_removed_live_txids out) = txids s - txids s'"
    using L t by (simp add: out sort_dedup_sorted(1))
  moreover have "mp_spent_outpoints (cs_mempool s') = all_inputs (mp_transactions (cs_mempool s'))"
    using L by (simp add: s' r m)
  ultimately show ?thesis
    using whole closed_removal_subset [OF cr] by (simp add: all_inputs_set all_inputs_distinct out sort_dedup_sorted)
qed

text \<open>A full-size example: the parent of the sample package is too large, so the child goes with it.\<close>

definition sample_json :: json where
  "sample_json chain tx = (if tx_txid tx = ''A'' then Inl ''too deep'' else Inr [])"

theorem normalize_establishes_invariants_witness:
  "production_mempool_resource_invariants_v1 nonce_crypto sample_json
     (fst (normalize_production_mempool_resources_v1 nonce_crypto sample_json pending_state))"
proof -
  have "keyed (mp_transactions (cs_mempool pending_state))"
    by (simp add: keyed_def pending_state_def sample_parent_def sample_child_def)
  moreover have "keyed (mp_orphan_transactions (cs_mempool pending_state))"
    by (simp add: keyed_def pending_state_def blank_state_def default_mempool_def)
  ultimately show ?thesis
    using normalize_establishes_invariants [OF surjective_pairing, of pending_state nonce_crypto sample_json] by blast
qed

end
