(* ===== verification/Pulse_Chain.thy ===== *)
theory Pulse_Chain
  imports Pulse_Ordering Pulse_Retarget Pulse_Pow Pulse_MempoolResource
begin

text \<open>
  Blocks and the chain state: the genesis state (\<open>genesis.rs\<close>), candidate blocks (\<open>mining.rs\<close>), block
  validation (\<open>validation.rs\<close>) and the commit of a block to the state (\<open>apply.rs\<close>).  The clock, the
  configured future drift and the proof-of-work digest are arguments.
\<close>

section \<open>Operations\<close>

subsection \<open>Genesis\<close>

definition GENESIS_TREASURY :: string where "GENESIS_TREASURY = ''genesis-treasury''"
definition GENESIS_SUPPLY :: u64 where "GENESIS_SUPPLY = 1000000000"

definition genesis_transaction :: "crypto \<Rightarrow> PulseError + Transaction" where
  "genesis_transaction C =
    (let tx = \<lparr>tx_txid = [], tx_version = 1, tx_inputs = [],
           tx_outputs = [\<lparr>out_address = GENESIS_TREASURY, out_amount = GENESIS_SUPPLY\<rparr>], tx_fee = 0, tx_nonce = 0\<rparr>
     in rbind (ok_or length_panic (compute_txid C tx)) (\<lambda>txid. Inr (tx\<lparr>tx_txid := txid\<rparr>)))"

definition genesis_utxo :: "Transaction \<Rightarrow> UtxoState" where
  "genesis_utxo tx =
    (let outpoint = OutPoint (tx_txid tx) 0;
         utxo = \<lparr>u_outpoint = outpoint, u_address = GENESIS_TREASURY, u_amount = GENESIS_SUPPLY,
           u_coinbase = False, u_height = 0\<rparr>
     in \<lparr>us_utxos = [(outpoint, utxo)], us_address_index = [(GENESIS_TREASURY, [outpoint])]\<rparr>)"

definition genesis_block :: "crypto \<Rightarrow> PulseError + Block" where
  "genesis_block C =
    rbind (genesis_transaction C) (\<lambda>tx.
    rbind (map_err (\<lambda>_. Panic ''genesis UTXO state must be deterministic'')
      (compute_state_root C (genesis_utxo tx))) (\<lambda>state_root.
    let header = \<lparr>h_version = 1, h_parents = [], h_timestamp = 0, h_difficulty = CONSENSUS_POW_LIMIT_BITS,
          h_nonce = 0, h_merkle_root = compute_merkle_root C [tx], h_state_root = state_root,
          h_blue_score = 0, h_height = 0\<rparr>
    in rbind (ok_or length_panic (compute_block_hash C header)) (\<lambda>hash.
       Inr \<lparr>b_hash = hash, b_header = header, b_transactions = [tx]\<rparr>)))"

definition init_chain_state :: "crypto \<Rightarrow> string \<Rightarrow> PulseError + ChainState" where
  "init_chain_state C chain_id =
    rbind (genesis_block C) (\<lambda>genesis.
    rbind (genesis_transaction C) (\<lambda>tx.
    let g = b_hash genesis; selected_chain = [g] in
    Inr \<lparr>cs_chain_id = chain_id,
      cs_dag = \<lparr>dag_blocks = [(g, genesis)], dag_tips = [g], dag_children = [], dag_genesis_hash = g,
        dag_best_height = 0, dag_consensus_mode = Legacy, dag_selected_parents = [(g, None)],
        dag_selected_chain = selected_chain, dag_selected_parent_policy = LegacyTip,
        dag_merge_set_k = DEFAULT_MERGE_SET_K, dag_merge_set_blues = [], dag_merge_set_reds = [],
        dag_blue_work = [(g, 0)], dag_merge_set_diagnostics = [], dag_ordered_dag = selected_chain,
        dag_ordering_version = DAG_ORDERING_VERSION, dag_ordered_dag_rebuild_total = 0,
        dag_ordered_dag_rebuild_failed_total = 0, dag_ordered_dag_state_root = None,
        dag_ordered_dag_tip = last_of selected_chain, dag_ordered_dag_conflict_diagnostics = []\<rparr>,
      cs_utxo = genesis_utxo tx,
      cs_mempool = default_mempool,
      cs_contracts = \<lparr>cr_config = \<lparr>cc_enabled = False, cc_vm_version = ''reserved-v1'',
          cc_max_gas_per_tx = 10000000, cc_max_contract_size_bytes = 64 * 1024, cc_max_storage_key_bytes = 128,
          cc_max_storage_value_bytes = 64 * 1024\<rparr>,
        cr_contract_count = 0, cr_storage_slots = 0, cr_receipt_count = 0, cr_last_receipt_id = None\<rparr>,
      cs_orphan_blocks = [], cs_orphan_missing_parents = [], cs_orphan_parent_index = [],
      cs_orphan_received_at_ms = [], cs_terminal_missing_parents = [], cs_chain_state_generation = 0,
      cs_accepted_commit_generation_conflict_total = 0, cs_accepted_commit_reprepare_total = 0,
      cs_accepted_commit_serialized_total = 0, cs_accepted_commit_publish_mismatch_total = 0,
      cs_accepted_commit_last_hash = None, cs_accepted_commit_last_source = None,
      cs_chain_state_mutation_generation = 0, cs_chain_state_mutation_source = None,
      cs_chain_state_mutation_conflict_total = 0, cs_chain_state_reprepare_total = 0,
      cs_accepted_hash_lost_from_memory_total = 0, cs_accepted_hash_terminalization_prevented_total = 0,
      cs_accepted_storage_repair_total = 0, cs_last_lost_accepted_hash = None,
      cs_last_lost_accepted_height = None\<rparr>))"

subsection \<open>Candidate blocks\<close>

definition build_coinbase_transaction :: "crypto \<Rightarrow> string \<Rightarrow> u64 \<Rightarrow> u64 \<Rightarrow> PulseError + Transaction" where
  "build_coinbase_transaction C miner_address reward nonce =
    (let tx = \<lparr>tx_txid = [], tx_version = 1, tx_inputs = [],
           tx_outputs = [\<lparr>out_address = miner_address, out_amount = reward\<rparr>], tx_fee = 0, tx_nonce = nonce\<rparr>
     in rbind (ok_or length_panic (compute_txid C tx)) (\<lambda>txid. Inr (tx\<lparr>tx_txid := txid\<rparr>)))"

definition build_candidate_block ::
  "crypto \<Rightarrow> u64 \<Rightarrow> Hash list \<Rightarrow> u64 \<Rightarrow> u32 \<Rightarrow> Transaction list \<Rightarrow> PulseError + Block" where
  "build_candidate_block C now parents height difficulty txs =
    (let header = \<lparr>h_version = 1, h_parents = parents, h_timestamp = now, h_difficulty = difficulty,
           h_nonce = 0, h_merkle_root = compute_merkle_root C txs, h_state_root = ''state-'' @ format_nat (unat height),
           h_blue_score = height, h_height = height\<rparr>
     in rbind (ok_or length_panic (compute_block_hash C header)) (\<lambda>hash.
        Inr \<lparr>b_hash = hash, b_header = header, b_transactions = txs\<rparr>))"

definition refresh_block_consensus_ids :: "crypto \<Rightarrow> Block \<Rightarrow> PulseError + Block" where
  "refresh_block_consensus_ids C block =
    (let header = (b_header block)\<lparr>h_merkle_root := compute_merkle_root C (b_transactions block)\<rparr>
     in rbind (ok_or length_panic (compute_block_hash C header)) (\<lambda>hash.
        Inr (block\<lparr>b_header := header, b_hash := hash\<rparr>)))"

definition refresh_block_consensus_ids_with_state :: "crypto \<Rightarrow> Block \<Rightarrow> ChainState \<Rightarrow> PulseError + Block" where
  "refresh_block_consensus_ids_with_state C block state =
    (let block = block\<lparr>b_header := (b_header block)\<lparr>h_merkle_root := compute_merkle_root C (b_transactions block)\<rparr>\<rparr>
     in rbind (compute_post_state_root C block state) (\<lambda>state_root.
        let header = (b_header block)\<lparr>h_state_root := state_root\<rparr>
        in rbind (ok_or length_panic (compute_block_hash C header)) (\<lambda>hash.
           Inr (block\<lparr>b_header := header, b_hash := hash\<rparr>))))"

subsection \<open>Accepting a block into the DAG\<close>

definition max_known_parent :: "Block \<Rightarrow> ChainState \<Rightarrow> Hash option" where
  "max_known_parent block state =
    (case filter (contains_key (dag_blocks (cs_dag state))) (h_parents (b_header block)) of
       [] \<Rightarrow> None
     | parent # parents \<Rightarrow> Some (fold max parents parent))"

definition add_dag_child :: "Hash \<Rightarrow> Hash \<Rightarrow> (Hash \<times> Hash list) list \<Rightarrow> (Hash \<times> Hash list) list" where
  "add_dag_child hash parent children =
    AList.update parent
      (remdups_adj (sort ((case lookup children parent of None \<Rightarrow> [] | Some hashes \<Rightarrow> hashes) @ [hash]))) children"

definition accept_block_to_dag_metadata :: "Block \<Rightarrow> ChainState \<Rightarrow> ChainState" where
  "accept_block_to_dag_metadata block state =
    (let classification = classify_merge_set block state;
         committed = block\<lparr>b_header := (b_header block)\<lparr>h_blue_score := ms_blue_score classification\<rparr>\<rparr>;
         d = cs_dag state; hash = b_hash block; parents = h_parents (b_header block);
         selected_parent = (if ghostdag_metadata_active (dag_consensus_mode d)
           then ms_selected_parent classification else max_known_parent block state)
     in state\<lparr>cs_dag := d\<lparr>
          dag_tips := List.insert hash (fold removeAll parents (dag_tips d)),
          dag_children := fold (add_dag_child hash) parents (dag_children d),
          dag_best_height := max (dag_best_height d) (h_height (b_header block)),
          dag_selected_parents := AList.update hash selected_parent (dag_selected_parents d),
          dag_merge_set_blues := AList.update hash (ms_blues classification) (dag_merge_set_blues d),
          dag_merge_set_reds := AList.update hash (ms_reds classification) (dag_merge_set_reds d),
          dag_blue_work := AList.update hash (ms_blue_work classification) (dag_blue_work d),
          dag_merge_set_diagnostics := AList.update hash (ms_diagnostics classification) (dag_merge_set_diagnostics d),
          dag_blocks := AList.update hash committed (dag_blocks d)\<rparr>\<rparr>)"

subsection \<open>Validating a block\<close>

fun check_parents ::
  "(Hash \<times> Block) list \<Rightarrow> Hash list \<Rightarrow> Hash list \<Rightarrow> u64 \<Rightarrow> u64 \<Rightarrow> PulseError + (u64 \<times> u64)" where
  "check_parents blocks [] seen_parents expected_height newest_parent_timestamp =
    Inr (expected_height, newest_parent_timestamp)"
| "check_parents blocks (parent # parents) seen_parents expected_height newest_parent_timestamp =
    (if parent \<in> set seen_parents then Inl (InvalidBlock ''duplicate parent'')
     else
       rbind (ok_or (InvalidBlock (''missing parent '' @ parent)) (lookup blocks parent)) (\<lambda>parent_block.
       check_parents blocks parents (parent # seen_parents)
         (max expected_height (saturating_add (h_height (b_header parent_block)) 1))
         (max newest_parent_timestamp (h_timestamp (b_header parent_block)))))"

definition selected_parent_for_state_validation :: "Block \<Rightarrow> ChainState \<Rightarrow> Hash option" where
  "selected_parent_for_state_validation block state =
    (if ghostdag_metadata_active (dag_consensus_mode (cs_dag state)) then calculate_selected_parent block state
     else max_known_parent block state)"

definition first_parent_or_default :: "Block \<Rightarrow> Hash" where
  "first_parent_or_default block = (case h_parents (b_header block) of [] \<Rightarrow> [] | parent # _ \<Rightarrow> parent)"

fun context_loop :: "ChainState \<Rightarrow> Block \<Rightarrow> Hash list \<Rightarrow> ChainState \<Rightarrow> PulseError + ChainState" where
  "context_loop state block [] context = Inr context"
| "context_loop state block (hash # chain) context =
    (if hash = dag_genesis_hash (cs_dag context) then context_loop state block chain context
     else
       rbind (ok_or (ParentStateContextUnavailable (b_hash block) hash) (lookup (dag_blocks (cs_dag state)) hash))
         (\<lambda>ancestor.
       case apply_transactions (b_transactions ancestor) context (h_height (b_header ancestor)) of
         (_, Inl e) \<Rightarrow> Inl e
       | (context', Inr _) \<Rightarrow>
           context_loop state block chain
             (refresh_selected_chain (accept_block_to_dag_metadata ancestor context'))))"

definition with_modes_of :: "ChainState \<Rightarrow> ChainState \<Rightarrow> ChainState" where
  "with_modes_of state context = context\<lparr>cs_dag := (cs_dag context)\<lparr>
    dag_consensus_mode := dag_consensus_mode (cs_dag state),
    dag_selected_parent_policy := dag_selected_parent_policy (cs_dag state)\<rparr>\<rparr>"

definition parent_state_context :: "crypto \<Rightarrow> Block \<Rightarrow> ChainState \<Rightarrow> PulseError + ChainState" where
  "parent_state_context C block state =
    rbind (ok_or (ParentStateContextUnavailable (b_hash block) (first_parent_or_default block))
      (selected_parent_for_state_validation block state)) (\<lambda>parent_hash.
    rbind (ok_or (ParentStateContextUnavailable (b_hash block) parent_hash)
      (lookup (dag_blocks (cs_dag state)) parent_hash)) (\<lambda>_.
    if preferred_tip_hash state = Some parent_hash then Inr (clear_mempool state)
    else
      rbind (init_chain_state C (cs_chain_id state)) (\<lambda>context.
      let chain = rebuild_selected_chain_from_tip state (Some parent_hash) in
      if parent_hash \<notin> set chain then Inl (ParentStateContextUnavailable (b_hash block) parent_hash)
      else context_loop state block chain (with_modes_of state context))))"

definition invalid_state_root_diagnostics :: "Block \<Rightarrow> ChainState \<Rightarrow> string \<Rightarrow> InvalidStateRootDiagnostics" where
  "invalid_state_root_diagnostics block state computed_state_root =
    (let current_tips = sorted_tip_hashes state;
         selected_tip = first_of current_tips;
         selected_tip_height = map_option (\<lambda>b. h_height (b_header b))
           (Option.bind selected_tip (lookup (dag_blocks (cs_dag state))));
         parent_hashes = h_parents (b_header block);
         stale_template = (parent_hashes \<noteq> []
           \<and> (list_ex (\<lambda>parent. parent \<notin> set (dag_tips (cs_dag state))) parent_hashes
             \<or> (case selected_tip of None \<Rightarrow> False | Some tip \<Rightarrow> tip \<notin> set parent_hashes)
             \<or> (case selected_tip_height of None \<Rightarrow> False | Some tip_height \<Rightarrow> h_height (b_header block) \<le> tip_height)));
         unknown_context = (parent_hashes = [] \<or> selected_tip = None
           \<or> list_ex (\<lambda>parent. \<not> contains_key (dag_blocks (cs_dag state)) parent) parent_hashes)
     in \<lparr>d_block_hash = b_hash block, d_height = h_height (b_header block), d_parent_hashes = parent_hashes,
         d_supplied_state_root = h_state_root (b_header block), d_computed_state_root = computed_state_root,
         d_tx_count = length (b_transactions block),
         d_coinbase_miner_address = map_option out_address
           (Option.bind (first_of (b_transactions block)) (\<lambda>tx. first_of (tx_outputs tx))),
         d_selected_tip = selected_tip, d_selected_tip_height = selected_tip_height,
         d_current_tips = current_tips, d_stale_template = stale_template, d_unknown_context = unknown_context,
         d_classification = (if unknown_context then UnknownContext
           else if stale_template then StaleTemplate else TrueInvalid),
         d_state_validation_context_tip = selected_tip,
         d_state_validation_context_height = selected_tip_height,
         d_state_validation_context_source = Some ''current_selected_tip_legacy''\<rparr>)"

definition invalid_state_root_diagnostics_with_context ::
  "Block \<Rightarrow> ChainState \<Rightarrow> ChainState \<Rightarrow> string \<Rightarrow> InvalidStateRootDiagnostics" where
  "invalid_state_root_diagnostics_with_context block state context computed_state_root =
    (let context_tip = selected_parent_for_state_validation block state
     in (invalid_state_root_diagnostics block state computed_state_root)\<lparr>
          d_state_validation_context_height := map_option (\<lambda>b. h_height (b_header b))
            (Option.bind context_tip (lookup (dag_blocks (cs_dag state)))),
          d_state_validation_context_tip := context_tip,
          d_state_validation_context_source := Some ''canonical_parent_rebuild'',
          d_stale_template := False,
          d_classification := (if dag_blocks (cs_dag context) = [] then ParentContextUnavailable else TrueInvalid)\<rparr>)"

text \<open>The checks before the difficulty: the selected parent, and the newest parent timestamp.\<close>

definition validate_block_parents :: "u64 \<Rightarrow> u64 \<Rightarrow> Block \<Rightarrow> ChainState \<Rightarrow> PulseError + (Hash \<times> u64)" where
  "validate_block_parents now max_future block state =
    (let header = b_header block in
     if contains_key (dag_blocks (cs_dag state)) (b_hash block) then Inl BlockAlreadyExists
     else if h_timestamp header = 0 then Inl (InvalidBlock ''timestamp must be greater than zero'')
     else if h_timestamp header > saturating_add now max_future then
       Inl (InvalidBlock (''timestamp too far in the future: '' @ format_nat (unat (h_timestamp header)) @ '' > ''
         @ format_nat (unat now) @ '' + '' @ format_nat (unat max_future)))
     else if h_parents header = [] then Inl (InvalidBlock ''block has no parents'')
     else
       rbind (check_parents (dag_blocks (cs_dag state)) (h_parents header) [] 0 0)
         (\<lambda>(expected_height, newest_parent_timestamp).
       if h_height header \<noteq> expected_height then
         Inl (InvalidBlock (''invalid height '' @ format_nat (unat (h_height header)) @ '', expected ''
           @ format_nat (unat expected_height)))
       else
         rbind (ok_or (ParentStateContextUnavailable (b_hash block) (first_parent_or_default block))
           (selected_parent_for_state_validation block state)) (\<lambda>selected_parent.
         Inr (selected_parent, newest_parent_timestamp))))"

fun check_txids :: "crypto \<Rightarrow> Transaction list \<Rightarrow> PulseError + unit" where
  "check_txids C [] = Inr ()"
| "check_txids C (tx # txs) =
    rbind (ok_or length_panic (compute_txid C tx)) (\<lambda>txid.
    if txid \<noteq> tx_txid tx then Inl InvalidTxid else check_txids C txs)"

text \<open>The checks from the difficulty on.\<close>

definition validate_block_body ::
  "crypto \<Rightarrow> (bytes \<Rightarrow> u64 \<Rightarrow> bytes) \<Rightarrow> Block \<Rightarrow> ChainState \<Rightarrow> u32 \<Rightarrow> u64 \<Rightarrow> PulseError + unit" where
  "validate_block_body C H block state expected_bits newest_parent_timestamp =
    (let header = b_header block in
     if h_difficulty header \<noteq> expected_bits then
       Inl (InvalidBlock (''invalid consensus difficulty '' @ format_nat (unat (h_difficulty header)) @ '', expected ''
         @ format_nat (unat expected_bits)))
     else
       rbind (map_err (\<lambda>reason. InvalidBlock (''invalid proof of work for expected difficulty ''
           @ format_nat (unat expected_bits) @ '': '' @ reject_code reason))
         (validate_pow_header C H header)) (\<lambda>_.
       if h_timestamp header < newest_parent_timestamp then
         Inl (InvalidBlock (''timestamp '' @ format_nat (unat (h_timestamp header)) @ '' is older than newest parent ''
           @ format_nat (unat newest_parent_timestamp)))
       else
         rbind (validate_coinbase_position block) (\<lambda>_.
         rbind (ok_or length_panic (compute_block_hash C header)) (\<lambda>computed_hash.
         if computed_hash \<noteq> b_hash block then
           Inl (InvalidBlock (''block hash mismatch: supplied '' @ b_hash block @ '', computed '' @ computed_hash))
         else if \<not> distinct (map tx_txid (b_transactions block)) then
           Inl (InvalidBlock ''duplicate transaction in block'')
         else if compute_merkle_root C (b_transactions block) \<noteq> h_merkle_root header then
           Inl (InvalidBlock (''merkle root mismatch: supplied '' @ h_merkle_root header @ '', computed ''
             @ compute_merkle_root C (b_transactions block)))
         else
           rbind (check_txids C (b_transactions block)) (\<lambda>_.
           rbind (validate_coinbase_reward block) (\<lambda>_.
           rbind (parent_state_context C block state) (\<lambda>parent_context.
           rbind (validate_created_utxo_outpoints block parent_context) (\<lambda>_.
           rbind (compute_post_state_root C block parent_context) (\<lambda>computed_state_root.
           if computed_state_root \<noteq> h_state_root header then
             Inl (InvalidStateRoot (invalid_state_root_diagnostics_with_context block state parent_context
               computed_state_root))
           else Inr ())))))))))"

text \<open>
  The whole validation.  The difficulty comes from a walk over selected parents, which does not end on
  metadata with a cycle: the outer \<open>None\<close> is that case.
\<close>

definition validate_block ::
  "crypto \<Rightarrow> (bytes \<Rightarrow> u64 \<Rightarrow> bytes) \<Rightarrow> u64 \<Rightarrow> u64 \<Rightarrow> Block \<Rightarrow> ChainState \<Rightarrow> (PulseError + unit) option" where
  "validate_block C H now max_future block state =
    (case validate_block_parents now max_future block state of
       Inl e \<Rightarrow> Some (Inl e)
     | Inr (selected_parent, newest_parent_timestamp) \<Rightarrow>
         map_option (\<lambda>difficulty.
             case difficulty of
               None \<Rightarrow> Inl (ParentStateContextUnavailable (b_hash block) selected_parent)
             | Some expected_bits \<Rightarrow>
                 validate_block_body C H block state expected_bits newest_parent_timestamp)
           (expected_difficulty_for_parent state selected_parent))"

subsection \<open>Committing a block\<close>

definition selected_chain_extends_with_block :: "Hash list \<Rightarrow> Hash list \<Rightarrow> Hash \<Rightarrow> bool" where
  "selected_chain_extends_with_block previous_selected_chain selected_chain block_hash \<longleftrightarrow>
    length selected_chain = length previous_selected_chain + 1
    \<and> take (length previous_selected_chain) selected_chain = previous_selected_chain
    \<and> last_of selected_chain = Some block_hash"

definition ok :: "'e + 'a \<Rightarrow> 'a option" where
  "ok r = (case r of Inl _ \<Rightarrow> None | Inr x \<Rightarrow> Some x)"

definition set_state_root :: "Hash option \<Rightarrow> ChainState \<Rightarrow> ChainState" where
  "set_state_root root state = state\<lparr>cs_dag := (cs_dag state)\<lparr>dag_ordered_dag_state_root := root\<rparr>\<rparr>"

definition hash_or_dash :: "Hash option \<Rightarrow> string" where
  "hash_or_dash hash = (case hash of None \<Rightarrow> ''-'' | Some h \<Rightarrow> h)"

definition commit_legacy_compact_snapshot_state ::
  "crypto \<Rightarrow> Block \<Rightarrow> ChainState \<Rightarrow> Hash list \<Rightarrow> ChainState \<times> (PulseError + unit)" where
  "commit_legacy_compact_snapshot_state C block state previous_selected_chain =
    (let selected_chain = dag_selected_chain (cs_dag state) in
     if selected_chain = previous_selected_chain then
       (set_state_root (ok (compute_state_root C (cs_utxo state))) state, Inr ())
     else if \<not> selected_chain_extends_with_block previous_selected_chain selected_chain (b_hash block) then
       (state, Inl (StorageError (''compact snapshot selected-chain transition requires unavailable historical state: previous_tip=''
         @ hash_or_dash (last_of previous_selected_chain) @ '' candidate='' @ b_hash block
         @ '' selected_tip='' @ hash_or_dash (last_of selected_chain))))
     else
       (case apply_transactions (b_transactions block) state (h_height (b_header block)) of
          (state', Inl e) \<Rightarrow> (state', Inl e)
        | (state', Inr _) \<Rightarrow>
            (case compute_state_root C (cs_utxo state') of
               Inl e \<Rightarrow> (state', Inl e)
             | Inr state_root \<Rightarrow>
                 if state_root \<noteq> h_state_root (b_header block) then
                   (state', Inl (Internal (''compact snapshot incremental state root mismatch for block '' @ b_hash block
                     @ '': computed '' @ state_root @ '', expected '' @ h_state_root (b_header block))))
                 else (set_state_root (Some state_root) state', Inr ()))))"

record OrderedDagRebuildDiagnostics =
  rd_applied_transactions :: nat
  rd_skipped_conflicting_transactions :: nat
  rd_conflict_diagnostics :: "string list"
  rd_state_root :: string
  rd_ordered_dag_tip :: "Hash option"

record OrderedDagRebuild =
  rb_utxo :: UtxoState
  rb_diagnostics :: OrderedDagRebuildDiagnostics

definition is_conflict :: "PulseError \<Rightarrow> bool" where
  "is_conflict e = (case e of UtxoNotFound \<Rightarrow> True | DuplicateUtxoOutpoint _ \<Rightarrow> True | _ \<Rightarrow> False)"

fun rebuild_transactions ::
  "Block \<Rightarrow> Transaction list \<Rightarrow> ChainState \<Rightarrow> OrderedDagRebuildDiagnostics \<Rightarrow>
    PulseError + (ChainState \<times> OrderedDagRebuildDiagnostics)" where
  "rebuild_transactions block [] rebuilt diagnostics = Inr (rebuilt, diagnostics)"
| "rebuild_transactions block (tx # txs) rebuilt diagnostics =
    (case apply_transaction tx rebuilt (h_height (b_header block)) of
       (rebuilt', Inr _) \<Rightarrow>
         rebuild_transactions block txs rebuilt'
           (diagnostics\<lparr>rd_applied_transactions := rd_applied_transactions diagnostics + 1\<rparr>)
     | (rebuilt', Inl e) \<Rightarrow>
         if is_conflict e then
           (let skipped = rd_skipped_conflicting_transactions diagnostics + 1 in
            rebuild_transactions block txs rebuilt' (diagnostics\<lparr>
              rd_skipped_conflicting_transactions := skipped,
              rd_conflict_diagnostics := rd_conflict_diagnostics diagnostics
                @ [''ordered_pos='' @ format_nat (rd_applied_transactions diagnostics + skipped) @ '' block=''
                   @ b_hash block @ '' tx='' @ tx_txid tx @ '' skipped_conflict'']\<rparr>))
         else Inl e)"

fun rebuild_loop ::
  "ChainState \<Rightarrow> Hash list \<Rightarrow> ChainState \<Rightarrow> OrderedDagRebuildDiagnostics \<Rightarrow>
    PulseError + (ChainState \<times> OrderedDagRebuildDiagnostics)" where
  "rebuild_loop state [] rebuilt diagnostics = Inr (rebuilt, diagnostics)"
| "rebuild_loop state (hash # hashes) rebuilt diagnostics =
    (if hash = dag_genesis_hash (cs_dag state) then rebuild_loop state hashes rebuilt diagnostics
     else
       rbind (ok_or (Internal (''ordered DAG references missing block '' @ hash)) (lookup (dag_blocks (cs_dag state)) hash))
         (\<lambda>block.
       rbind (rebuild_transactions block (b_transactions block) rebuilt diagnostics) (\<lambda>(rebuilt', diagnostics').
       rebuild_loop state hashes rebuilt' diagnostics')))"

definition rebuild_state_from_ordered_dag :: "crypto \<Rightarrow> ChainState \<Rightarrow> PulseError + OrderedDagRebuild" where
  "rebuild_state_from_ordered_dag C state =
    rbind (init_chain_state C (cs_chain_id state)) (\<lambda>rebuilt.
    rbind (rebuild_loop state (dag_ordered_dag (cs_dag state)) (with_modes_of state rebuilt)
      \<lparr>rd_applied_transactions = 0, rd_skipped_conflicting_transactions = 0, rd_conflict_diagnostics = [],
       rd_state_root = [], rd_ordered_dag_tip = ordered_dag_tip state\<rparr>) (\<lambda>(rebuilt, diagnostics).
    rbind (compute_state_root C (cs_utxo rebuilt)) (\<lambda>state_root.
    Inr \<lparr>rb_utxo = cs_utxo rebuilt, rb_diagnostics = diagnostics\<lparr>rd_state_root := state_root\<rparr>\<rparr>)))"

definition commit_rebuilt_state :: "ChainState \<Rightarrow> OrderedDagRebuild \<Rightarrow> ChainState" where
  "commit_rebuilt_state state rebuilt = state\<lparr>cs_utxo := rb_utxo rebuilt, cs_dag := (cs_dag state)\<lparr>
    dag_ordered_dag_rebuild_total := saturating_add (dag_ordered_dag_rebuild_total (cs_dag state)) 1,
    dag_ordered_dag_state_root := Some (rd_state_root (rb_diagnostics rebuilt)),
    dag_ordered_dag_tip := rd_ordered_dag_tip (rb_diagnostics rebuilt),
    dag_ordered_dag_conflict_diagnostics := rd_conflict_diagnostics (rb_diagnostics rebuilt)\<rparr>\<rparr>"

fun legacy_rebuild_loop :: "ChainState \<Rightarrow> Hash list \<Rightarrow> ChainState \<Rightarrow> PulseError + ChainState" where
  "legacy_rebuild_loop state [] rebuilt = Inr rebuilt"
| "legacy_rebuild_loop state (hash # hashes) rebuilt =
    (if hash = dag_genesis_hash (cs_dag state) then legacy_rebuild_loop state hashes rebuilt
     else
       rbind (ok_or (Internal (''selected chain references missing block '' @ hash)) (lookup (dag_blocks (cs_dag state)) hash))
         (\<lambda>selected_block.
       case apply_transactions (b_transactions selected_block) rebuilt (h_height (b_header selected_block)) of
         (_, Inl e) \<Rightarrow> Inl e
       | (rebuilt', Inr _) \<Rightarrow>
           legacy_rebuild_loop state hashes
             (refresh_selected_chain (accept_block_to_dag_metadata selected_block rebuilt'))))"

definition legacy_metadata :: "Block \<Rightarrow> ChainState \<Rightarrow> ChainState" where
  "legacy_metadata block state =
    (let state = refresh_selected_chain (accept_block_to_dag_metadata block state);
         chain = dag_selected_chain (cs_dag state)
     in state\<lparr>cs_dag := (cs_dag state)\<lparr>dag_ordered_dag := chain, dag_ordering_version := ''legacy'',
          dag_ordered_dag_tip := last_of chain\<rparr>\<rparr>)"

definition commit_legacy ::
  "crypto \<Rightarrow> Block \<Rightarrow> ChainState \<Rightarrow> ChainState \<times> (PulseError + unit)" where
  "commit_legacy C block state =
    (let compact_snapshot = (\<not> contains_key (dag_blocks (cs_dag state)) (dag_genesis_hash (cs_dag state)));
         previous_selected_chain = dag_selected_chain (cs_dag state);
         state = legacy_metadata block state
     in if compact_snapshot then commit_legacy_compact_snapshot_state C block state previous_selected_chain
        else
          (case rbind (init_chain_state C (cs_chain_id state)) (\<lambda>rebuilt.
               legacy_rebuild_loop state (dag_selected_chain (cs_dag state)) (with_modes_of state rebuilt)) of
             Inl e \<Rightarrow> (state, Inl e)
           | Inr rebuilt \<Rightarrow>
               (set_state_root (ok (compute_state_root C (cs_utxo rebuilt))) (state\<lparr>cs_utxo := cs_utxo rebuilt\<rparr>),
                Inr ())))"

definition commit_ghostdag ::
  "crypto \<Rightarrow> Block \<Rightarrow> ChainState \<Rightarrow> ChainState \<times> (PulseError + unit)" where
  "commit_ghostdag C block state =
    (let state = refresh_ordered_dag (refresh_selected_chain (accept_block_to_dag_metadata block state))
     in case rebuild_state_from_ordered_dag C state of
          Inl e \<Rightarrow>
            (state\<lparr>cs_dag := (cs_dag state)\<lparr>dag_ordered_dag_rebuild_failed_total :=
               saturating_add (dag_ordered_dag_rebuild_failed_total (cs_dag state)) 1\<rparr>\<rparr>, Inl e)
        | Inr rebuilt \<Rightarrow> (commit_rebuilt_state state rebuilt, Inr ()))"

definition commit_block_to_state ::
  "crypto \<Rightarrow> Block \<Rightarrow> ChainState \<Rightarrow> ChainState \<times> (PulseError + unit)" where
  "commit_block_to_state C block state =
    (case (if dag_consensus_mode (cs_dag state) = GhostdagDev then commit_ghostdag C block state
           else commit_legacy C block state) of
       (state', Inl e) \<Rightarrow> (state', Inl e)
     | (state', Inr _) \<Rightarrow> (fst (reconcile_mempool C state'), Inr ()))"

definition prepare_block_state ::
  "crypto \<Rightarrow> (bytes \<Rightarrow> u64 \<Rightarrow> bytes) \<Rightarrow> json \<Rightarrow> u64 \<Rightarrow> u64 \<Rightarrow> Block \<Rightarrow> ChainState \<Rightarrow>
    (PulseError + ChainState) option" where
  "prepare_block_state C H J now max_future block state =
    map_option (\<lambda>valid. rbind valid (\<lambda>_.
        case commit_block_to_state C block state of
          (_, Inl e) \<Rightarrow> Inl e
        | (working, Inr _) \<Rightarrow> Inr (fst (normalize_production_mempool_resources_v1 C J working))))
      (validate_block C H now max_future block state)"

definition apply_block ::
  "crypto \<Rightarrow> (bytes \<Rightarrow> u64 \<Rightarrow> bytes) \<Rightarrow> json \<Rightarrow> u64 \<Rightarrow> u64 \<Rightarrow> Block \<Rightarrow> ChainState \<Rightarrow>
    (ChainState \<times> (PulseError + unit)) option" where
  "apply_block C H J now max_future block state =
    map_option (\<lambda>r. case r of Inl e \<Rightarrow> (state, Inl e) | Inr working \<Rightarrow> (working, Inr ()))
      (prepare_block_state C H J now max_future block state)"

section \<open>Replay\<close>

text \<open>Applying transactions reads and writes only the UTXO set, apart from cleaning the mempool.\<close>

lemma apply_transaction_utxo:
  assumes "cs_utxo s = cs_utxo t"
  shows "cs_utxo (fst (apply_transaction tx s h)) = cs_utxo (fst (apply_transaction tx t h))"
    "snd (apply_transaction tx s h) = snd (apply_transaction tx t h)"
  unfolding apply_transaction_def assms by (simp_all add: assms split: sum.splits prod.splits)

lemma apply_transaction_dag [simp]: "cs_dag (fst (apply_transaction tx s h)) = cs_dag s"
  by (simp add: apply_transaction_def split: sum.splits prod.splits)

lemma apply_transactions_utxo:
  assumes "cs_utxo s = cs_utxo t"
  shows "cs_utxo (fst (apply_transactions txs s h)) = cs_utxo (fst (apply_transactions txs t h))
    \<and> snd (apply_transactions txs s h) = snd (apply_transactions txs t h)"
  using assms
proof (induction txs arbitrary: s t)
  case (Cons tx txs)
  obtain s1 r t1 q where st: "apply_transaction tx s h = (s1, r)" "apply_transaction tx t h = (t1, q)"
    by (metis surj_pair)
  with apply_transaction_utxo [OF Cons.prems, of tx h] have "cs_utxo s1 = cs_utxo t1" "r = q" by simp_all
  then show ?case using st Cons.IH [of s1 t1] by (simp split: sum.splits)
qed simp

lemma apply_transactions_dag [simp]: "cs_dag (fst (apply_transactions txs s h)) = cs_dag s"
proof (induction txs s h rule: apply_transactions.induct)
  case (2 tx txs s h)
  obtain s1 r where s1: "apply_transaction tx s h = (s1, r)" by (metis surj_pair)
  then have "cs_dag s1 = cs_dag s" by (metis apply_transaction_dag fst_conv)
  with 2 s1 show ?case by (auto split: sum.splits)
qed simp

definition utxo_txs :: "Transaction list \<Rightarrow> u64 \<Rightarrow> UtxoState \<Rightarrow> UtxoState option" where
  "utxo_txs txs h u = (case apply_transactions txs (blank_state\<lparr>cs_utxo := u\<rparr>) h of
     (s, Inr _) \<Rightarrow> Some (cs_utxo s) | (_, Inl _) \<Rightarrow> None)"

lemma utxo_txs_Some:
  "utxo_txs txs h (cs_utxo s) = Some u \<longleftrightarrow> (\<exists>s'. apply_transactions txs s h = (s', Inr ()) \<and> cs_utxo s' = u)"
proof -
  have eq: "cs_utxo (fst (apply_transactions txs s h)) = cs_utxo (fst (apply_transactions txs (blank_state\<lparr>cs_utxo := cs_utxo s\<rparr>) h))"
    "snd (apply_transactions txs s h) = snd (apply_transactions txs (blank_state\<lparr>cs_utxo := cs_utxo s\<rparr>) h)"
    using apply_transactions_utxo [of s "blank_state\<lparr>cs_utxo := cs_utxo s\<rparr>" txs h] by simp_all
  obtain a b c d where ab: "apply_transactions txs s h = (a, b)"
    "apply_transactions txs (blank_state\<lparr>cs_utxo := cs_utxo s\<rparr>) h = (c, d)" by (metis surj_pair)
  with eq have "cs_utxo a = cs_utxo c" "b = d" by simp_all
  with ab show ?thesis by (auto simp: utxo_txs_def split: sum.splits)
qed

fun replay :: "ChainState \<Rightarrow> Hash list \<Rightarrow> UtxoState \<Rightarrow> UtxoState option" where
  "replay s [] u = Some u"
| "replay s (h # hs) u =
    (if h = dag_genesis_hash (cs_dag s) then replay s hs u
     else Option.bind (lookup (dag_blocks (cs_dag s)) h) (\<lambda>b.
       Option.bind (utxo_txs (b_transactions b) (h_height (b_header b)) u) (replay s hs)))"

lemma replay_append: "replay s (hs @ gs) u = Option.bind (replay s hs u) (replay s gs)"
  by (induction hs arbitrary: u) (auto split: Option.bind_splits)

lemma metadata_parts [simp]:
  "cs_utxo (accept_block_to_dag_metadata b s) = cs_utxo s" "cs_utxo (refresh_selected_chain s) = cs_utxo s"
  "dag_genesis_hash (cs_dag (accept_block_to_dag_metadata b s)) = dag_genesis_hash (cs_dag s)"
  "dag_genesis_hash (cs_dag (refresh_selected_chain s)) = dag_genesis_hash (cs_dag s)"
  "cs_utxo (with_modes_of s t) = cs_utxo t"
  "dag_genesis_hash (cs_dag (with_modes_of s t)) = dag_genesis_hash (cs_dag t)"
  by (simp_all add: accept_block_to_dag_metadata_def refresh_selected_chain_def with_modes_of_def Let_def)

lemma legacy_rebuild_replay:
  "legacy_rebuild_loop s hs r = Inr r' \<Longrightarrow> replay s hs (cs_utxo r) = Some (cs_utxo r')"
proof (induction s hs r rule: legacy_rebuild_loop.induct)
  case (2 s h hs r)
  show ?case
  proof (cases "h = dag_genesis_hash (cs_dag s)")
    case True
    with 2 show ?thesis by simp
  next
    case False
    obtain b where b: "lookup (dag_blocks (cs_dag s)) h = Some b"
      and step: "(case apply_transactions (b_transactions b) r (h_height (b_header b)) of (_, Inl e) \<Rightarrow> Inl e
        | (r1, Inr _) \<Rightarrow> legacy_rebuild_loop s hs (refresh_selected_chain (accept_block_to_dag_metadata b r1))) = Inr r'"
      using "2.prems" False by (auto simp: result_simps)
    obtain r1 q where a: "apply_transactions (b_transactions b) r (h_height (b_header b)) = (r1, q)" by (metis surj_pair)
    with step have r1: "apply_transactions (b_transactions b) r (h_height (b_header b)) = (r1, Inr ())"
      and rest: "legacy_rebuild_loop s hs (refresh_selected_chain (accept_block_to_dag_metadata b r1)) = Inr r'"
      by (auto split: sum.splits)
    have "utxo_txs (b_transactions b) (h_height (b_header b)) (cs_utxo r) = Some (cs_utxo r1)"
      using r1 by (auto simp: utxo_txs_Some)
    with False b rest show ?thesis using "2.IH"(2) [OF False _ r1 [symmetric] refl rest] by simp
  qed
qed simp

lemma context_loop_replay:
  "context_loop s block hs c = Inr c' \<Longrightarrow> dag_genesis_hash (cs_dag c) = dag_genesis_hash (cs_dag s) \<Longrightarrow>
    replay s hs (cs_utxo c) = Some (cs_utxo c')"
proof (induction s block hs c rule: context_loop.induct)
  case (2 s block h hs c)
  show ?case
  proof (cases "h = dag_genesis_hash (cs_dag s)")
    case True
    with 2 show ?thesis by simp
  next
    case False
    then have ne: "h \<noteq> dag_genesis_hash (cs_dag c)" using "2.prems"(2) by simp
    obtain b where b: "lookup (dag_blocks (cs_dag s)) h = Some b"
      and step: "(case apply_transactions (b_transactions b) c (h_height (b_header b)) of (_, Inl e) \<Rightarrow> Inl e
        | (c1, Inr _) \<Rightarrow> context_loop s block hs (refresh_selected_chain (accept_block_to_dag_metadata b c1))) = Inr c'"
      using "2.prems"(1) ne by (auto simp: result_simps)
    obtain c1 q where a: "apply_transactions (b_transactions b) c (h_height (b_header b)) = (c1, q)" by (metis surj_pair)
    with step have c1: "apply_transactions (b_transactions b) c (h_height (b_header b)) = (c1, Inr ())"
      and rest: "context_loop s block hs (refresh_selected_chain (accept_block_to_dag_metadata b c1)) = Inr c'"
      by (auto split: sum.splits)
    have "cs_dag c1 = cs_dag c" using apply_transactions_dag [of "b_transactions b" c] c1 by (metis fst_conv)
    then have g: "dag_genesis_hash (cs_dag (refresh_selected_chain (accept_block_to_dag_metadata b c1))) = dag_genesis_hash (cs_dag s)"
      using "2.prems"(2) by simp
    have "utxo_txs (b_transactions b) (h_height (b_header b)) (cs_utxo c) = Some (cs_utxo c1)"
      using c1 by (auto simp: utxo_txs_Some)
    with False b rest show ?thesis using "2.IH"(2) [OF ne _ c1 [symmetric] refl rest g] by simp
  qed
qed simp

lemma validate_and_apply_txs:
  "validate_and_apply C txs h s = Inr s' \<Longrightarrow> apply_transactions txs s h = (s', Inr ())"
  by (induction C txs h s rule: validate_and_apply.induct) (auto simp: result_simps split: prod.splits sum.splits)

lemma post_state_txs:
  assumes "post_state C b s = Inr w"
  shows "utxo_txs (b_transactions b) (h_height (b_header b)) (cs_utxo s) = Some (cs_utxo w)"
proof -
  obtain cb txs s1 where b: "b_transactions b = cb # txs"
    and cb: "apply_transaction cb (clear_mempool s) (h_height (b_header b)) = (s1, Inr ())"
    and rest: "validate_and_apply C txs (h_height (b_header b)) s1 = Inr w"
    using assms by (auto simp: post_state_def split: list.splits prod.splits sum.splits)
  have "apply_transactions (b_transactions b) (clear_mempool s) (h_height (b_header b)) = (w, Inr ())"
    using validate_and_apply_txs [OF rest] cb b by simp
  moreover have "cs_utxo (clear_mempool s) = cs_utxo s" by (simp add: clear_mempool_def)
  ultimately show ?thesis using utxo_txs_Some [of _ _ "clear_mempool s"] by metis
qed

section \<open>What a validated block guarantees\<close>

lemma check_parents_heights:
  "check_parents blocks ps seen eh nt = Inr (eh', nt') \<Longrightarrow>
    eh \<le> eh' \<and> (\<forall>p \<in> set ps. \<exists>b. lookup blocks p = Some b \<and> saturating_add (h_height (b_header b)) 1 \<le> eh')"
proof (induction blocks ps seen eh nt rule: check_parents.induct)
  case (2 blocks p ps seen eh nt)
  obtain b where b: "lookup blocks p = Some b" and np: "p \<notin> set seen"
    and rest: "check_parents blocks ps (p # seen) (max eh (saturating_add (h_height (b_header b)) 1))
      (max nt (h_timestamp (b_header b))) = Inr (eh', nt')"
    using "2.prems" by (auto simp: result_simps split: if_splits)
  have "ok_or (InvalidBlock (''missing parent '' @ p)) (lookup blocks p) = Inr b" by (simp add: b)
  from "2.IH" [OF np this rest] b show ?case by auto
qed simp

lemma fold_max_in: "fold max xs x \<in> set (x # xs)"
proof (induction xs arbitrary: x)
  case (Cons y ys)
  then show ?case using Cons.IH [of "max y x"] by (auto simp: max_def split: if_splits)
qed simp

lemma max_known_parent_Some:
  assumes "max_known_parent b s = Some p"
  shows "p \<in> set (h_parents (b_header b))" "contains_key (dag_blocks (cs_dag s)) p"
proof -
  obtain q qs where q: "filter (contains_key (dag_blocks (cs_dag s))) (h_parents (b_header b)) = q # qs" "p = fold max qs q"
    using assms by (auto simp: max_known_parent_def split: list.splits)
  then have "p \<in> set (filter (contains_key (dag_blocks (cs_dag s))) (h_parents (b_header b)))"
    using fold_max_in [of qs q] by metis
  then show "p \<in> set (h_parents (b_header b))" "contains_key (dag_blocks (cs_dag s)) p" by auto
qed

lemma validate_block_guarantees:
  assumes v: "validate_block C H now mf b s = Some (Inr ())" and mode: "dag_consensus_mode (cs_dag s) = Legacy"
  obtains p pb ctx w where "\<not> contains_key (dag_blocks (cs_dag s)) (b_hash b)"
    "max_known_parent b s = Some p" "lookup (dag_blocks (cs_dag s)) p = Some pb"
    "saturating_add (h_height (b_header pb)) 1 \<le> h_height (b_header b)"
    "validate_coinbase_position b = Inr ()" "validate_coinbase_reward b = Inr ()"
    "parent_state_context C b s = Inr ctx" "post_state C b ctx = Inr w"
    "compute_state_root C (cs_utxo w) = Inr (h_state_root (b_header b))"
    "compute_block_hash C (b_header b) = Some (b_hash b)"
proof -
  obtain p nt where vp: "validate_block_parents now mf b s = Inr (p, nt)"
    using v by (auto simp: validate_block_def split: sum.splits)
  obtain bits where body: "validate_block_body C H b s bits nt = Inr ()"
    using v vp by (auto simp: validate_block_def split: option.splits)
  have new: "\<not> contains_key (dag_blocks (cs_dag s)) (b_hash b)"
    using vp by (auto simp: validate_block_parents_def Let_def split: if_splits)
  obtain eh where eh: "check_parents (dag_blocks (cs_dag s)) (h_parents (b_header b)) [] 0 0 = Inr (eh, nt)"
    and h: "h_height (b_header b) = eh" and sp: "max_known_parent b s = Some p"
    using vp mode by (auto simp: validate_block_parents_def Let_def result_simps selected_parent_for_state_validation_def
        ghostdag_metadata_active_def split: if_splits)
  obtain pb where pb: "lookup (dag_blocks (cs_dag s)) p = Some pb" "saturating_add (h_height (b_header pb)) 1 \<le> eh"
    using check_parents_heights [OF eh] max_known_parent_Some(1) [OF sp] by blast
  obtain ctx where rest: "validate_coinbase_position b = Inr ()" "validate_coinbase_reward b = Inr ()"
    "parent_state_context C b s = Inr ctx" "compute_post_state_root C b ctx = Inr (h_state_root (b_header b))"
    "compute_block_hash C (b_header b) = Some (b_hash b)"
    using body by (auto simp: validate_block_body_def Let_def result_simps split: if_splits)
  obtain w where "post_state C b ctx = Inr w" "compute_state_root C (cs_utxo w) = Inr (h_state_root (b_header b))"
    using rest(4) by (auto simp: compute_post_state_root_def result_simps)
  with new sp pb h rest show thesis by (intro that [of p pb ctx w]) auto
qed

section \<open>The genesis state\<close>

lemma genesis_transaction_exists: "\<exists>tx. genesis_transaction C = Inr tx"
  by (simp add: genesis_transaction_def compute_txid_def canonical_transaction_bytes_def encode_counted_def
      canonical_tx_output_bytes_def encode_len_prefixed_str_def encode_len_prefixed_bytes_def try_from_nat_def
      TX_V1_DOMAIN_def GENESIS_TREASURY_def)

lemma genesis_utxo_wf: "utxo_wf (genesis_utxo tx)"
  by (rule utxo_wfI) (auto simp: genesis_utxo_def Let_def distinct_keys_def split: if_splits)

lemma genesis_value: "total_value (us_utxos (genesis_utxo tx)) = 1000000000"
  by (simp add: genesis_utxo_def Let_def total_value_def GENESIS_SUPPLY_def)

section \<open>The chain invariant\<close>

definition emitted :: "nat \<Rightarrow> nat" where
  "emitted k = (\<Sum>h \<le> k. 50 div 2 ^ (h div 210000))"

lemma emitted_le: "emitted k \<le> 20370000"
  unfolding emitted_def by (rule subsidy_sum_le) simp

lemma emitted_step:
  assumes "saturating_add p 1 \<le> (h :: u64)"
  shows "emitted (unat p) + unat (block_subsidy h) \<le> emitted (unat h)"
proof (cases "unat p < unat h")
  case True
  have "emitted (unat p) + 50 div 2 ^ (unat h div 210000) = (\<Sum>k \<in> insert (unat h) {..unat p}. 50 div 2 ^ (k div 210000))"
    using True by (subst sum.insert) (simp_all add: emitted_def)
  also have "\<dots> \<le> emitted (unat h)" unfolding emitted_def using True by (intro sum_mono2) auto
  finally show ?thesis by (simp add: unat_block_subsidy)
next
  case False
  have b: "unat p < 2 ^ 64" "unat h < 2 ^ 64" using unat_u64_bound [of p] unat_u64_bound [of h] by simp_all
  have "min (unat p + 1) (2 ^ 64 - 1) \<le> unat h" using assms by (simp add: word_le_nat_alt unat_saturating_add)
  with False b have eq: "unat p = unat h" "unat h = 2 ^ 64 - 1" by (simp_all add: min_def split: if_splits)
  have "6 \<le> unat h div 210000" unfolding eq(2) by simp
  then have "(2::nat) ^ 6 \<le> 2 ^ (unat h div 210000)" by (rule power_increasing) simp
  then have z: "unat (block_subsidy h) = 0" unfolding unat_block_subsidy by simp
  show ?thesis by (simp only: z eq(1) add_0_right order_refl)
qed

text \<open>The UTXO set at a block: committed to by its header, consistent, and within the emission so far.\<close>

definition sound :: "crypto \<Rightarrow> Block \<Rightarrow> UtxoState \<Rightarrow> bool" where
  "sound C b u \<longleftrightarrow> compute_state_root C u = Inr (h_state_root (b_header b)) \<and> utxo_wf u
    \<and> total_value (us_utxos u) \<le> 1000000000 + emitted (unat (h_height (b_header b)))"

definition grounded :: "crypto \<Rightarrow> UtxoState \<Rightarrow> ChainState \<Rightarrow> Hash \<Rightarrow> Block \<Rightarrow> bool" where
  "grounded C gu s h b \<longleftrightarrow> (\<exists>hs u. chain_from s (Some h) hs \<and> distinct hs \<and> replay s (rev hs) gu = Some u \<and> sound C b u)"

definition chain_inv :: "crypto \<Rightarrow> Transaction \<Rightarrow> Block \<Rightarrow> ChainState \<Rightarrow> bool" where
  "chain_inv C tx g s \<longleftrightarrow> dag_consensus_mode (cs_dag s) = Legacy
    \<and> dag_genesis_hash (cs_dag s) = b_hash g \<and> contains_key (dag_blocks (cs_dag s)) (b_hash g)
    \<and> dag_tips (cs_dag s) \<noteq> [] \<and> (\<forall>t \<in> set (dag_tips (cs_dag s)). contains_key (dag_blocks (cs_dag s)) t)
    \<and> (\<forall>h b. lookup (dag_blocks (cs_dag s)) h = Some b \<longrightarrow> grounded C (genesis_utxo tx) s h b)
    \<and> dag_selected_chain (cs_dag s) = rebuild_selected_chain_from_tip s (preferred_tip_hash s)
    \<and> replay s (dag_selected_chain (cs_dag s)) (genesis_utxo tx) = Some (cs_utxo s)"

text \<open>All of this only reads the DAG, and of it the blocks, selected parents, tips, policy and genesis hash.\<close>

definition same_blocks :: "ChainState \<Rightarrow> ChainState \<Rightarrow> bool" where
  "same_blocks s t \<longleftrightarrow> dag_blocks (cs_dag s) = dag_blocks (cs_dag t)
    \<and> dag_selected_parents (cs_dag s) = dag_selected_parents (cs_dag t)
    \<and> dag_tips (cs_dag s) = dag_tips (cs_dag t)
    \<and> dag_selected_parent_policy (cs_dag s) = dag_selected_parent_policy (cs_dag t)
    \<and> dag_genesis_hash (cs_dag s) = dag_genesis_hash (cs_dag t)"

lemma chain_from_cong: "same_blocks s t \<Longrightarrow> chain_from s c hs = chain_from t c hs"
  by (induction hs arbitrary: c) (auto simp: same_blocks_def split: option.splits)

lemma replay_cong: "same_blocks s t \<Longrightarrow> replay s hs = replay t hs"
  by (induction hs) (rule ext, simp add: same_blocks_def cong: if_cong)+

lemma preferred_tip_cong: "same_blocks s t \<Longrightarrow> preferred_tip_hash s = preferred_tip_hash t"
  by (simp add: same_blocks_def preferred_tip_hash_def sorted_tip_hashes_def sorted_tip_hashes_with_policy_def known_blocks_def)

lemma rebuild_chain_cong:
  "same_blocks s t \<Longrightarrow> rebuild_selected_chain_from_tip s c = rebuild_selected_chain_from_tip t c"
proof -
  assume "same_blocks s t"
  then have "selected_chain_loop s c v a = selected_chain_loop t c v a" for v a
  proof (induction s c v a rule: selected_chain_loop.induct)
    case (2 s h v a)
    then show ?case by (auto simp: same_blocks_def selected_parent_of_def)
  qed simp
  then show ?thesis by (simp add: rebuild_selected_chain_from_tip_def)
qed

lemma grounded_cong: "same_blocks s t \<Longrightarrow> grounded C gu s h b = grounded C gu t h b"
  by (simp add: grounded_def chain_from_cong replay_cong)

lemma rebuild_chain_from:
  "chain_from s (Some h) hs \<Longrightarrow> distinct hs \<Longrightarrow> rebuild_selected_chain_from_tip s (Some h) = rev hs"
  using selected_chain_loop_follows [of s "Some h" hs "[]" "[]"] by (simp add: rebuild_selected_chain_from_tip_def)

lemma chain_from_known: "chain_from s c hs \<Longrightarrow> h \<in> set hs \<Longrightarrow> contains_key (dag_blocks (cs_dag s)) h"
  by (induction hs arbitrary: c) (auto split: option.splits)

lemma sort_by_set: "set (sort_by f xs) = set xs"
proof -
  have "set (insert_by f x ys) = insert x (set ys)" for x ys by (induction ys) auto
  then show ?thesis unfolding sort_by_def by (induction xs) simp_all
qed

lemma preferred_tip_known:
  assumes "dag_tips (cs_dag s) \<noteq> []" "\<forall>t \<in> set (dag_tips (cs_dag s)). contains_key (dag_blocks (cs_dag s)) t"
  obtains t where "preferred_tip_hash s = Some t" "contains_key (dag_blocks (cs_dag s)) t"
proof -
  have k: "set (map fst (known_blocks s (dag_tips (cs_dag s)))) = set (dag_tips (cs_dag s))"
    using assms(2) by (force simp: known_blocks_def in_set_map_filter)
  have "set (sorted_tip_hashes s) = set (dag_tips (cs_dag s))"
    using k by (simp add: sorted_tip_hashes_def sorted_tip_hashes_with_policy_def Let_def sort_by_set split: SelectedParentPolicy.splits)
  then obtain t ts where ts: "sorted_tip_hashes s = t # ts" "t \<in> set (dag_tips (cs_dag s))"
    using assms(1) by (cases "sorted_tip_hashes s") auto
  show thesis using ts assms(2) by (intro that [of t]) (simp_all add: preferred_tip_hash_def first_of_def)
qed

text \<open>The tip of a state that satisfies the invariant has the live UTXO set as its ledger.\<close>

lemma chain_inv_live:
  assumes inv: "chain_inv C tx g s"
  obtains t b where "preferred_tip_hash s = Some t" "last_of (dag_selected_chain (cs_dag s)) = Some t"
    "lookup (dag_blocks (cs_dag s)) t = Some b" "sound C b (cs_utxo s)"
proof -
  obtain t where t: "preferred_tip_hash s = Some t" "contains_key (dag_blocks (cs_dag s)) t"
    using preferred_tip_known [of s] inv unfolding chain_inv_def by metis
  obtain b where b: "lookup (dag_blocks (cs_dag s)) t = Some b" using t(2) by blast
  then obtain hs u where hs: "chain_from s (Some t) hs" "distinct hs" "replay s (rev hs) (genesis_utxo tx) = Some u" "sound C b u"
    using inv unfolding chain_inv_def grounded_def by blast
  have chain: "dag_selected_chain (cs_dag s) = rev hs"
    using inv rebuild_chain_from [OF hs(1,2)] t(1) by (simp add: chain_inv_def)
  then have "u = cs_utxo s" using inv hs(3) by (simp add: chain_inv_def)
  moreover obtain hs' where "hs = t # hs'" using hs(1) by (cases hs) auto
  ultimately show thesis using that [OF t(1) _ b] hs(4) chain by (simp add: last_of_def)
qed

lemma parent_context_ledger:
  assumes inv: "chain_inv C tx g s" and tx: "genesis_transaction C = Inr tx" and g: "genesis_block C = Inr g"
    and p: "max_known_parent b s = Some p" and ctx: "parent_state_context C b s = Inr ctx"
  shows "replay s (rebuild_selected_chain_from_tip s (Some p)) (genesis_utxo tx) = Some (cs_utxo ctx)"
proof (cases "preferred_tip_hash s = Some p")
  case True
  have sp: "selected_parent_for_state_validation b s = Some p"
    using inv p by (simp add: selected_parent_for_state_validation_def ghostdag_metadata_active_def chain_inv_def)
  have "cs_utxo ctx = cs_utxo s"
    using ctx True by (auto simp: parent_state_context_def sp result_simps clear_mempool_def)
  then show ?thesis using inv True unfolding chain_inv_def by metis
next
  case False
  have sp: "selected_parent_for_state_validation b s = Some p"
    using inv p by (simp add: selected_parent_for_state_validation_def ghostdag_metadata_active_def chain_inv_def)
  obtain c0 where c0: "init_chain_state C (cs_chain_id s) = Inr c0"
    and loop: "context_loop s b (rebuild_selected_chain_from_tip s (Some p)) (with_modes_of s c0) = Inr ctx"
    using ctx False by (auto simp: parent_state_context_def sp result_simps Let_def split: if_splits)
  have "cs_utxo c0 = genesis_utxo tx" "dag_genesis_hash (cs_dag c0) = b_hash g"
    using c0 tx g by (auto simp: init_chain_state_def Let_def)
  then show ?thesis using context_loop_replay [OF loop] inv by (simp add: chain_inv_def)
qed

subsection \<open>Accepting a block\<close>

text \<open>A new block extends the maps at a fresh key, so every walk and every replay of known blocks stays.\<close>

lemma accept_parts:
  fixes b :: Block
  assumes "dag_consensus_mode (cs_dag s) = Legacy"
  defines "s1 \<equiv> accept_block_to_dag_metadata b s"
  obtains b' where "lookup (dag_blocks (cs_dag s1)) = (map_of (dag_blocks (cs_dag s)))(b_hash b \<mapsto> b')"
    "b_transactions b' = b_transactions b" "h_height (b_header b') = h_height (b_header b)"
    "h_state_root (b_header b') = h_state_root (b_header b)"
    "lookup (dag_selected_parents (cs_dag s1)) = (map_of (dag_selected_parents (cs_dag s)))(b_hash b \<mapsto> max_known_parent b s)"
    "set (dag_tips (cs_dag s1)) \<subseteq> insert (b_hash b) (set (dag_tips (cs_dag s)))" "dag_tips (cs_dag s1) \<noteq> []"
proof -
  have sub: "set (fold removeAll ps ts) \<subseteq> set ts" for ps ts :: "Hash list"
    by (induction ps arbitrary: ts) (simp, force)
  have ne: "List.insert x xs \<noteq> []" for x :: Hash and xs by (cases xs) (auto simp: List.insert_def)
  show thesis
    by (rule that [of "b\<lparr>b_header := (b_header b)\<lparr>h_blue_score := ms_blue_score (classify_merge_set b s)\<rparr>\<rparr>"])
      (insert assms(1) sub [of "h_parents (b_header b)" "dag_tips (cs_dag s)"] ne,
        auto simp: s1_def accept_block_to_dag_metadata_def Let_def ghostdag_metadata_active_def update_conv')
qed

lemma chain_from_extend:
  assumes "chain_from s c hs" "h \<notin> set hs"
    and "lookup (dag_blocks (cs_dag s1)) = (map_of (dag_blocks (cs_dag s)))(h \<mapsto> b')"
    and "lookup (dag_selected_parents (cs_dag s1)) = (map_of (dag_selected_parents (cs_dag s)))(h \<mapsto> p)"
  shows "chain_from s1 c hs"
  using assms(1,2) by (induction hs arbitrary: c) (auto simp: assms(3,4) split: option.splits)

lemma replay_extend:
  assumes "h \<notin> set hs" "lookup (dag_blocks (cs_dag s1)) = (map_of (dag_blocks (cs_dag s)))(h \<mapsto> b')"
    and "dag_genesis_hash (cs_dag s1) = dag_genesis_hash (cs_dag s)"
  shows "replay s1 hs u = replay s hs u"
  using assms(1)
proof (induction hs arbitrary: u)
  case (Cons a hs)
  then have "replay s1 hs = replay s hs" by auto
  with Cons.prems show ?case by (auto simp: assms(2,3))
qed simp

lemma legacy_metadata_blocks:
  "same_blocks (legacy_metadata b s) (accept_block_to_dag_metadata b s)"
  "dag_consensus_mode (cs_dag (legacy_metadata b s)) = dag_consensus_mode (cs_dag s)"
  "cs_utxo (legacy_metadata b s) = cs_utxo s" "cs_chain_id (legacy_metadata b s) = cs_chain_id s"
  by (simp_all add: same_blocks_def legacy_metadata_def refresh_selected_chain_def accept_block_to_dag_metadata_def Let_def)

lemma legacy_metadata_chain:
  "dag_selected_chain (cs_dag (legacy_metadata b s)) =
    rebuild_selected_chain_from_tip (legacy_metadata b s) (preferred_tip_hash (legacy_metadata b s))"
  unfolding preferred_tip_cong [OF legacy_metadata_blocks(1)] rebuild_chain_cong [OF legacy_metadata_blocks(1)]
  by (simp add: legacy_metadata_def refresh_selected_chain_def Let_def)

text \<open>The accepted block is grounded: its ledger is its parent's with its transactions applied.\<close>

lemma accepted_block_grounded:
  assumes inv: "chain_inv C tx g s" and tx: "genesis_transaction C = Inr tx" and g: "genesis_block C = Inr g"
    and valid: "validate_block C H now mf b s = Some (Inr ())"
    and b: "lookup (dag_blocks (cs_dag (accept_block_to_dag_metadata b s))) h = Some b'"
  shows "grounded C (genesis_utxo tx) (accept_block_to_dag_metadata b s) h b'"
proof -
  define s1 where "s1 = accept_block_to_dag_metadata b s"
  have mode: "dag_consensus_mode (cs_dag s) = Legacy" using inv by (simp add: chain_inv_def)
  obtain p pb ctx w where new: "\<not> contains_key (dag_blocks (cs_dag s)) (b_hash b)"
    and p: "max_known_parent b s = Some p" "lookup (dag_blocks (cs_dag s)) p = Some pb"
    and height: "saturating_add (h_height (b_header pb)) 1 \<le> h_height (b_header b)"
    and coinbase: "validate_coinbase_position b = Inr ()" "validate_coinbase_reward b = Inr ()"
    and ctx: "parent_state_context C b s = Inr ctx" and w: "post_state C b ctx = Inr w"
    and root: "compute_state_root C (cs_utxo w) = Inr (h_state_root (b_header b))"
    using validate_block_guarantees [OF valid mode] by metis
  obtain c where c: "lookup (dag_blocks (cs_dag s1)) = (map_of (dag_blocks (cs_dag s)))(b_hash b \<mapsto> c)"
    "b_transactions c = b_transactions b" "h_height (b_header c) = h_height (b_header b)"
    "h_state_root (b_header c) = h_state_root (b_header b)"
    "lookup (dag_selected_parents (cs_dag s1)) = (map_of (dag_selected_parents (cs_dag s)))(b_hash b \<mapsto> max_known_parent b s)"
    unfolding s1_def using accept_parts [OF mode, of b] by metis
  have gen: "dag_genesis_hash (cs_dag s1) = dag_genesis_hash (cs_dag s)" by (simp add: s1_def)
  have known: "grounded C (genesis_utxo tx) s h' b0" if "lookup (dag_blocks (cs_dag s)) h' = Some b0" for h' b0
    using inv that by (simp add: chain_inv_def)
  have walk: "chain_from s1 k hs \<and> replay s1 (rev hs) u = replay s (rev hs) u \<and> b_hash b \<notin> set hs"
    if "chain_from s k hs" for k hs u
  proof -
    have fresh: "b_hash b \<notin> set hs" using chain_from_known [OF that] new by blast
    then show ?thesis using chain_from_extend [OF that _ c(1,5)] replay_extend [OF _ c(1) gen] by simp
  qed
  show ?thesis
  proof (cases "h = b_hash b")
    case False
    then have "lookup (dag_blocks (cs_dag s)) h = Some b'" using b c(1) by (simp add: s1_def)
    then obtain hs u where "chain_from s (Some h) hs" "distinct hs" "replay s (rev hs) (genesis_utxo tx) = Some u" "sound C b' u"
      using known unfolding grounded_def by blast
    then show ?thesis using walk unfolding grounded_def s1_def by metis
  next
    case True
    then have b': "b' = c" using b c(1) by (simp add: s1_def)
    obtain hs u where hs: "chain_from s (Some p) hs" "distinct hs" "replay s (rev hs) (genesis_utxo tx) = Some u" "sound C pb u"
      using known [OF p(2)] unfolding grounded_def by blast
    have u: "u = cs_utxo ctx"
      using parent_context_ledger [OF inv tx g p(1) ctx] rebuild_chain_from [OF hs(1,2)] hs(3) by simp
    have chain: "chain_from s1 (Some h) (h # hs)"
      using walk [OF hs(1)] c(1,5) p(1) True by simp
    have "b_hash b \<noteq> dag_genesis_hash (cs_dag s1)" using new inv gen by (auto simp: chain_inv_def)
    then have "replay s1 [h] u = Some (cs_utxo w)" using post_state_txs [OF w] c True u by simp
    then have replayed: "replay s1 (rev (h # hs)) (genesis_utxo tx) = Some (cs_utxo w)"
      using walk [OF hs(1)] hs(3) by (simp add: replay_append)
    have wf: "utxo_wf (cs_utxo ctx)" using hs(4) u by (simp add: sound_def)
    have "sound C c (cs_utxo w)"
      using post_state_value [OF wf coinbase w] hs(4) emitted_step [OF height] root
      by (simp add: sound_def c u)
    then show ?thesis using chain replayed walk [OF hs(1)] hs(2) True b' unfolding grounded_def s1_def [symmetric]
      by (intro exI [of _ "h # hs"] exI [of _ "cs_utxo w"]) simp
  qed
qed

subsection \<open>Committing a block\<close>

lemma chain_inv_cong:
  assumes "same_blocks s t" "dag_consensus_mode (cs_dag s) = dag_consensus_mode (cs_dag t)"
    and "dag_selected_chain (cs_dag s) = dag_selected_chain (cs_dag t)" "cs_utxo s = cs_utxo t"
  shows "chain_inv C tx g s \<longleftrightarrow> chain_inv C tx g t"
proof -
  have "dag_blocks (cs_dag s) = dag_blocks (cs_dag t)" "dag_tips (cs_dag s) = dag_tips (cs_dag t)"
    "dag_genesis_hash (cs_dag s) = dag_genesis_hash (cs_dag t)" using assms(1) by (simp_all add: same_blocks_def)
  then show ?thesis
    unfolding chain_inv_def assms(2,3,4) grounded_cong [OF assms(1)] replay_cong [OF assms(1)]
      preferred_tip_cong [OF assms(1)] rebuild_chain_cong [OF assms(1)] by simp
qed

text \<open>Replaying a selected chain cannot fail where the ledger of its tip is known.\<close>

lemma replay_legacy_rebuild:
  "replay s hs (cs_utxo r) = Some u \<Longrightarrow> \<exists>r'. legacy_rebuild_loop s hs r = Inr r' \<and> cs_utxo r' = u"
proof (induction hs arbitrary: r)
  case (Cons h hs)
  show ?case
  proof (cases "h = dag_genesis_hash (cs_dag s)")
    case True
    with Cons show ?thesis by simp
  next
    case False
    then obtain b v where b: "lookup (dag_blocks (cs_dag s)) h = Some b"
      and v: "utxo_txs (b_transactions b) (h_height (b_header b)) (cs_utxo r) = Some v" and rest: "replay s hs v = Some u"
      using Cons.prems by (auto split: Option.bind_splits)
    obtain r1 where r1: "apply_transactions (b_transactions b) r (h_height (b_header b)) = (r1, Inr ())" "cs_utxo r1 = v"
      using v unfolding utxo_txs_Some by blast
    show ?thesis using False b r1 rest Cons.IH [of "refresh_selected_chain (accept_block_to_dag_metadata b r1)"] by simp
  qed
qed simp

lemma init_chain_state_parts:
  assumes "genesis_transaction C = Inr tx" "genesis_block C = Inr g"
  obtains r where "init_chain_state C chain = Inr r" "cs_utxo r = genesis_utxo tx"
  using assms by (simp add: init_chain_state_def Let_def)

lemma commit_legacy_keeps:
  assumes inv: "chain_inv C tx g s" and tx: "genesis_transaction C = Inr tx" and g: "genesis_block C = Inr g"
    and valid: "validate_block C H now mf b s = Some (Inr ())"
  obtains s' where "commit_legacy C b s = (s', Inr ())" "chain_inv C tx g s'"
    "dag_blocks (cs_dag s') = dag_blocks (cs_dag (accept_block_to_dag_metadata b s))"
proof -
  define s1 where "s1 = legacy_metadata b s"
  have mode: "dag_consensus_mode (cs_dag s) = Legacy" using inv by (simp add: chain_inv_def)
  have same: "same_blocks s1 (accept_block_to_dag_metadata b s)" unfolding s1_def by (rule legacy_metadata_blocks)
  obtain c where c: "lookup (dag_blocks (cs_dag s1)) = (map_of (dag_blocks (cs_dag s)))(b_hash b \<mapsto> c)"
    "set (dag_tips (cs_dag s1)) \<subseteq> insert (b_hash b) (set (dag_tips (cs_dag s)))" "dag_tips (cs_dag s1) \<noteq> []"
    using accept_parts [OF mode, of b] same unfolding same_blocks_def by metis
  have tips: "\<forall>t \<in> set (dag_tips (cs_dag s1)). contains_key (dag_blocks (cs_dag s1)) t"
    using c(2) inv by (auto simp: c(1) chain_inv_def)
  have gen: "dag_genesis_hash (cs_dag s1) = b_hash g" using inv same by (simp add: same_blocks_def chain_inv_def)
  have known: "grounded C (genesis_utxo tx) s1 h b'" if "lookup (dag_blocks (cs_dag s1)) h = Some b'" for h b'
    unfolding grounded_cong [OF same] using accepted_block_grounded [OF inv tx g valid] that same by (simp add: same_blocks_def)
  obtain t where t: "preferred_tip_hash s1 = Some t" "contains_key (dag_blocks (cs_dag s1)) t"
    using preferred_tip_known [OF c(3) tips] by metis
  then obtain hs u where hs: "chain_from s1 (Some t) hs" "distinct hs" "replay s1 (rev hs) (genesis_utxo tx) = Some u"
    using known unfolding grounded_def by blast
  have chain: "dag_selected_chain (cs_dag s1) = rev hs"
    using legacy_metadata_chain [of b s] rebuild_chain_from [OF hs(1,2)] t(1) by (simp add: s1_def)
  obtain r0 where r0: "init_chain_state C (cs_chain_id s1) = Inr r0" "cs_utxo r0 = genesis_utxo tx"
    using init_chain_state_parts [OF tx g] by metis
  obtain r where r: "legacy_rebuild_loop s1 (rev hs) (with_modes_of s1 r0) = Inr r" "cs_utxo r = u"
    using replay_legacy_rebuild [of s1 "rev hs" "with_modes_of s1 r0" u] hs(3) r0(2) by auto
  define s' where "s' = set_state_root (ok (compute_state_root C (cs_utxo r))) (s1\<lparr>cs_utxo := cs_utxo r\<rparr>)"
  have full: "contains_key (dag_blocks (cs_dag s)) (dag_genesis_hash (cs_dag s))" using inv by (simp add: chain_inv_def)
  have "commit_legacy C b s = (s', Inr ())"
    using full unfolding commit_legacy_def Let_def s1_def [symmetric] chain r0(1) s'_def by (auto simp: r(1))
  moreover have "chain_inv C tx g (s1\<lparr>cs_utxo := u\<rparr>)"
  proof -
    have s1u: "same_blocks (s1\<lparr>cs_utxo := u\<rparr>) s1" by (simp add: same_blocks_def)
    have "contains_key (dag_blocks (cs_dag s1)) (b_hash g)" using inv by (auto simp: chain_inv_def c(1))
    then show ?thesis
      unfolding chain_inv_def grounded_cong [OF s1u] replay_cong [OF s1u] preferred_tip_cong [OF s1u] rebuild_chain_cong [OF s1u]
      using c(3) tips gen known hs(3) chain legacy_metadata_chain [of b s] legacy_metadata_blocks(2) [of b s] mode by (simp add: s1_def)
  qed
  moreover have "chain_inv C tx g s' \<longleftrightarrow> chain_inv C tx g (s1\<lparr>cs_utxo := u\<rparr>)"
    by (rule chain_inv_cong) (simp_all add: s'_def set_state_root_def r(2) same_blocks_def)
  moreover have "dag_blocks (cs_dag s') = dag_blocks (cs_dag (accept_block_to_dag_metadata b s))"
    using same by (simp add: s'_def set_state_root_def same_blocks_def)
  ultimately show thesis using that by blast
qed

subsection \<open>The mempool after a block\<close>

text \<open>\<open>same_ledger s t\<close>: the states differ only outside the DAG and the UTXO set.\<close>

definition same_ledger :: "ChainState \<Rightarrow> ChainState \<Rightarrow> bool" where
  "same_ledger s t \<longleftrightarrow> cs_dag t = cs_dag s \<and> cs_utxo t = cs_utxo s"

lemma same_ledger_trans [trans]: "same_ledger s t \<Longrightarrow> same_ledger t u \<Longrightarrow> same_ledger s u"
  by (simp add: same_ledger_def)

lemma same_ledger_parts [simp]:
  "same_ledger s s" "same_ledger s (s\<lparr>cs_mempool := m\<rparr>)" "same_ledger s (rebuild_spent_outpoints s)" "same_ledger s (count_evicted n s)"
  "same_ledger s (fst (remove_live_package s roots))" "same_ledger s (fst (prune_expired_mempool s h a))"
  "same_ledger s (fst (seed_admission_heights s))"
  by (simp_all add: same_ledger_def rebuild_spent_outpoints_def count_evicted_def remove_live_package_def
      prune_expired_mempool_def seed_admission_heights_def case_prod_beta Let_def)

lemma evict_loop_ledger: "same_ledger s (fst (evict_loop s r))"
proof (induction s r rule: evict_loop.induct)
  case (1 s r)
  show ?case
  proof (cases "over_caps (cs_mempool s) \<and> lowest_live_resource_victim s \<noteq> None")
    case True
    then obtain v where v: "lowest_live_resource_victim s = Some v" by blast
    obtain t x where t: "remove_live_package s [v] = (t, x)" by (metis surj_pair)
    then have st: "same_ledger s t" using same_ledger_parts(5) [of s "[v]"] by simp
    have "same_ledger s (fst (evict_loop (count_evicted (length x) t) (r @ x)))" if "x \<noteq> []"
      using 1 [OF _ v t [symmetric] refl that] True same_ledger_trans [OF st same_ledger_trans [OF same_ledger_parts(4)]]
      by blast
    then show ?thesis using st True v t by (subst evict_loop.simps) simp
  next
    case False
    then show ?thesis by (subst evict_loop.simps) auto
  qed
qed

lemma limit_live_ledger: "same_ledger s (fst (limit_live C J s))"
proof -
  obtain s1 e where 1: "prune_expired_mempool s (mempool_logical_clock s) (rs_live_max_age_blocks resource_default) = (s1, e)"
    by (metis surj_pair)
  obtain s2 x where 2: "remove_live_package s1 (oversized_roots C J s1) = (s2, x)" by (metis surj_pair)
  define s3 where "s3 = (if x \<noteq> [] then count_evicted (length x) s2 else s2)"
  have "same_ledger s s1" using same_ledger_parts(6) 1 by (metis fst_conv)
  also have "same_ledger s1 s2" using same_ledger_parts(5) 2 by (metis fst_conv)
  also have "same_ledger s2 s3" by (simp add: s3_def)
  also have "same_ledger s3 (rebuild_spent_outpoints s3)" by simp
  also have "same_ledger (rebuild_spent_outpoints s3) (fst (evict_loop (rebuild_spent_outpoints s3) (er_expired_txids e @ x)))"
    by (rule evict_loop_ledger)
  finally show ?thesis by (auto simp: limit_live_def 1 2 s3_def [symmetric] Let_def split: prod.split)
qed

lemma normalize_ledger: "same_ledger s (fst (normalize_production_mempool_resources_v1 C J s))"
proof -
  obtain s1 a b where 1: "seed_admission_heights s = (s1, a, b)" by (metis prod_cases3)
  obtain s2 el rl where 2: "limit_live C J s1 = (s2, el, rl)" by (metis prod_cases3)
  have "same_ledger s s1" using same_ledger_parts(7) 1 by (metis fst_conv)
  also have "same_ledger s1 s2" using limit_live_ledger 2 by (metis fst_conv)
  also have "same_ledger s2 (s2\<lparr>cs_mempool := m\<rparr>)" for m by simp
  finally show ?thesis by (simp add: normalize_production_mempool_resources_v1_def 1 2 Let_def split: prod.split)
qed

lemma reconcile_ledger: "same_ledger s (fst (reconcile_mempool C s))"
  by (simp add: reconcile_mempool_def Let_def split: prod.split)

lemma chain_inv_ledger: "same_ledger s t \<Longrightarrow> chain_inv C tx g t \<longleftrightarrow> chain_inv C tx g s"
  by (intro chain_inv_cong) (simp_all add: same_blocks_def same_ledger_def)

section \<open>Reachable states\<close>

text \<open>
  The node's states: the genesis state, what \<open>apply_block\<close> leaves (on success and on failure) for any block,
  clock and retarget bound, and any change of the mempool.
\<close>

inductive reachable :: "crypto \<Rightarrow> (bytes \<Rightarrow> u64 \<Rightarrow> bytes) \<Rightarrow> json \<Rightarrow> ChainState \<Rightarrow> bool" for C H J where
  genesis: "init_chain_state C chain_id = Inr s \<Longrightarrow> reachable C H J s"
| block: "reachable C H J s \<Longrightarrow> apply_block C H J now max_future b s = Some (s', r) \<Longrightarrow> reachable C H J s'"
| mempool: "reachable C H J s \<Longrightarrow> reachable C H J (s\<lparr>cs_mempool := m\<rparr>)"

lemma genesis_sound:
  assumes tx: "genesis_transaction C = Inr tx" and g: "genesis_block C = Inr g"
  shows "sound C g (genesis_utxo tx)"
proof -
  have "compute_state_root C (genesis_utxo tx) = Inr (h_state_root (b_header g))"
    using assms by (auto simp: genesis_block_def result_simps Let_def)
  then show ?thesis by (simp add: sound_def genesis_utxo_wf genesis_value)
qed

lemma chain_inv_init:
  assumes tx: "genesis_transaction C = Inr tx" and g: "genesis_block C = Inr g" and s: "init_chain_state C chain = Inr s"
  shows "chain_inv C tx g s"
proof -
  define h where "h = b_hash g"
  have parts: "dag_blocks (cs_dag s) = [(h, g)]" "dag_tips (cs_dag s) = [h]" "dag_genesis_hash (cs_dag s) = h"
    "dag_selected_parents (cs_dag s) = [(h, None)]" "dag_selected_chain (cs_dag s) = [h]"
    "dag_consensus_mode (cs_dag s) = Legacy" "cs_utxo s = genesis_utxo tx"
    using s tx g by (auto simp: init_chain_state_def Let_def h_def)
  have walk: "chain_from s (Some h) [h]" by (simp add: parts)
  have tip: "preferred_tip_hash s = Some h"
    using preferred_tip_known [of s] by (metis (mono_tags) parts(1,2) list.distinct(1) list.set_intros(1) map_of_Cons_code option.distinct(1)
        option.inject empty_iff insert_iff list.set(1,2))
  have "rebuild_selected_chain_from_tip s (Some h) = [h]" using rebuild_chain_from [OF walk] by simp
  moreover have "grounded C (genesis_utxo tx) s h g"
    unfolding grounded_def using walk genesis_sound [OF tx g] by (intro exI [of _ "[h]"]) (simp add: parts)
  ultimately show ?thesis unfolding chain_inv_def tip by (auto simp: parts h_def [symmetric])
qed

lemma apply_block_valid:
  assumes inv: "chain_inv C tx g s" and tx: "genesis_transaction C = Inr tx" and g: "genesis_block C = Inr g"
    and valid: "validate_block C H now mf b s = Some (Inr ())"
  obtains s' where "apply_block C H J now mf b s = Some (s', Inr ())" "chain_inv C tx g s'"
    "dag_blocks (cs_dag s') = dag_blocks (cs_dag (accept_block_to_dag_metadata b s))"
proof -
  obtain s1 where s1: "commit_legacy C b s = (s1, Inr ())" "chain_inv C tx g s1"
    "dag_blocks (cs_dag s1) = dag_blocks (cs_dag (accept_block_to_dag_metadata b s))"
    by (rule commit_legacy_keeps [OF assms])
  define s' where "s' = fst (normalize_production_mempool_resources_v1 C J (fst (reconcile_mempool C s1)))"
  have same: "same_ledger s1 s'"
    unfolding s'_def by (rule same_ledger_trans [OF reconcile_ledger normalize_ledger])
  have "dag_consensus_mode (cs_dag s) \<noteq> GhostdagDev" using inv by (simp add: chain_inv_def)
  then have "commit_block_to_state C b s = (fst (reconcile_mempool C s1), Inr ())"
    by (simp add: commit_block_to_state_def s1(1))
  then have "apply_block C H J now mf b s = Some (s', Inr ())"
    by (simp add: apply_block_def prepare_block_state_def valid s'_def)
  moreover have "chain_inv C tx g s'" using chain_inv_ledger [OF same] s1(2) by simp
  ultimately show thesis using that s1(3) same by (simp add: same_ledger_def)
qed

lemma apply_block_rejected:
  "validate_block C H now mf b s = Some (Inl e) \<Longrightarrow> apply_block C H J now mf b s = Some (s, Inl e)"
  by (simp add: apply_block_def prepare_block_state_def)

lemma reachable_inv:
  assumes "reachable C H J s"
  obtains tx g where "genesis_transaction C = Inr tx" "genesis_block C = Inr g" "chain_inv C tx g s"
proof -
  have "\<exists>tx g. genesis_transaction C = Inr tx \<and> genesis_block C = Inr g \<and> chain_inv C tx g s" using assms
  proof induction
    case (genesis chain s)
    then obtain tx g where "genesis_transaction C = Inr tx" "genesis_block C = Inr g"
      by (auto simp: init_chain_state_def result_simps)
    with genesis show ?case using chain_inv_init by blast
  next
    case (block s now mf b s' r)
    then obtain tx g where i: "genesis_transaction C = Inr tx" "genesis_block C = Inr g" "chain_inv C tx g s" by blast
    obtain v where v: "validate_block C H now mf b s = Some v"
      using block(2) by (auto simp: apply_block_def prepare_block_state_def)
    show ?case
    proof (cases v)
      case (Inl e)
      then have "s' = s" using apply_block_rejected v block(2) by fastforce
      with i show ?thesis by blast
    next
      case (Inr u)
      then obtain t where "apply_block C H J now mf b s = Some (t, Inr ())" "chain_inv C tx g t"
        using apply_block_valid [OF i(3,1,2), of H now mf b J] v by auto
      with i block(2) show ?thesis by auto
    qed
  next
    case (mempool s m)
    then show ?case using chain_inv_ledger [of s "s\<lparr>cs_mempool := m\<rparr>"] by (auto simp: same_ledger_def)
  qed
  then show thesis using that by blast
qed

lemma recent_blocks_loop_chain:
  "chain_from s c hs \<Longrightarrow> recent_blocks_loop s limit c recent saw \<noteq> None"
proof (induction hs arbitrary: c recent saw)
  case Nil
  then show ?case by (simp add: recent_blocks_loop.simps)
next
  case (Cons h hs)
  then obtain b p where "c = Some h" "lookup (dag_blocks (cs_dag s)) h = Some b" "selected_parent_of s h = p" "chain_from s p hs"
    by (auto simp: selected_parent_of_def split: option.splits)
  with Cons.IH show ?case by (subst recent_blocks_loop.simps) auto
qed

lemma validate_block_returns:
  assumes inv: "chain_inv C tx g s"
  shows "validate_block C H now mf b s \<noteq> None"
proof (cases "validate_block_parents now mf b s")
  case (Inl e)
  then show ?thesis by (simp add: validate_block_def)
next
  case (Inr r)
  then obtain p nt where p: "validate_block_parents now mf b s = Inr (p, nt)" by (cases r) simp
  have "max_known_parent b s = Some p"
    using p inv by (auto simp: validate_block_parents_def Let_def result_simps selected_parent_for_state_validation_def
        ghostdag_metadata_active_def chain_inv_def split: if_splits)
  then obtain pb where "lookup (dag_blocks (cs_dag s)) p = Some pb" using max_known_parent_Some(2) by blast
  then obtain hs where "chain_from s (Some p) hs" using inv unfolding chain_inv_def grounded_def by blast
  then have "expected_difficulty_for_parent s p \<noteq> None"
    using recent_blocks_loop_chain by (simp add: expected_difficulty_for_parent_def consensus_recent_blocks_from_parent_def)
  then show ?thesis by (auto simp: validate_block_def p)
qed

section \<open>A first block\<close>

text \<open>A digest whose image is one byte of the trailing number keeps the example's hashes one character long.\<close>

lemma nonce_crypto_hash:
  "hex_encode nonce_crypto (sha256 nonce_crypto (p @ to_le_bytes (w :: u64))) = [char_of (unat (to_le_bytes w ! 0))]"
  by (simp add: nonce_crypto_def nth_append)

definition example_genesis_tx :: Transaction where
  "example_genesis_tx = \<lparr>tx_txid = [CHR 0x00], tx_version = 1, tx_inputs = [],
     tx_outputs = [\<lparr>out_address = GENESIS_TREASURY, out_amount = GENESIS_SUPPLY\<rparr>], tx_fee = 0, tx_nonce = 0\<rparr>"

definition example_genesis :: Block where
  "example_genesis = \<lparr>b_hash = [CHR 0x00], b_header = \<lparr>h_version = 1, h_parents = [], h_timestamp = 0,
     h_difficulty = CONSENSUS_POW_LIMIT_BITS, h_nonce = 0,
     h_merkle_root = compute_merkle_root nonce_crypto [example_genesis_tx], h_state_root = [CHR 0x00],
     h_blue_score = 0, h_height = 0\<rparr>, b_transactions = [example_genesis_tx]\<rparr>"

definition example_coinbase :: Transaction where
  "example_coinbase = \<lparr>tx_txid = [CHR 0x01], tx_version = 1, tx_inputs = [],
     tx_outputs = [\<lparr>out_address = ''miner'', out_amount = 50\<rparr>], tx_fee = 0, tx_nonce = 1\<rparr>"

definition example_block :: "u32 \<Rightarrow> Block" where
  "example_block bits = \<lparr>b_hash = [CHR 0x01], b_header = \<lparr>h_version = 1, h_parents = [[CHR 0x00]], h_timestamp = 1,
     h_difficulty = bits, h_nonce = 0,
     h_merkle_root = compute_merkle_root nonce_crypto [example_coinbase], h_state_root = [CHR 0x01],
     h_blue_score = 1, h_height = 1\<rparr>, b_transactions = [example_coinbase]\<rparr>"

definition zero_digest :: "bytes \<Rightarrow> u64 \<Rightarrow> bytes" where
  "zero_digest bs nonce = replicate 32 0"

lemmas example_eval = canonical_transaction_bytes_def encode_counted_def canonical_tx_output_bytes_def
  encode_len_prefixed_str_def encode_len_prefixed_bytes_def try_from_nat_def TX_V1_DOMAIN_def GENESIS_TREASURY_def

lemma le_byte_0: "to_le_bytes (w :: u64) ! 0 = ucast w"
proof -
  have "le_bytes_of (Suc 7) (unat w) ! 0 = ucast w" by simp
  then show ?thesis by (simp add: to_le_bytes_def)
qed

lemma example_txids:
  "compute_txid nonce_crypto (example_genesis_tx\<lparr>tx_txid := x\<rparr>) = Some [CHR 0x00]"
  "compute_txid nonce_crypto (example_coinbase\<lparr>tx_txid := x\<rparr>) = Some [CHR 0x01]"
  using nonce_crypto_txid [of "example_genesis_tx\<lparr>tx_txid := x\<rparr>"] nonce_crypto_txid [of "example_coinbase\<lparr>tx_txid := x\<rparr>"]
  by (simp_all add: example_genesis_tx_def example_coinbase_def example_eval le_byte_0 char_of_def bit_0)

lemma example_genesis_tx: "genesis_transaction nonce_crypto = Inr example_genesis_tx"
  using example_txids(1) [of "[]"]
  by (simp add: genesis_transaction_def example_genesis_tx_def)

lemma nonce_block_hash:
  assumes "header_ok h"
  shows "compute_block_hash nonce_crypto h = Some [char_of (unat (to_le_bytes (h_height h) ! 0))]"
proof -
  obtain p where "header_payload h = p @ to_le_bytes (h_height h)" by (simp add: header_payload_def)
  then show ?thesis using assms nonce_crypto_hash [of p "h_height h"]
    by (simp add: compute_block_hash_def canonical_block_header_bytes_eq)
qed

lemma example_merkle: "length (compute_merkle_root nonce_crypto [tx]) = 1"
  by (simp add: compute_merkle_root_def compute_merkle_root_from_txids_def merkle_loop.simps merkle_leaf_def nonce_crypto_def)

lemma nonce_state_root:
  assumes "utxo_wf u" "sort_key fst (us_utxos u) = xs @ [e]" "length (us_utxos u) < 2 ^ 64"
    and "list_all (\<lambda>e. len32 (op_txid (fst e)) \<and> len32 (u_address (snd e))) (us_utxos u)"
  shows "compute_state_root nonce_crypto u = Inr [char_of (unat (to_le_bytes (u_height (snd e)) ! 0))]"
proof -
  obtain p where "concat (map entry_payload (sort_key fst (us_utxos u))) = p @ to_le_bytes (u_height (snd e))"
    unfolding assms(2) by (cases e) (simp add: entry_payload_def)
  moreover have "validate_deterministic_indexes u = Inr ()" using assms(1) by (simp add: utxo_wf_def validate_indexes_iff)
  ultimately show ?thesis using assms(3,4)
    nonce_crypto_hash [of "prefixed UTXO_STATE_ROOT_DOMAIN @ to_le_bytes (word_of_nat (length (us_utxos u)) :: u64) @ p"]
    by (simp add: compute_state_root_def state_root_bytes_eq)
qed

lemma example_genesis: "genesis_block nonce_crypto = Inr example_genesis"
proof -
  have "compute_state_root nonce_crypto (genesis_utxo example_genesis_tx) = Inr [CHR 0x00]"
    using nonce_state_root [OF genesis_utxo_wf, of example_genesis_tx "[]"]
    by (simp add: genesis_utxo_def Let_def example_genesis_tx_def GENESIS_TREASURY_def len32_def le_byte_0 char_of_def bit_0)
  moreover have "compute_block_hash nonce_crypto (b_header example_genesis) = Some [CHR 0x00]"
    using nonce_block_hash [of "b_header example_genesis"]
    by (simp add: example_genesis_def header_ok_def counted_ok_def len32_def example_merkle le_byte_0 char_of_def bit_0)
  ultimately show ?thesis
    by (simp add: genesis_block_def example_genesis_tx example_genesis_def Let_def)
qed

definition example_state :: ChainState where
  "example_state = (case init_chain_state nonce_crypto ''pulse'' of Inr s \<Rightarrow> s | Inl _ \<Rightarrow> blank_state)"

lemma example_init: "init_chain_state nonce_crypto ''pulse'' = Inr example_state"
  by (simp add: example_state_def init_chain_state_def example_genesis example_genesis_tx Let_def)

lemma example_dag:
  "dag_blocks (cs_dag example_state) = [([CHR 0x00], example_genesis)]" "dag_tips (cs_dag example_state) = [[CHR 0x00]]"
  "dag_consensus_mode (cs_dag example_state) = Legacy" "cs_utxo example_state = genesis_utxo example_genesis_tx"
  "dag_selected_parents (cs_dag example_state) = [([CHR 0x00], None)]"
  "dag_selected_parent_policy (cs_dag example_state) = LegacyTip"
  by (simp_all add: example_state_def init_chain_state_def example_genesis example_genesis_tx Let_def) (simp_all add: example_genesis_def)

lemma example_parent: "max_known_parent (example_block bits) example_state = Some [CHR 0x00]"
  "selected_parent_for_state_validation (example_block bits) example_state = Some [CHR 0x00]"
proof -
  show p: "max_known_parent (example_block bits) example_state = Some [CHR 0x00]"
    by (simp add: max_known_parent_def example_dag example_block_def)
  then show "selected_parent_for_state_validation (example_block bits) example_state = Some [CHR 0x00]"
    by (simp add: selected_parent_for_state_validation_def ghostdag_metadata_active_def example_dag)
qed

lemma example_parents: "validate_block_parents 1 0 (example_block bits) example_state = Inr ([CHR 0x00], 0)"
  unfolding validate_block_parents_def example_parent(2)
  by (simp add: example_dag Let_def) (simp add: example_block_def example_genesis_def saturating_add_def)

lemma example_reward: "validate_coinbase_reward (example_block bits) = Inr ()"
proof -
  have "block_subsidy 1 = 50" by (rule word_eqI_unat) (simp add: unat_block_subsidy)
  then show ?thesis
    by (simp add: validate_coinbase_reward_def example_block_def example_coinbase_def transaction_output_sum_def
        total_block_fees_def checked_add_def)
qed

lemma example_context: "parent_state_context nonce_crypto (example_block bits) example_state = Inr (clear_mempool example_state)"
proof -
  have "preferred_tip_hash example_state = Some [CHR 0x00]"
    by (simp add: preferred_tip_hash_def sorted_tip_hashes_def sorted_tip_hashes_with_policy_def known_blocks_def
        example_dag sort_by_def first_of_def List.map_filter_def)
  then show ?thesis by (simp add: parent_state_context_def example_parent example_dag)
qed

lemma example_post:
  obtains w where "post_state nonce_crypto (example_block bits) (clear_mempool example_state) = Inr w"
    "compute_state_root nonce_crypto (cs_utxo w) = Inr [CHR 0x01]"
proof -
  define c where "c = clear_mempool (clear_mempool example_state)"
  define w where "w = fst (apply_transaction example_coinbase c 1)"
  have c: "cs_utxo c = genesis_utxo example_genesis_tx" by (simp add: c_def clear_mempool_def example_dag)
  define u where "u = \<lparr>u_outpoint = OutPoint [CHR 0x01] 0, u_address = ''miner'', u_amount = 50, u_coinbase = True, u_height = (1 :: u64)\<rparr>"
  have w: "us_utxos (cs_utxo w) = us_utxos (genesis_utxo example_genesis_tx) @ [(OutPoint [CHR 0x01] 0, u)]"
    "snd (apply_transaction example_coinbase c 1) = Inr ()"
    by (simp_all add: w_def u_def c apply_transaction_def example_coinbase_def created_outpoints.simps insert_output_def or_default_def
        confirm_in_mempool_def is_coinbase_def Let_def genesis_utxo_def example_genesis_tx_def GENESIS_TREASURY_def)
  have post: "post_state nonce_crypto (example_block bits) (clear_mempool example_state) = Inr w"
    using w(2) by (cases "apply_transaction example_coinbase c 1") (simp add: post_state_def example_block_def c_def w_def)
  have wf: "utxo_wf (cs_utxo w)"
    by (rule post_state_value(1) [OF _ _ example_reward post])
      (simp_all add: clear_mempool_def example_dag genesis_utxo_wf validate_coinbase_position_def example_block_def is_coinbase_def example_coinbase_def)
  have "sort_key fst (us_utxos (cs_utxo w)) = us_utxos (genesis_utxo example_genesis_tx) @ [(OutPoint [CHR 0x01] 0, u)]"
    unfolding w(1) by (simp add: genesis_utxo_def example_genesis_tx_def Let_def less_eq_OutPoint_def less_list_code)
  from nonce_state_root [OF wf this] have "compute_state_root nonce_crypto (cs_utxo w) = Inr [CHR 0x01]"
    by (simp add: w(1) u_def genesis_utxo_def example_genesis_tx_def Let_def len32_def GENESIS_TREASURY_def le_byte_0 char_of_def bit_0)
  with post show thesis by (rule that)
qed

lemma example_valid:
  obtains bits where "validate_block nonce_crypto zero_digest 1 0 (example_block bits) example_state = Some (Inr ())"
proof -
  have "expected_difficulty_for_parent example_state [CHR 0x00] \<noteq> None \<and> expected_difficulty_for_parent example_state [CHR 0x00] \<noteq> Some None"
    by (simp add: expected_difficulty_for_parent_def consensus_recent_blocks_from_parent_def recent_blocks_loop.simps
        selected_parent_of_def example_dag) auto
  then obtain bits where bits: "expected_difficulty_for_parent example_state [CHR 0x00] = Some (Some bits)" by auto
  have pow: "validate_pow_header nonce_crypto zero_digest (b_header (example_block bits)) = Inr ()"
  proof -
    have "encodable (b_header (example_block bits))" by (simp add: encodable_def example_block_def example_merkle)
    then have "validate_pow_preimage_encoding (b_header (example_block bits)) = Inr ()"
      using validate_encoding_Inr [of _ "()"] by blast
    then show ?thesis
      by (subst validate_pow_header_cases) (simp_all add: zero_digest_def meets_target_def)
  qed
  have hash: "compute_block_hash nonce_crypto (b_header (example_block bits)) = Some [CHR 0x01]"
    using nonce_block_hash [of "b_header (example_block bits)"]
    by (simp add: example_block_def header_ok_def counted_ok_def len32_def example_merkle le_byte_0 char_of_def bit_0)
  have txid: "check_txids nonce_crypto (b_transactions (example_block bits)) = Inr ()"
    using example_txids(2) [of "[CHR 0x01]"] by (simp add: example_block_def example_coinbase_def)
  have created: "validate_created_utxo_outpoints (example_block bits) (clear_mempool example_state) = Inr ()"
    by (simp add: validate_created_utxo_outpoints_def clear_mempool_def example_dag genesis_utxo_def Let_def
        example_block_def example_coinbase_def example_genesis_tx_def)
  obtain w where "post_state nonce_crypto (example_block bits) (clear_mempool example_state) = Inr w"
    "compute_state_root nonce_crypto (cs_utxo w) = Inr [CHR 0x01]" by (rule example_post)
  then have root: "compute_post_state_root nonce_crypto (example_block bits) (clear_mempool example_state) = Inr [CHR 0x01]"
    by (simp add: compute_post_state_root_def)
  have fields: "h_difficulty (b_header (example_block bits)) = bits" "h_timestamp (b_header (example_block bits)) = 1"
    "b_hash (example_block bits) = [CHR 0x01]" "h_state_root (b_header (example_block bits)) = [CHR 0x01]"
    "b_transactions (example_block bits) = [example_coinbase]"
    "h_merkle_root (b_header (example_block bits)) = compute_merkle_root nonce_crypto [example_coinbase]"
    "validate_coinbase_position (example_block bits) = Inr ()"
    by (simp_all add: example_block_def validate_coinbase_position_def is_coinbase_def example_coinbase_def)
  have "validate_block_body nonce_crypto zero_digest (example_block bits) example_state bits 0 = Inr ()"
    unfolding validate_block_body_def Let_def
    using pow hash txid created root fields example_context [of bits] example_reward [of bits] by simp
  then have "validate_block nonce_crypto zero_digest 1 0 (example_block bits) example_state = Some (Inr ())"
    by (simp add: validate_block_def example_parents bits)
  then show thesis by (rule that)
qed

section \<open>Properties\<close>

text \<open>
  C1. The live ledger of a node, in every state that blocks can bring it to from genesis under the legacy
  consensus mode, whatever the hash function and whatever blocks are offered: the preferred tip is a known
  block and the last block of the selected chain; the UTXO set is the one its header commits to by
  \<open>state_root\<close>, its indexes are consistent, it is what replaying the selected chain's blocks from genesis
  gives, and its total value is at most the genesis supply plus the subsidies up to the tip's height, so
  never more than 1,020,370,000 units.
\<close>

theorem reachable_ledger_committed:
  assumes "reachable C H J s"
  shows "\<exists>t b tx. preferred_tip_hash s = Some t \<and> last_of (dag_selected_chain (cs_dag s)) = Some t
    \<and> lookup (dag_blocks (cs_dag s)) t = Some b
    \<and> compute_state_root C (cs_utxo s) = Inr (h_state_root (b_header b))
    \<and> utxo_wf (cs_utxo s)
    \<and> genesis_transaction C = Inr tx
    \<and> replay s (dag_selected_chain (cs_dag s)) (genesis_utxo tx) = Some (cs_utxo s)
    \<and> total_value (us_utxos (cs_utxo s)) \<le> 1000000000 + (\<Sum>h \<le> unat (h_height (b_header b)). 50 div 2 ^ (h div 210000))
    \<and> total_value (us_utxos (cs_utxo s)) \<le> 1020370000"
proof -
  obtain tx g where i: "genesis_transaction C = Inr tx" "chain_inv C tx g s" using reachable_inv [OF assms] by metis
  obtain t b where t: "preferred_tip_hash s = Some t" "last_of (dag_selected_chain (cs_dag s)) = Some t"
    "lookup (dag_blocks (cs_dag s)) t = Some b" "sound C b (cs_utxo s)" by (rule chain_inv_live [OF i(2)])
  have "replay s (dag_selected_chain (cs_dag s)) (genesis_utxo tx) = Some (cs_utxo s)" using i(2) unfolding chain_inv_def by metis
  with i(1) t show ?thesis using emitted_le [of "unat (h_height (b_header b))"]
    by (intro exI [of _ t] exI [of _ b] exI [of _ tx]) (simp add: sound_def emitted_def)
qed

theorem reachable_ledger_committed_witness:
  "\<exists>bits s'. apply_block nonce_crypto zero_digest (\<lambda>_ _. Inr []) 1 0 (example_block bits) example_state = Some (s', Inr ())
    \<and> (\<exists>t b. preferred_tip_hash s' = Some t \<and> lookup (dag_blocks (cs_dag s')) t = Some b
        \<and> compute_state_root nonce_crypto (cs_utxo s') = Inr (h_state_root (b_header b)))
    \<and> total_value (us_utxos (cs_utxo s')) \<le> 1020370000"
proof -
  obtain bits where v: "validate_block nonce_crypto zero_digest 1 0 (example_block bits) example_state = Some (Inr ())"
    by (rule example_valid)
  have r: "reachable nonce_crypto zero_digest (\<lambda>_ _. Inr []) example_state" by (rule genesis [OF example_init])
  obtain s' where s': "apply_block nonce_crypto zero_digest (\<lambda>_ _. Inr []) 1 0 (example_block bits) example_state = Some (s', Inr ())"
    using apply_block_valid [OF chain_inv_init [OF example_genesis_tx example_genesis example_init]
        example_genesis_tx example_genesis v] by metis
  show ?thesis using s' reachable_ledger_committed [OF block [OF r s']] by blast
qed

text \<open>
  C2. Applying a block to a reachable state is all or nothing, and only validation can refuse it. Validation
  always returns a verdict. When it reports an error the result is that error and the state is returned
  unchanged; when it accepts, the block is new and the commit cannot fail: the replay of the new selected
  chain, the mempool reconciliation and the resource limits all go through, the block is stored under its
  hash with its transactions, height and state root, and every block known before is still there unchanged.
\<close>

theorem apply_block_atomic:
  assumes "reachable C H J s"
  shows "\<exists>verdict. validate_block C H now max_future b s = Some verdict \<and> (case verdict of
      Inl e \<Rightarrow> apply_block C H J now max_future b s = Some (s, Inl e)
    | Inr _ \<Rightarrow> \<not> contains_key (dag_blocks (cs_dag s)) (b_hash b)
        \<and> (\<exists>s' b'. apply_block C H J now max_future b s = Some (s', Inr ())
            \<and> lookup (dag_blocks (cs_dag s')) = (map_of (dag_blocks (cs_dag s)))(b_hash b \<mapsto> b')
            \<and> b_transactions b' = b_transactions b \<and> h_height (b_header b') = h_height (b_header b)
            \<and> h_state_root (b_header b') = h_state_root (b_header b)))"
proof -
  obtain tx g where i: "genesis_transaction C = Inr tx" "genesis_block C = Inr g" "chain_inv C tx g s"
    by (rule reachable_inv [OF assms])
  obtain v where v: "validate_block C H now max_future b s = Some v" using validate_block_returns [OF i(3)] by blast
  show ?thesis
  proof (cases v)
    case (Inl e)
    then show ?thesis using v apply_block_rejected by simp
  next
    case (Inr u)
    then have valid: "validate_block C H now max_future b s = Some (Inr ())" using v by simp
    have mode: "dag_consensus_mode (cs_dag s) = Legacy" using i(3) by (simp add: chain_inv_def)
    have "\<not> contains_key (dag_blocks (cs_dag s)) (b_hash b)" by (rule validate_block_guarantees [OF valid mode])
    moreover obtain s' where "apply_block C H J now max_future b s = Some (s', Inr ())"
      "dag_blocks (cs_dag s') = dag_blocks (cs_dag (accept_block_to_dag_metadata b s))"
      using apply_block_valid [OF i(3,1,2) valid] by metis
    moreover obtain b' where "lookup (dag_blocks (cs_dag (accept_block_to_dag_metadata b s))) = (map_of (dag_blocks (cs_dag s)))(b_hash b \<mapsto> b')"
      "b_transactions b' = b_transactions b" "h_height (b_header b') = h_height (b_header b)"
      "h_state_root (b_header b') = h_state_root (b_header b)"
      by (rule accept_parts [OF mode])
    ultimately have "\<exists>s' b'. apply_block C H J now max_future b s = Some (s', Inr ())
      \<and> lookup (dag_blocks (cs_dag s')) = (map_of (dag_blocks (cs_dag s)))(b_hash b \<mapsto> b')
      \<and> b_transactions b' = b_transactions b \<and> h_height (b_header b') = h_height (b_header b)
      \<and> h_state_root (b_header b') = h_state_root (b_header b)" "\<not> contains_key (dag_blocks (cs_dag s)) (b_hash b)" by metis+
    with valid show ?thesis by simp
  qed
qed

theorem apply_block_atomic_witness:
  "\<exists>bits s' b'. apply_block nonce_crypto zero_digest (\<lambda>_ _. Inr []) 1 0 (example_block bits) example_state = Some (s', Inr ())
    \<and> lookup (dag_blocks (cs_dag s')) [CHR 0x01] = Some b' \<and> b_transactions b' = [example_coinbase]
    \<and> apply_block nonce_crypto zero_digest (\<lambda>_ _. Inr []) 1 0 example_genesis example_state
      = Some (example_state, Inl BlockAlreadyExists)"
proof -
  obtain bits where v: "validate_block nonce_crypto zero_digest 1 0 (example_block bits) example_state = Some (Inr ())"
    by (rule example_valid)
  have r: "reachable nonce_crypto zero_digest (\<lambda>_ _. Inr []) example_state" by (rule genesis [OF example_init])
  have "validate_block nonce_crypto zero_digest 1 0 example_genesis example_state = Some (Inl BlockAlreadyExists)"
    by (simp add: validate_block_def validate_block_parents_def example_dag example_genesis_def Let_def)
  with apply_block_atomic [OF r, of 1 0 example_genesis]
  have no: "apply_block nonce_crypto zero_digest (\<lambda>_ _. Inr []) 1 0 example_genesis example_state = Some (example_state, Inl BlockAlreadyExists)"
    by simp
  have fields: "b_hash (example_block bits) = [CHR 0x01]" "b_transactions (example_block bits) = [example_coinbase]"
    by (simp_all add: example_block_def)
  obtain s' b' where "apply_block nonce_crypto zero_digest (\<lambda>_ _. Inr []) 1 0 (example_block bits) example_state = Some (s', Inr ())"
    "lookup (dag_blocks (cs_dag s')) = (map_of (dag_blocks (cs_dag example_state)))([CHR 0x01] \<mapsto> b')" "b_transactions b' = [example_coinbase]"
    using apply_block_atomic [OF r, of 1 0 "example_block bits"] v fields by auto
  then show ?thesis using no by (intro exI [of _ bits] exI [of _ s'] exI [of _ b']) simp
qed

end
