(* ===== verification/Pulse_Replay.thy ===== *)
theory Pulse_Replay
  imports Pulse_Chain
begin

text \<open>
  The chain-bound protocol of version 2: header encodings (\<open>header_v2.rs\<close>), the version 2 and zero-allocation
  version 3 genesis states (\<open>genesis_v2.rs\<close>, \<open>genesis_v3.rs\<close>), and the authoritative replay of the reserved
  DAG order with its snapshots (\<open>state_replay_v2.rs\<close>).  The \<open>Debug\<close> text of an ordering error, which the
  compiler derives, is an argument \<open>dbg\<close>.
\<close>

section \<open>Operations\<close>

subsection \<open>Headers\<close>

definition BLOCK_HEADER_VERSION_V1 :: u32 where "BLOCK_HEADER_VERSION_V1 = 1"
definition BLOCK_HEADER_VERSION_V2 :: u32 where "BLOCK_HEADER_VERSION_V2 = 2"
definition BLOCK_HEADER_V2_DOMAIN :: bytes where "BLOCK_HEADER_V2_DOMAIN = as_bytes ''PulseDAG:block-header:v2''"

definition canonicalize_block_parents_v2 :: "Hash list \<Rightarrow> PulseError + Hash list" where
  "canonicalize_block_parents_v2 parents =
    (if length parents > GHOSTDAG_V1_MAX_PARENTS then
       Inl (InvalidBlock (''header v2 parent count '' @ format_nat (length parents) @ '' exceeds maximum ''
         @ format_nat GHOSTDAG_V1_MAX_PARENTS))
     else if list_ex (\<lambda>parent. parent = []) parents then Inl (InvalidBlock ''header v2 parent hash must not be empty'')
     else
       let canonical = sort parents
       in if list_ex (\<lambda>(a, b). a = b) (zip canonical (tl canonical)) then
            Inl (InvalidBlock ''header v2 parent hashes must be unique'')
          else Inr canonical)"

definition validate_block_header_v2_shape :: "BlockHeader \<Rightarrow> string \<Rightarrow> PulseError + unit" where
  "validate_block_header_v2_shape header chain_id =
    (if h_version header \<noteq> BLOCK_HEADER_VERSION_V2 then
       Inl (InvalidBlock (''block header v2 serialization requires version ''
         @ format_nat (unat BLOCK_HEADER_VERSION_V2) @ '', got '' @ format_nat (unat (h_version header))))
     else if chain_id = [] then Inl ChainIdMismatch
     else
       rbind (canonicalize_block_parents_v2 (h_parents header)) (\<lambda>canonical_parents.
       if h_height header > 0 \<and> canonical_parents = [] then
         Inl (InvalidBlock ''non-genesis header v2 requires at least one parent'')
       else if canonical_parents \<noteq> h_parents header then
         Inl (InvalidBlock ''header v2 parent vector is not in canonical ascending order'')
       else Inr ()))"

definition canonical_block_header_material_v2 :: "BlockHeader \<Rightarrow> string \<Rightarrow> bool \<Rightarrow> PulseError + bytes" where
  "canonical_block_header_material_v2 header chain_id include_nonce =
    rbind (validate_block_header_v2_shape header chain_id) (\<lambda>_. ok_or length_panic (do {
      dom \<leftarrow> encode_len_prefixed_bytes BLOCK_HEADER_V2_DOMAIN;
      chain \<leftarrow> encode_len_prefixed_str chain_id;
      parents \<leftarrow> encode_string_vec (h_parents header);
      merkle_root \<leftarrow> encode_len_prefixed_str (h_merkle_root header);
      state_root \<leftarrow> encode_len_prefixed_str (h_state_root header);
      Some (dom @ chain @ to_le_bytes (h_version header) @ parents @ to_le_bytes (h_timestamp header)
        @ to_le_bytes (h_difficulty header) @ (if include_nonce then to_le_bytes (h_nonce header) else [])
        @ merkle_root @ state_root @ to_le_bytes (h_blue_score header) @ to_le_bytes (h_height header))
    }))"

definition canonical_block_header_bytes_v2 :: "BlockHeader \<Rightarrow> string \<Rightarrow> PulseError + bytes" where
  "canonical_block_header_bytes_v2 header chain_id = canonical_block_header_material_v2 header chain_id True"

definition canonical_mining_preimage_bytes_v2 :: "BlockHeader \<Rightarrow> string \<Rightarrow> PulseError + bytes" where
  "canonical_mining_preimage_bytes_v2 header chain_id = canonical_block_header_material_v2 header chain_id False"

definition compute_block_hash_v2 :: "crypto \<Rightarrow> BlockHeader \<Rightarrow> string \<Rightarrow> PulseError + Hash" where
  "compute_block_hash_v2 C header chain_id =
    rbind (canonical_block_header_bytes_v2 header chain_id) (\<lambda>bs. Inr (hex_encode C (sha256 C bs)))"

subsection \<open>Genesis states\<close>

definition genesis_transaction_v2 :: "crypto \<Rightarrow> string \<Rightarrow> PulseError + Transaction" where
  "genesis_transaction_v2 C chain_id =
    (if chain_id = [] then Inl ChainIdMismatch
     else
       let tx = \<lparr>tx_txid = [], tx_version = TRANSACTION_VERSION_V2, tx_inputs = [],
         tx_outputs = [\<lparr>out_address = GENESIS_TREASURY, out_amount = GENESIS_SUPPLY\<rparr>], tx_fee = 0, tx_nonce = 0\<rparr>
       in rbind (compute_txid_v2 C tx chain_id) (\<lambda>txid. Inr (tx\<lparr>tx_txid := txid\<rparr>)))"

definition genesis_utxo_state_v2 :: "Transaction \<Rightarrow> UtxoState" where
  "genesis_utxo_state_v2 tx =
    (let outpoint = OutPoint (tx_txid tx) 0;
         utxo = \<lparr>u_outpoint = outpoint, u_address = GENESIS_TREASURY, u_amount = GENESIS_SUPPLY,
           u_coinbase = False, u_height = 0\<rparr>
     in \<lparr>us_utxos = [(outpoint, utxo)], us_address_index = [(GENESIS_TREASURY, [outpoint])]\<rparr>)"

definition genesis_block_v2 :: "crypto \<Rightarrow> string \<Rightarrow> PulseError + Block" where
  "genesis_block_v2 C chain_id =
    rbind (genesis_transaction_v2 C chain_id) (\<lambda>tx.
    rbind (compute_state_root C (genesis_utxo_state_v2 tx)) (\<lambda>state_root.
    let header = \<lparr>h_version = BLOCK_HEADER_VERSION_V2, h_parents = [], h_timestamp = 0,
          h_difficulty = CONSENSUS_POW_LIMIT_BITS, h_nonce = 0, h_merkle_root = compute_merkle_root C [tx],
          h_state_root = state_root, h_blue_score = 0, h_height = 0\<rparr>
    in rbind (compute_block_hash_v2 C header chain_id) (\<lambda>hash.
       Inr \<lparr>b_hash = hash, b_header = header, b_transactions = [tx]\<rparr>)))"

text \<open>The assignments both constructors make over the legacy state.\<close>

definition clean_genesis_state :: "Block \<Rightarrow> UtxoState \<Rightarrow> Hash \<Rightarrow> ChainState \<Rightarrow> ChainState" where
  "clean_genesis_state genesis utxo state_root state =
    (let g = b_hash genesis in
     state\<lparr>cs_dag := (cs_dag state)\<lparr>dag_blocks := [(g, genesis)], dag_tips := [g], dag_children := [],
         dag_genesis_hash := g, dag_best_height := 0, dag_consensus_mode := Legacy,
         dag_selected_parents := [(g, None)], dag_selected_chain := [g],
         dag_selected_parent_policy := GhostdagInspired, dag_merge_set_k := DEFAULT_MERGE_SET_K,
         dag_merge_set_blues := [(g, [])], dag_merge_set_reds := [(g, [])], dag_blue_work := [(g, 0)],
         dag_merge_set_diagnostics := [], dag_ordered_dag := [g],
         dag_ordering_version := GHOSTDAG_V1_ORDERING_VERSION, dag_ordered_dag_rebuild_total := 0,
         dag_ordered_dag_rebuild_failed_total := 0, dag_ordered_dag_state_root := Some state_root,
         dag_ordered_dag_tip := Some g, dag_ordered_dag_conflict_diagnostics := []\<rparr>,
       cs_utxo := utxo, cs_mempool := default_mempool\<rparr>)"

definition init_chain_state_v2 :: "crypto \<Rightarrow> string \<Rightarrow> PulseError + ChainState" where
  "init_chain_state_v2 C chain_id =
    rbind (genesis_block_v2 C chain_id) (\<lambda>genesis.
    let utxo = genesis_utxo_state_v2 (hd (b_transactions genesis)) in
    rbind (compute_state_root C utxo) (\<lambda>state_root.
    rbind (init_chain_state C chain_id) (\<lambda>state.
    Inr (clean_genesis_state genesis utxo state_root state))))"

definition empty_utxo_state :: UtxoState where
  "empty_utxo_state = \<lparr>us_utxos = [], us_address_index = []\<rparr>"

definition genesis_block_v3 :: "crypto \<Rightarrow> string \<Rightarrow> u64 \<Rightarrow> PulseError + Block" where
  "genesis_block_v3 C chain_id frozen_timestamp =
    (if chain_id = [] then Inl ChainIdMismatch
     else if frozen_timestamp = 0 then
       Inl (InvalidBlock ''v3 genesis timestamp must be explicitly frozen and non-zero'')
     else
       rbind (compute_state_root C empty_utxo_state) (\<lambda>state_root.
       let header = \<lparr>h_version = BLOCK_HEADER_VERSION_V2, h_parents = [], h_timestamp = frozen_timestamp,
             h_difficulty = CONSENSUS_POW_LIMIT_BITS, h_nonce = 0, h_merkle_root = compute_merkle_root C [],
             h_state_root = state_root, h_blue_score = 0, h_height = 0\<rparr>
       in rbind (compute_block_hash_v2 C header chain_id) (\<lambda>hash.
          Inr \<lparr>b_hash = hash, b_header = header, b_transactions = []\<rparr>)))"

definition init_chain_state_v3 :: "crypto \<Rightarrow> string \<Rightarrow> u64 \<Rightarrow> PulseError + ChainState" where
  "init_chain_state_v3 C chain_id frozen_timestamp =
    rbind (genesis_block_v3 C chain_id frozen_timestamp) (\<lambda>genesis.
    rbind (compute_state_root C empty_utxo_state) (\<lambda>state_root.
    rbind (init_chain_state C chain_id) (\<lambda>state.
    Inr (clean_genesis_state genesis empty_utxo_state state_root state))))"

subsection \<open>Authoritative replay\<close>

record StateReplayV2Diagnostics =
  sd_applied_transactions :: nat
  sd_skipped_conflicting_transactions :: nat
  sd_conflict_diagnostics :: "string list"
  sd_state_root :: string
  sd_ordered_dag_tip :: "Hash option"
  sd_ordered_dag_digest :: string

record StateReplayV2 =
  sr_utxo :: UtxoState
  sr_ordered_dag :: OrderedDagV2
  sr_diagnostics :: StateReplayV2Diagnostics

definition replay_base_state_for_genesis :: "crypto \<Rightarrow> ChainState \<Rightarrow> PulseError + ChainState" where
  "replay_base_state_for_genesis C state =
    (let g = dag_genesis_hash (cs_dag state) in
     rbind (ok_or (NonDeterministicState ''v2 replay genesis block missing'') (lookup (dag_blocks (cs_dag state)) g))
       (\<lambda>genesis.
     case b_transactions genesis of
       [] \<Rightarrow>
         if h_version (b_header genesis) \<noteq> BLOCK_HEADER_VERSION_V2 then
           Inl (NonDeterministicState (''transactionless genesis requires block header version ''
             @ format_nat (unat BLOCK_HEADER_VERSION_V2) @ '', got '' @ format_nat (unat (h_version (b_header genesis)))))
         else
           rbind (init_chain_state_v3 C (cs_chain_id state) (h_timestamp (b_header genesis))) (\<lambda>rebuilt.
           if dag_genesis_hash (cs_dag rebuilt) \<noteq> g then
             Inl (NonDeterministicState (''chain-bound v3 zero-allocation genesis mismatch: expected '' @ g
               @ '', rebuilt '' @ dag_genesis_hash (cs_dag rebuilt)))
           else Inr rebuilt)
     | first_tx # txs \<Rightarrow>
         if list_ex (\<lambda>tx. tx_version tx \<noteq> tx_version first_tx) (first_tx # txs) then
           Inl (NonDeterministicState ''mixed transaction versions inside genesis are not supported'')
         else if h_version (b_header genesis) = BLOCK_HEADER_VERSION_V1 \<and> tx_version first_tx = TRANSACTION_VERSION_V1 then
           init_chain_state C (cs_chain_id state)
         else if h_version (b_header genesis) = BLOCK_HEADER_VERSION_V2 \<and> tx_version first_tx = TRANSACTION_VERSION_V2 then
           rbind (init_chain_state_v2 C (cs_chain_id state)) (\<lambda>rebuilt.
           if dag_genesis_hash (cs_dag rebuilt) \<noteq> g then
             Inl (NonDeterministicState (''chain-bound v2 genesis mismatch: expected '' @ g
               @ '', rebuilt '' @ dag_genesis_hash (cs_dag rebuilt)))
           else Inr rebuilt)
         else
           Inl (NonDeterministicState (''unsupported mixed genesis protocol versions: header=''
             @ format_nat (unat (h_version (b_header genesis))) @ '' transaction='' @ format_nat (unat (tx_version first_tx))))))"

definition compact_pruned_checkpoint_floor :: "ChainState \<Rightarrow> u64 option" where
  "compact_pruned_checkpoint_floor state =
    (if dag_blocks (cs_dag state) = [] \<or> contains_key (dag_blocks (cs_dag state)) (dag_genesis_hash (cs_dag state)) then None
     else
       Option.bind (min_of (map (\<lambda>(_, block). h_height (b_header block)) (dag_blocks (cs_dag state))))
         (\<lambda>lowest. if lowest > 0 then Some lowest else None))"

text \<open>\<open>split_whitespace\<close> on the bytes of an ASCII text, and the first word with the prefix \<open>block=\<close>.\<close>

definition is_whitespace :: "char \<Rightarrow> bool" where
  "is_whitespace c \<longleftrightarrow> (of_char c :: nat) \<in> {9, 10, 11, 12, 13, 32}"

fun words :: "string \<Rightarrow> string \<Rightarrow> string list" where
  "words word [] = (if word = [] then [] else [word])"
| "words word (c # cs) =
    (if is_whitespace c then (if word = [] then words [] cs else word # words [] cs) else words (word @ [c]) cs)"

definition conflict_diagnostic_block_hash :: "string \<Rightarrow> string option" where
  "conflict_diagnostic_block_hash entry =
    map_option (drop (length ''block='')) (List.find (prefix ''block='') (words [] entry))"

fun check_missing_parents :: "ChainState \<Rightarrow> u64 \<Rightarrow> Block \<Rightarrow> Hash list \<Rightarrow> PulseError + unit" where
  "check_missing_parents state floor_height block [] = Inr ()"
| "check_missing_parents state floor_height block (parent # parents) =
    (if contains_key (dag_blocks (cs_dag state)) parent then check_missing_parents state floor_height block parents
     else if h_height (b_header block) \<noteq> floor_height then
       Inl (NonDeterministicState (''v2.4 compact checkpoint block '' @ b_hash block @ '' at height ''
         @ format_nat (unat (h_height (b_header block))) @ '' references missing parent '' @ parent
         @ '' above retained floor '' @ format_nat (unat floor_height)))
     else check_missing_parents state floor_height block parents)"

fun check_retained_blocks :: "ChainState \<Rightarrow> u64 \<Rightarrow> Block list \<Rightarrow> PulseError + unit" where
  "check_retained_blocks state floor_height [] = Inr ()"
| "check_retained_blocks state floor_height (block # blocks) =
    rbind (check_missing_parents state floor_height block (h_parents (b_header block)))
      (\<lambda>_. check_retained_blocks state floor_height blocks)"

fun check_conflict_entries :: "ChainState \<Rightarrow> string list \<Rightarrow> PulseError + unit" where
  "check_conflict_entries state [] = Inr ()"
| "check_conflict_entries state (entry # entries) =
    (case conflict_diagnostic_block_hash entry of
       None \<Rightarrow> Inl (NonDeterministicState ''v2.4 compact checkpoint conflict diagnostic is missing block identity'')
     | Some block_hash \<Rightarrow>
         if \<not> contains_key (dag_blocks (cs_dag state)) block_hash then
           Inl (NonDeterministicState (''v2.4 compact checkpoint conflict diagnostic references pruned or unknown block ''
             @ block_hash))
         else check_conflict_entries state entries)"

definition verify_compact_pruned_authoritative_checkpoint_v2 ::
  "crypto \<Rightarrow> (OrderingV2Error \<Rightarrow> string) \<Rightarrow> ChainState \<Rightarrow> u64 \<Rightarrow> (PulseError + StateReplayV2Diagnostics) option" where
  "verify_compact_pruned_authoritative_checkpoint_v2 C dbg state floor_height =
    (let d = cs_dag state in
     if dag_ordering_version d \<noteq> GHOSTDAG_V1_ORDERING_VERSION then
       Some (Inl (NonDeterministicState (''v2.4 compact checkpoint ordering version '' @ dag_ordering_version d
         @ '' does not match '' @ GHOSTDAG_V1_ORDERING_VERSION)))
     else
       case check_retained_blocks state floor_height (map snd (dag_blocks d)) of
         Inl e \<Rightarrow> Some (Inl e)
       | Inr _ \<Rightarrow>
         map_option (\<lambda>ordered.
           rbind (map_err (\<lambda>err. NonDeterministicState
               (''v2.4 compact checkpoint authoritative ordering unavailable: '' @ dbg err)) ordered) (\<lambda>ordered_dag.
           let ordered_dag_tip = last_of (od_blocks ordered_dag) in
           if dag_ordered_dag d \<noteq> od_blocks ordered_dag then
             Inl (NonDeterministicState
               ''v2.4 compact checkpoint ordered DAG does not match retained authoritative recomputation'')
           else if dag_ordered_dag_tip d \<noteq> ordered_dag_tip then
             Inl (NonDeterministicState
               ''v2.4 compact checkpoint ordered DAG tip does not match retained authoritative recomputation'')
           else
             rbind (compute_state_root C (cs_utxo state)) (\<lambda>observed_state_root.
             if dag_ordered_dag_state_root d \<noteq> Some observed_state_root then
               Inl (NonDeterministicState
                 ''v2.4 compact checkpoint recorded state root does not match persisted UTXO checkpoint'')
             else
               rbind (check_conflict_entries state (dag_ordered_dag_conflict_diagnostics d)) (\<lambda>_.
               Inr \<lparr>sd_applied_transactions = 0,
                 sd_skipped_conflicting_transactions = length (dag_ordered_dag_conflict_diagnostics d),
                 sd_conflict_diagnostics = dag_ordered_dag_conflict_diagnostics d,
                 sd_state_root = observed_state_root, sd_ordered_dag_tip = ordered_dag_tip,
                 sd_ordered_dag_digest = od_digest ordered_dag\<rparr>))))
           (derive_ordered_dag_v2 C state))"

text \<open>The transactions of one block, each on a copy of the state that is kept only if it succeeds.\<close>

fun replay_transactions_v2 ::
  "nat \<Rightarrow> Block \<Rightarrow> Transaction list \<Rightarrow> ChainState \<times> nat \<times> nat \<times> string list \<Rightarrow>
    PulseError + (ChainState \<times> nat \<times> nat \<times> string list)" where
  "replay_transactions_v2 ordered_pos block [] acc = Inr acc"
| "replay_transactions_v2 ordered_pos block (tx # txs) (rebuilt, applied, skipped, conflicts) =
    (case apply_transaction tx rebuilt (h_height (b_header block)) of
       (candidate, Inr _) \<Rightarrow> replay_transactions_v2 ordered_pos block txs (candidate, applied + 1, skipped, conflicts)
     | (_, Inl e) \<Rightarrow>
         if is_conflict e then
           replay_transactions_v2 ordered_pos block txs (rebuilt, applied, skipped + 1,
             conflicts @ [''ordered_pos='' @ format_nat ordered_pos @ '' block='' @ b_hash block @ '' tx=''
               @ tx_txid tx @ '' skipped_conflict_atomic''])
         else Inl e)"

fun replay_blocks_v2 ::
  "ChainState \<Rightarrow> nat \<Rightarrow> Hash list \<Rightarrow> ChainState \<times> nat \<times> nat \<times> string list \<Rightarrow>
    PulseError + (ChainState \<times> nat \<times> nat \<times> string list)" where
  "replay_blocks_v2 state ordered_pos [] acc = Inr acc"
| "replay_blocks_v2 state ordered_pos (hash # hashes) acc =
    (if hash = dag_genesis_hash (cs_dag state) then replay_blocks_v2 state (ordered_pos + 1) hashes acc
     else
       rbind (ok_or (Internal (''v2.4 authoritative order references missing block '' @ hash))
         (lookup (dag_blocks (cs_dag state)) hash)) (\<lambda>block.
       rbind (replay_transactions_v2 ordered_pos block (b_transactions block) acc) (\<lambda>acc.
       replay_blocks_v2 state (ordered_pos + 1) hashes acc)))"

definition rebuild_authoritative_state_v2 ::
  "crypto \<Rightarrow> (OrderingV2Error \<Rightarrow> string) \<Rightarrow> ChainState \<Rightarrow> (PulseError + StateReplayV2) option" where
  "rebuild_authoritative_state_v2 C dbg state =
    map_option (\<lambda>ordered.
      rbind (map_err (\<lambda>err. Internal (''v2.4 authoritative ordering unavailable for state replay: '' @ dbg err)) ordered)
        (\<lambda>ordered_dag.
      rbind (replay_base_state_for_genesis C state) (\<lambda>rebuilt.
      rbind (replay_blocks_v2 state 0 (od_blocks ordered_dag) (with_modes_of state rebuilt, 0, 0, []))
        (\<lambda>(rebuilt, applied, skipped, conflicts).
      rbind (compute_state_root C (cs_utxo rebuilt)) (\<lambda>state_root.
      Inr \<lparr>sr_utxo = cs_utxo rebuilt, sr_ordered_dag = ordered_dag,
        sr_diagnostics = \<lparr>sd_applied_transactions = applied, sd_skipped_conflicting_transactions = skipped,
          sd_conflict_diagnostics = conflicts, sd_state_root = state_root,
          sd_ordered_dag_tip = last_of (od_blocks ordered_dag), sd_ordered_dag_digest = od_digest ordered_dag\<rparr>\<rparr>)))))
      (derive_ordered_dag_v2 C state)"

definition materialize_with :: "ChainState \<Rightarrow> StateReplayV2 \<Rightarrow> ChainState" where
  "materialize_with state outcome = state\<lparr>cs_utxo := sr_utxo outcome, cs_dag := (cs_dag state)\<lparr>
     dag_ordered_dag := od_blocks (sr_ordered_dag outcome),
     dag_ordering_version := GHOSTDAG_V1_ORDERING_VERSION,
     dag_ordered_dag_tip := sd_ordered_dag_tip (sr_diagnostics outcome),
     dag_ordered_dag_state_root := Some (sd_state_root (sr_diagnostics outcome)),
     dag_ordered_dag_conflict_diagnostics := sd_conflict_diagnostics (sr_diagnostics outcome)\<rparr>\<rparr>"

definition materialize_authoritative_state_v2 ::
  "crypto \<Rightarrow> (OrderingV2Error \<Rightarrow> string) \<Rightarrow> ChainState \<Rightarrow> (PulseError + ChainState) option" where
  "materialize_authoritative_state_v2 C dbg state =
    map_option (\<lambda>outcome. rbind outcome (\<lambda>outcome. Inr (materialize_with state outcome)))
      (rebuild_authoritative_state_v2 C dbg state)"

definition check_snapshot_v2 :: "ChainState \<Rightarrow> StateReplayV2 \<Rightarrow> Hash \<Rightarrow> PulseError + StateReplayV2Diagnostics" where
  "check_snapshot_v2 state outcome observed_state_root =
    (let d = cs_dag state; diagnostics = sr_diagnostics outcome in
     if dag_ordering_version d \<noteq> GHOSTDAG_V1_ORDERING_VERSION then
       Inl (NonDeterministicState (''v2.4 snapshot ordering version '' @ dag_ordering_version d
         @ '' does not match '' @ GHOSTDAG_V1_ORDERING_VERSION))
     else if dag_ordered_dag d \<noteq> od_blocks (sr_ordered_dag outcome) then
       Inl (NonDeterministicState ''v2.4 snapshot ordered DAG does not match authoritative recomputation'')
     else if dag_ordered_dag_tip d \<noteq> sd_ordered_dag_tip diagnostics then
       Inl (NonDeterministicState ''v2.4 snapshot ordered DAG tip does not match authoritative recomputation'')
     else if dag_ordered_dag_state_root d \<noteq> Some (sd_state_root diagnostics) then
       Inl (NonDeterministicState ''v2.4 snapshot recorded state root does not match authoritative recomputation'')
     else if observed_state_root \<noteq> sd_state_root diagnostics then
       Inl (NonDeterministicState ''v2.4 snapshot UTXO state root does not match authoritative recomputation'')
     else if dag_ordered_dag_conflict_diagnostics d \<noteq> sd_conflict_diagnostics diagnostics then
       Inl (NonDeterministicState ''v2.4 snapshot conflict diagnostics do not match authoritative recomputation'')
     else Inr diagnostics)"

definition verify_authoritative_state_snapshot_v2 ::
  "crypto \<Rightarrow> (OrderingV2Error \<Rightarrow> string) \<Rightarrow> ChainState \<Rightarrow> (PulseError + StateReplayV2Diagnostics) option" where
  "verify_authoritative_state_snapshot_v2 C dbg state =
    (case compact_pruned_checkpoint_floor state of
       Some floor_height \<Rightarrow> verify_compact_pruned_authoritative_checkpoint_v2 C dbg state floor_height
     | None \<Rightarrow>
         map_option (\<lambda>outcome.
           rbind outcome (\<lambda>outcome.
           rbind (compute_state_root C (cs_utxo state)) (\<lambda>observed_state_root.
           check_snapshot_v2 state outcome observed_state_root)))
           (rebuild_authoritative_state_v2 C dbg state))"

section \<open>The order depends on the DAG metadata only\<close>

definition same_order :: "ChainState \<Rightarrow> ChainState \<Rightarrow> bool" where
  "same_order s t \<longleftrightarrow> dag_blocks (cs_dag s) = dag_blocks (cs_dag t)
    \<and> dag_selected_parents (cs_dag s) = dag_selected_parents (cs_dag t)
    \<and> dag_selected_chain (cs_dag s) = dag_selected_chain (cs_dag t)
    \<and> dag_merge_set_blues (cs_dag s) = dag_merge_set_blues (cs_dag t)
    \<and> dag_merge_set_reds (cs_dag s) = dag_merge_set_reds (cs_dag t)
    \<and> dag_blue_work (cs_dag s) = dag_blue_work (cs_dag t)
    \<and> dag_genesis_hash (cs_dag s) = dag_genesis_hash (cs_dag t)"

lemma build_priorities_cong:
  assumes "same_order s t"
  shows "build_priorities s = build_priorities t"
proof -
  have 1: "chain_priorities s i hs P = chain_priorities t i hs P" for i hs P
    using assms by (induction hs arbitrary: i P) (simp_all add: same_order_def Let_def cong: if_cong)
  have 2: "classify_hashes s S i a c r hs l K P = classify_hashes t S i a c r hs l K P" for S i a c r hs l K P
    using assms by (induction hs arbitrary: l K P) (simp_all add: same_order_def split: option.split cong: if_cong)
  have "classify_hashes s = classify_hashes t" by (intro ext 2)
  moreover have "dag_merge_set_blues (cs_dag s) = dag_merge_set_blues (cs_dag t)"
    "dag_merge_set_reds (cs_dag s) = dag_merge_set_reds (cs_dag t)" using assms by (simp_all add: same_order_def)
  ultimately have 3: "classify_anchors s S i hs = classify_anchors t S i hs" for S i hs
  proof (induction hs arbitrary: i)
    case (Cons h hs)
    show ?case by (intro ext) (simp only: classify_anchors.simps Cons)
  qed (intro ext, simp)
  have parts: "dag_blocks (cs_dag s) = dag_blocks (cs_dag t)" "dag_selected_chain (cs_dag s) = dag_selected_chain (cs_dag t)"
    using assms by (simp_all add: same_order_def)
  show ?thesis unfolding build_priorities_def 1 3 parts ..
qed

lemma ordering_steps_cong:
  assumes "same_order s t"
  shows "add_blocks s bs I Ch = add_blocks t bs I Ch" "initial_ready s P es R = initial_ready t P es R"
    "release_children s P hs I R = release_children t P hs I R" "finish_order C s ord = finish_order C t ord"
proof -
  have key: "ready_key s P h = ready_key t P h" for h using assms by (simp add: ready_key_def same_order_def)
  have floor: "retained_floor s = retained_floor t" "compact_pruned_checkpoint s = compact_pruned_checkpoint t"
    using assms by (simp_all add: retained_floor_def compact_pruned_checkpoint_def same_order_def)
  have parents: "add_parents s h b ps S I Ch = add_parents t h b ps S I Ch" for h b ps S I Ch
    using assms by (induction ps arbitrary: S I Ch) (auto simp: floor same_order_def)
  have parents_fun: "add_parents s = add_parents t" by (intro ext parents)
  have "add_blocks s bs = add_blocks t bs"
  proof (induction bs)
    case (Cons hb bs)
    show ?case by (cases hb, intro ext) (simp only: add_blocks.simps Cons parents_fun)
  qed (intro ext, simp)
  then show "add_blocks s bs I Ch = add_blocks t bs I Ch" by simp
  show "initial_ready s P es R = initial_ready t P es R" by (induction es arbitrary: R) (auto simp: key)
  show "release_children s P hs I R = release_children t P hs I R"
    by (induction hs arbitrary: I R) (auto simp: key Let_def split: option.split)
  show "finish_order C s ord = finish_order C t ord" using assms by (simp add: finish_order_def same_order_def)
qed

lemma emit_loop_cong:
  assumes "same_order s t"
  shows "emit_loop s P Ch I R ord = emit_loop t P Ch I R ord"
proof -
  have step: "emit_loop s P Ch I R ord = Some r \<Longrightarrow> \<forall>t. same_order s t \<longrightarrow> emit_loop t P Ch I R ord = Some r"
    for s P Ch I R ord r
  proof (erule emit_loop.raw_induct [rotated], intro allI impI)
    fix emit s P Ch I R ord r t
    assume 1: "\<And>s P Ch I R ord r. emit s P Ch I R ord = Some r \<Longrightarrow> \<forall>t. same_order s t \<longrightarrow> emit_loop t P Ch I R ord = Some r"
      "(case R of [] \<Rightarrow> Some (Inr ord) | key # R' \<Rightarrow> let hash = ready_hash key in
         case release_children s P (case lookup Ch hash of None \<Rightarrow> [] | Some block_children \<Rightarrow> block_children) I R' of
           Inl e \<Rightarrow> Some (Inl e) | Inr (I', R'') \<Rightarrow> emit s P Ch I' R'' (ord @ [hash])) = Some r"
      "same_order s t"
    show "emit_loop t P Ch I R ord = Some r"
    proof (cases R)
      case Nil
      with 1 show ?thesis by (simp add: emit_loop.simps)
    next
      case (Cons key R')
      define hs where "hs = (case lookup Ch (ready_hash key) of None \<Rightarrow> [] | Some block_children \<Rightarrow> block_children)"
      have rel: "release_children s P hs I R' = release_children t P hs I R'" by (rule ordering_steps_cong(3) [OF 1(3)])
      have body: "(case release_children t P hs I R' of Inl e \<Rightarrow> Some (Inl e)
        | Inr (I', R'') \<Rightarrow> emit s P Ch I' R'' (ord @ [ready_hash key])) = Some r"
        using 1(2) unfolding Cons list.case Let_def hs_def [symmetric] rel .
      show ?thesis
      proof (cases "release_children t P hs I R'")
        case (Inl e)
        with body show ?thesis by (subst emit_loop.simps) (simp add: Cons Let_def hs_def)
      next
        case (Inr x)
        obtain I' R'' where x: "x = (I', R'')" by fastforce
        then have "emit_loop t P Ch I' R'' (ord @ [ready_hash key]) = Some r" using body Inr 1(1,3) by simp
        with Inr x show ?thesis by (subst emit_loop.simps) (simp add: Cons Let_def hs_def)
      qed
    qed
  qed
  have "same_order t s" using assms by (simp add: same_order_def)
  then have converse: "emit_loop t P Ch I R ord = Some r \<Longrightarrow> emit_loop s P Ch I R ord = Some r" for r using step by blast
  have "emit_loop s P Ch I R ord = Some r \<Longrightarrow> emit_loop t P Ch I R ord = Some r" for r using step assms by blast
  with converse show ?thesis by (metis option.exhaust)
qed

lemma derive_ordered_dag_v2_cong:
  assumes "same_order s t"
  shows "derive_ordered_dag_v2 C s = derive_ordered_dag_v2 C t"
proof -
  have eqs: "dag_blocks (cs_dag s) = dag_blocks (cs_dag t)" "finish_order C s = finish_order C t"
    "initial_ready s = initial_ready t" "emit_loop s = emit_loop t" "add_blocks s = add_blocks t"
    using assms ordering_steps_cong [OF assms] emit_loop_cong [OF assms] by (auto simp: same_order_def fun_eq_iff)
  show ?thesis
    unfolding derive_ordered_dag_v2_def ordering_graph_def build_priorities_cong [OF assms] eqs by simp
qed

section \<open>Atomic replay\<close>

text \<open>
  The specification: every transaction in order acts on the UTXO set as a whole or not at all.  The
  occurrences are the transactions of the ordered blocks but genesis, with position and block.
\<close>

definition atomic_step :: "UtxoState \<Rightarrow> nat \<times> Block \<times> Transaction \<Rightarrow> UtxoState" where
  "atomic_step u x = (case x of (_, b, tx) \<Rightarrow>
    if applicable tx u then cs_utxo (fst (apply_transaction tx (blank_state\<lparr>cs_utxo := u\<rparr>) (h_height (b_header b)))) else u)"

fun occurrences :: "ChainState \<Rightarrow> nat \<Rightarrow> Hash list \<Rightarrow> (nat \<times> Block \<times> Transaction) list" where
  "occurrences s i [] = []"
| "occurrences s i (h # hs) =
    (if h = dag_genesis_hash (cs_dag s) then []
     else case lookup (dag_blocks (cs_dag s)) h of None \<Rightarrow> [] | Some b \<Rightarrow> map (\<lambda>tx. (i, b, tx)) (b_transactions b))
    @ occurrences s (i + 1) hs"

fun skips :: "UtxoState \<Rightarrow> (nat \<times> Block \<times> Transaction) list \<Rightarrow> (nat \<times> Block \<times> Transaction) list" where
  "skips u [] = []"
| "skips u (x # xs) = (if applicable (snd (snd x)) u then [] else [x]) @ skips (atomic_step u x) xs"

definition skip_text :: "nat \<times> Block \<times> Transaction \<Rightarrow> string" where
  "skip_text x = (case x of (i, b, tx) \<Rightarrow>
    ''ordered_pos='' @ format_nat i @ '' block='' @ b_hash b @ '' tx='' @ tx_txid tx @ '' skipped_conflict_atomic'')"

lemma skips_append: "skips u (xs @ ys) = skips u xs @ skips (foldl atomic_step u xs) ys"
  by (induction xs arbitrary: u) auto

lemma apply_transaction_step:
  obtains w r where "apply_transaction tx s h = (w, r)"
    "r = Inr () \<longleftrightarrow> applicable tx (cs_utxo s)" "\<not> applicable tx (cs_utxo s) \<Longrightarrow> \<exists>e. r = Inl e \<and> is_conflict e"
    "applicable tx (cs_utxo s) \<Longrightarrow> cs_utxo w = cs_utxo (fst (apply_transaction tx (blank_state\<lparr>cs_utxo := cs_utxo s\<rparr>) h))"
proof -
  obtain w r where a: "apply_transaction tx s h = (w, r)" by (metis surj_pair)
  have conflict: "is_conflict e \<longleftrightarrow> conflict_error e" for e by (simp add: is_conflict_def conflict_error_def)
  show thesis
  proof (rule that [OF a])
    show "\<exists>e. r = Inl e \<and> is_conflict e" if "\<not> applicable tx (cs_utxo s)"
      using apply_transaction_fails [OF that, of h] a conflict by simp
    then show "r = Inr () \<longleftrightarrow> applicable tx (cs_utxo s)" using apply_transaction_ok(1) [of tx s h] a by force
    show "cs_utxo w = cs_utxo (fst (apply_transaction tx (blank_state\<lparr>cs_utxo := cs_utxo s\<rparr>) h))"
      using apply_transaction_utxo(1) [of s "blank_state\<lparr>cs_utxo := cs_utxo s\<rparr>" tx h] a by simp
  qed
qed

lemma replay_transactions_v2_spec:
  fixes i b
  defines "xs \<equiv> map (\<lambda>tx. (i, b, tx)) "
  shows "\<exists>w m. replay_transactions_v2 i b txs (s, n, k, d) =
      Inr (w, m, k + length (skips (cs_utxo s) (xs txs)), d @ map skip_text (skips (cs_utxo s) (xs txs)))
    \<and> cs_utxo w = foldl atomic_step (cs_utxo s) (xs txs) \<and> m + length (skips (cs_utxo s) (xs txs)) = n + length txs"
proof (induction txs arbitrary: s n k d)
  case Nil
  then show ?case by (simp add: xs_def)
next
  case (Cons tx txs)
  obtain w r where w: "apply_transaction tx s (h_height (b_header b)) = (w, r)"
    "r = Inr () \<longleftrightarrow> applicable tx (cs_utxo s)" "\<not> applicable tx (cs_utxo s) \<Longrightarrow> \<exists>e. r = Inl e \<and> is_conflict e"
    "applicable tx (cs_utxo s) \<Longrightarrow> cs_utxo w = cs_utxo (fst (apply_transaction tx (blank_state\<lparr>cs_utxo := cs_utxo s\<rparr>) (h_height (b_header b))))"
    using apply_transaction_step [of tx s "h_height (b_header b)"] by metis
  show ?case
  proof (cases "applicable tx (cs_utxo s)")
    case True
    then have "atomic_step (cs_utxo s) (i, b, tx) = cs_utxo w" using w(4) by (simp add: atomic_step_def)
    with True w(1,2) Cons.IH [of w "n + 1" k d] show ?thesis by (simp add: xs_def)
  next
    case False
    then obtain e where "r = Inl e" "is_conflict e" using w(3) by blast
    moreover have "atomic_step (cs_utxo s) (i, b, tx) = cs_utxo s" using False by (simp add: atomic_step_def)
    ultimately show ?thesis using False w(1) Cons.IH [of s n "k + 1" "d @ [skip_text (i, b, tx)]"]
      by (simp add: xs_def skip_text_def)
  qed
qed

lemma replay_blocks_v2_spec:
  assumes "\<forall>h \<in> set hs. contains_key (dag_blocks (cs_dag s)) h"
  shows "\<exists>w m. replay_blocks_v2 s i hs (r, n, k, d) = Inr (w, m, k + length (skips (cs_utxo r) (occurrences s i hs)),
      d @ map skip_text (skips (cs_utxo r) (occurrences s i hs)))
    \<and> cs_utxo w = foldl atomic_step (cs_utxo r) (occurrences s i hs)
    \<and> m + length (skips (cs_utxo r) (occurrences s i hs)) = n + length (occurrences s i hs)"
  using assms
proof (induction hs arbitrary: i r n k d)
  case (Cons h hs)
  have known: "\<forall>h \<in> set hs. contains_key (dag_blocks (cs_dag s)) h" using Cons.prems by simp
  show ?case
  proof (cases "h = dag_genesis_hash (cs_dag s)")
    case True
    with Cons.IH [OF known, of "i + 1" r n k d] show ?thesis by simp
  next
    case False
    obtain b where b: "lookup (dag_blocks (cs_dag s)) h = Some b" using Cons.prems by auto
    define xs where "xs = map (\<lambda>tx. (i, b, tx)) (b_transactions b)"
    obtain w m where w: "replay_transactions_v2 i b (b_transactions b) (r, n, k, d) =
        Inr (w, m, k + length (skips (cs_utxo r) xs), d @ map skip_text (skips (cs_utxo r) xs))"
      "cs_utxo w = foldl atomic_step (cs_utxo r) xs" "m + length (skips (cs_utxo r) xs) = n + length xs"
      using replay_transactions_v2_spec [of i b "b_transactions b" r n k d] unfolding xs_def by auto
    have occ: "occurrences s i (h # hs) = xs @ occurrences s (i + 1) hs" using False b by (simp add: xs_def)
    obtain v m' where v: "replay_blocks_v2 s (i + 1) hs (w, m, k + length (skips (cs_utxo r) xs), d @ map skip_text (skips (cs_utxo r) xs)) =
        Inr (v, m', k + length (skips (cs_utxo r) xs) + length (skips (cs_utxo w) (occurrences s (i + 1) hs)),
          (d @ map skip_text (skips (cs_utxo r) xs)) @ map skip_text (skips (cs_utxo w) (occurrences s (i + 1) hs)))"
      "cs_utxo v = foldl atomic_step (cs_utxo w) (occurrences s (i + 1) hs)"
      "m' + length (skips (cs_utxo w) (occurrences s (i + 1) hs)) = m + length (occurrences s (i + 1) hs)"
      using Cons.IH [OF known, of "i + 1" w m "k + length (skips (cs_utxo r) xs)" "d @ map skip_text (skips (cs_utxo r) xs)"]
      by blast
    have "replay_blocks_v2 s i (h # hs) (r, n, k, d) = Inr (v, m', k + length (skips (cs_utxo r) (xs @ occurrences s (i + 1) hs)),
        d @ map skip_text (skips (cs_utxo r) (xs @ occurrences s (i + 1) hs)))"
      using False b w(1,2) v(1) by (simp add: skips_append)
    moreover have "cs_utxo v = foldl atomic_step (cs_utxo r) (xs @ occurrences s (i + 1) hs)" using w(2) v(2) by simp
    moreover have "m' + length (skips (cs_utxo r) (xs @ occurrences s (i + 1) hs)) = n + length (xs @ occurrences s (i + 1) hs)"
      using w(2,3) v(3) by (simp add: skips_append)
    ultimately show ?thesis unfolding occ by blast
  qed
qed simp

lemma atomic_step_wf: "utxo_wf u \<Longrightarrow> utxo_wf (atomic_step u x)"
  using apply_transaction_wf [of "blank_state\<lparr>cs_utxo := u\<rparr>"] by (cases x) (simp add: atomic_step_def)

lemma atomic_replay_wf: "utxo_wf u \<Longrightarrow> utxo_wf (foldl atomic_step u xs)"
  by (induction xs arbitrary: u) (simp_all add: atomic_step_wf)

lemma base_wf:
  assumes "replay_base_state_for_genesis C s = Inr base"
  shows "utxo_wf (cs_utxo base)"
proof -
  have v2: "genesis_utxo_state_v2 tx = genesis_utxo tx" for tx by (simp add: genesis_utxo_state_v2_def genesis_utxo_def)
  have v3: "utxo_wf empty_utxo_state" by (rule utxo_wfI) (simp_all add: empty_utxo_state_def distinct_keys_def)
  have "utxo_wf (cs_utxo b)" if "init_chain_state C c = Inr b \<or> init_chain_state_v2 C c = Inr b \<or> init_chain_state_v3 C c t = Inr b" for b c t
    using that v3 genesis_utxo_wf
    by (auto simp: init_chain_state_def init_chain_state_v2_def init_chain_state_v3_def clean_genesis_state_def v2 Let_def result_simps)
  note inits = this
  obtain gb where gb: "lookup (dag_blocks (cs_dag s)) (dag_genesis_hash (cs_dag s)) = Some gb"
    using assms by (auto simp: replay_base_state_for_genesis_def Let_def result_simps)
  show ?thesis
  proof (cases "b_transactions gb")
    case Nil
    then have "init_chain_state_v3 C (cs_chain_id s) (h_timestamp (b_header gb)) = Inr base"
      using assms gb by (auto simp: replay_base_state_for_genesis_def Let_def result_simps split: if_splits)
    then show ?thesis using inits by blast
  next
    case (Cons tx txs)
    then have "init_chain_state C (cs_chain_id s) = Inr base \<or> init_chain_state_v2 C (cs_chain_id s) = Inr base"
      using assms gb unfolding replay_base_state_for_genesis_def Let_def
      by (simp split: if_splits) (auto simp: result_simps split: if_splits)
    then show ?thesis using inits by blast
  qed
qed

lemma ordered_known:
  assumes "distinct_keys (dag_blocks (cs_dag s))" "derive_ordered_dag_v2 C s = Some (Inr od)"
  shows "\<forall>h \<in> set (od_blocks od). contains_key (dag_blocks (cs_dag s)) h"
  using derive_ordered_dag_v2_cases [OF assms(1), of C] assms(2) by (auto simp: block_keys_def)

definition replay_result :: "OrderedDagV2 \<Rightarrow> UtxoState \<Rightarrow> (nat \<times> Block \<times> Transaction) list \<Rightarrow> Hash \<Rightarrow> StateReplayV2" where
  "replay_result od u0 xs root = \<lparr>sr_utxo = foldl atomic_step u0 xs, sr_ordered_dag = od,
    sr_diagnostics = \<lparr>sd_applied_transactions = length xs - length (skips u0 xs),
      sd_skipped_conflicting_transactions = length (skips u0 xs), sd_conflict_diagnostics = map skip_text (skips u0 xs),
      sd_state_root = root, sd_ordered_dag_tip = last_of (od_blocks od), sd_ordered_dag_digest = od_digest od\<rparr>\<rparr>"

lemma rebuild_v2_spec:
  assumes dk: "distinct_keys (dag_blocks (cs_dag s))" and od: "derive_ordered_dag_v2 C s = Some (Inr od)"
    and base: "replay_base_state_for_genesis C s = Inr base"
  shows "rebuild_authoritative_state_v2 C dbg s =
    Some (rbind (compute_state_root C (foldl atomic_step (cs_utxo base) (occurrences s 0 (od_blocks od))))
      (\<lambda>root. Inr (replay_result od (cs_utxo base) (occurrences s 0 (od_blocks od)) root)))"
proof -
  define xs where "xs = occurrences s 0 (od_blocks od)"
  obtain w m where w: "replay_blocks_v2 s 0 (od_blocks od) (with_modes_of s base, 0, 0, []) =
      Inr (w, m, length (skips (cs_utxo base) xs), map skip_text (skips (cs_utxo base) xs))"
    "cs_utxo w = foldl atomic_step (cs_utxo base) xs" "m + length (skips (cs_utxo base) xs) = length xs"
    using replay_blocks_v2_spec [OF ordered_known [OF dk od], of 0 "with_modes_of s base" 0 0 "[]"] unfolding xs_def by auto
  then have "m = length xs - length (skips (cs_utxo base) xs)" by simp
  then show ?thesis
    unfolding rebuild_authoritative_state_v2_def od base xs_def [symmetric]
    by (simp add: w replay_result_def)
qed

lemma rebuild_v2_cong:
  assumes same: "same_order s t" and "cs_chain_id s = cs_chain_id t"
    "dag_consensus_mode (cs_dag s) = dag_consensus_mode (cs_dag t)"
    "dag_selected_parent_policy (cs_dag s) = dag_selected_parent_policy (cs_dag t)"
  shows "rebuild_authoritative_state_v2 C dbg s = rebuild_authoritative_state_v2 C dbg t"
proof -
  have fields: "dag_blocks (cs_dag s) = dag_blocks (cs_dag t)" "dag_genesis_hash (cs_dag s) = dag_genesis_hash (cs_dag t)"
    using same by (simp_all add: same_order_def)
  have blocks: "replay_blocks_v2 s = replay_blocks_v2 t"
  proof (intro ext)
    fix i hs acc
    have "replay_blocks_v2 s i hs = replay_blocks_v2 t i hs"
    proof (induction hs arbitrary: i)
      case (Cons h hs)
      show ?case by (intro ext) (simp only: replay_blocks_v2.simps Cons fields)
    qed (intro ext, simp)
    then show "replay_blocks_v2 s i hs acc = replay_blocks_v2 t i hs acc" by simp
  qed
  have base: "replay_base_state_for_genesis C s = replay_base_state_for_genesis C t"
    unfolding replay_base_state_for_genesis_def fields assms(2) ..
  have modes: "with_modes_of s = with_modes_of t" using assms(3,4) by (simp add: with_modes_of_def fun_eq_iff)
  show ?thesis
    unfolding rebuild_authoritative_state_v2_def derive_ordered_dag_v2_cong [OF same] base blocks modes ..
qed

lemma rebuild_v2_parts:
  assumes "rebuild_authoritative_state_v2 C dbg s = Some (Inr r)"
  obtains od base where "derive_ordered_dag_v2 C s = Some (Inr od)" "replay_base_state_for_genesis C s = Inr base"
proof -
  obtain x where x: "derive_ordered_dag_v2 C s = Some x"
    using assms by (cases "derive_ordered_dag_v2 C s") (auto simp: rebuild_authoritative_state_v2_def)
  then obtain od where od: "x = Inr od"
    using assms by (cases x) (auto simp: rebuild_authoritative_state_v2_def result_simps)
  obtain base where "replay_base_state_for_genesis C s = Inr base"
    using assms by (cases "replay_base_state_for_genesis C s") (auto simp: rebuild_authoritative_state_v2_def x od)
  with x od show thesis by (intro that) simp_all
qed

lemma rebuild_v2_root:
  assumes "rebuild_authoritative_state_v2 C dbg s = Some (Inr r)"
  shows "compute_state_root C (sr_utxo r) = Inr (sd_state_root (sr_diagnostics r))"
    "contains_key (dag_blocks (cs_dag s)) (dag_genesis_hash (cs_dag s))"
proof -
  obtain od base where p: "derive_ordered_dag_v2 C s = Some (Inr od)" "replay_base_state_for_genesis C s = Inr base"
    by (rule rebuild_v2_parts [OF assms])
  show "compute_state_root C (sr_utxo r) = Inr (sd_state_root (sr_diagnostics r))"
    using assms by (auto simp: rebuild_authoritative_state_v2_def p result_simps split: prod.splits)
  show "contains_key (dag_blocks (cs_dag s)) (dag_genesis_hash (cs_dag s))"
    using p(2) by (auto simp: replay_base_state_for_genesis_def Let_def result_simps)
qed

lemma materialize_rebuild:
  "rebuild_authoritative_state_v2 C dbg (materialize_with s r) = rebuild_authoritative_state_v2 C dbg s"
  by (rule rebuild_v2_cong) (simp_all add: same_order_def materialize_with_def)

lemma verify_full:
  assumes "contains_key (dag_blocks (cs_dag s)) (dag_genesis_hash (cs_dag s))"
  shows "verify_authoritative_state_snapshot_v2 C dbg s = map_option (\<lambda>outcome. rbind outcome (\<lambda>outcome.
    rbind (compute_state_root C (cs_utxo s)) (check_snapshot_v2 s outcome))) (rebuild_authoritative_state_v2 C dbg s)"
  using assms by (auto simp: verify_authoritative_state_snapshot_v2_def compact_pruned_checkpoint_floor_def)

lemma equal_roots:
  assumes "hex_roundtrip C" "maps_ok u" "maps_ok v" "consistent v"
    and "compute_state_root C u = Inr r" "compute_state_root C v = Inr r"
  shows "map_of (us_utxos u) = map_of (us_utxos v)
    \<or> (\<exists>b b'. state_root_bytes u = Some b \<and> state_root_bytes v = Some b' \<and> b \<noteq> b' \<and> sha256 C b = sha256 C b')"
proof -
  obtain b b' where b: "state_root_bytes u = Some b" "state_root_bytes v = Some b'"
    "hex_encode C (sha256 C b) = hex_encode C (sha256 C b')" and ok: "validate_deterministic_indexes u = Inr ()"
    using assms(5,6) by (auto simp: compute_state_root_def result_simps)
  have collision: "sha256 C b = sha256 C b'" using b(3) assms(1) unfolding hex_roundtrip_def by (metis option.inject)
  have consistent: "consistent u" using ok validate_indexes_iff [OF assms(2)] by simp
  show ?thesis
  proof (cases "b = b'")
    case True
    then have "state_root_bytes v = Some b" using b(2) by simp
    then show ?thesis using state_root_bytes_inj [OF b(1) _ assms(2,3) consistent assms(4)] by simp
  next
    case False
    with b(1,2) collision show ?thesis by (intro disjI2 exI conjI)
  qed
qed

text \<open>A block with a reward and a transaction whose second input does not exist, over the version 3 genesis.\<close>

definition forked_block :: Block where
  "forked_block = \<lparr>b_hash = ''a'', b_header = \<lparr>h_version = 2, h_parents = [[CHR 0x00]], h_timestamp = 2,
     h_difficulty = CONSENSUS_POW_LIMIT_BITS, h_nonce = 0, h_merkle_root = [], h_state_root = [], h_blue_score = 1,
     h_height = 1\<rparr>, b_transactions = [sample_coinbase, sample_conflict]\<rparr>"

definition forked_state :: "ChainState \<Rightarrow> ChainState" where
  "forked_state s = s\<lparr>cs_dag := (cs_dag s)\<lparr>dag_blocks := dag_blocks (cs_dag s) @ [(''a'', forked_block)],
     dag_selected_chain := [[CHR 0x00], ''a''], dag_selected_parents := [([CHR 0x00], None), (''a'', Some [CHR 0x00])],
     dag_merge_set_blues := [([CHR 0x00], []), (''a'', [])], dag_merge_set_reds := [([CHR 0x00], []), (''a'', [])],
     dag_blue_work := [([CHR 0x00], 0), (''a'', 1)]\<rparr>\<rparr>"

lemma example_v3:
  obtains s g where "init_chain_state_v3 nonce_crypto ''pulse'' 1 = Inr s" "dag_blocks (cs_dag s) = [([CHR 0x00], g)]"
    "dag_genesis_hash (cs_dag s) = [CHR 0x00]" "b_transactions g = []" "h_version (b_header g) = 2" "h_timestamp (b_header g) = 1"
    "cs_utxo s = empty_utxo_state" "cs_chain_id s = ''pulse''" "h_parents (b_header g) = []" "h_height (b_header g) = 0"
    "h_blue_score (b_header g) = 0"
proof -
  have wf: "utxo_wf empty_utxo_state" by (rule utxo_wfI) (simp_all add: empty_utxo_state_def distinct_keys_def)
  have valid: "validate_deterministic_indexes empty_utxo_state = Inr ()" using wf by (simp add: utxo_wf_def validate_indexes_iff)
  have root: "compute_state_root nonce_crypto empty_utxo_state = Inr [CHR 0x00]"
    unfolding compute_state_root_def valid state_root_bytes_eq using nonce_crypto_hash [of "prefixed UTXO_STATE_ROOT_DOMAIN" 0]
    by (simp add: empty_utxo_state_def le_byte_0 char_of_def bit_0)
  define h where "h = \<lparr>h_version = BLOCK_HEADER_VERSION_V2, h_parents = [], h_timestamp = (1 :: u64),
    h_difficulty = CONSENSUS_POW_LIMIT_BITS, h_nonce = 0, h_merkle_root = compute_merkle_root nonce_crypto [],
    h_state_root = [CHR 0x00], h_blue_score = 0, h_height = 0\<rparr>"
  have len: "length (compute_merkle_root nonce_crypto []) = 1"
    by (simp add: compute_merkle_root_def compute_merkle_root_from_txids_def nonce_crypto_def)
  have shape: "validate_block_header_v2_shape h ''pulse'' = Inr ()"
    by (simp add: validate_block_header_v2_shape_def h_def canonicalize_block_parents_v2_def GHOSTDAG_V1_MAX_PARENTS_def)
  obtain p where "canonical_block_header_material_v2 h ''pulse'' True = Inr (p @ to_le_bytes (h_height h))"
    by (simp add: canonical_block_header_material_v2_def shape encode_len_prefixed_bytes_eq encode_len_prefixed_str_eq
        encode_string_vec_eq BLOCK_HEADER_V2_DOMAIN_def len32_def counted_ok_def)
      (simp add: h_def len)
  then have hash: "compute_block_hash_v2 nonce_crypto h ''pulse'' = Inr [CHR 0x00]"
    using nonce_crypto_hash [of p "h_height h"]
    by (simp add: compute_block_hash_v2_def canonical_block_header_bytes_v2_def h_def le_byte_0 char_of_def bit_0)
  define g where "g = \<lparr>b_hash = [CHR 0x00], b_header = h, b_transactions = []\<rparr>"
  have genesis: "genesis_block_v3 nonce_crypto ''pulse'' 1 = Inr g"
    using hash by (simp add: genesis_block_v3_def root h_def Let_def g_def)
  define s where "s = clean_genesis_state g empty_utxo_state [CHR 0x00] example_state"
  have init: "init_chain_state_v3 nonce_crypto ''pulse'' 1 = Inr s"
    by (simp add: init_chain_state_v3_def genesis root example_init s_def)
  have chain: "cs_chain_id example_state = ''pulse''"
    by (simp add: example_state_def init_chain_state_def example_genesis example_genesis_tx Let_def)
  show thesis
    by (rule that [OF init, of g]) (simp_all add: s_def g_def h_def chain clean_genesis_state_def Let_def BLOCK_HEADER_VERSION_V2_def)
qed

lemma forked_parts:
  assumes "dag_blocks (cs_dag s) = [([CHR 0x00], g)]" "dag_genesis_hash (cs_dag s) = [CHR 0x00]"
    "init_chain_state_v3 nonce_crypto ''pulse'' 1 = Inr s" "b_transactions g = []" "h_version (b_header g) = 2"
    "h_timestamp (b_header g) = 1" "cs_chain_id s = ''pulse''" "h_parents (b_header g) = []" "h_height (b_header g) = 0"
    "h_blue_score (b_header g) = 0"
  shows "distinct_keys (dag_blocks (cs_dag (forked_state s)))"
    "replay_base_state_for_genesis nonce_crypto (forked_state s) = Inr s"
    "derive_ordered_dag_v2 nonce_crypto (forked_state s) = Some (Inr \<lparr>od_ordering_version = GHOSTDAG_V1_ORDERING_VERSION,
      od_blocks = [[CHR 0x00], ''a''], od_digest = ordering_digest nonce_crypto [[CHR 0x00], ''a'']\<rparr>)"
    "occurrences (forked_state s) 0 [[CHR 0x00], ''a''] = [(1, forked_block, sample_coinbase), (1, forked_block, sample_conflict)]"
proof -
  show "distinct_keys (dag_blocks (cs_dag (forked_state s)))" by (simp add: forked_state_def assms(1) distinct_keys_def)
  show "replay_base_state_for_genesis nonce_crypto (forked_state s) = Inr s"
    by (simp add: replay_base_state_for_genesis_def forked_state_def assms BLOCK_HEADER_VERSION_V2_def Let_def)
  show "derive_ordered_dag_v2 nonce_crypto (forked_state s) = Some (Inr \<lparr>od_ordering_version = GHOSTDAG_V1_ORDERING_VERSION,
      od_blocks = [[CHR 0x00], ''a''], od_digest = ordering_digest nonce_crypto [[CHR 0x00], ''a'']\<rparr>)"
    by (simp add: ordering_eval emit_loop.simps forked_state_def forked_block_def assms)
  show "occurrences (forked_state s) 0 [[CHR 0x00], ''a''] = [(1, forked_block, sample_coinbase), (1, forked_block, sample_conflict)]"
    by (simp add: forked_state_def assms) (simp add: forked_block_def)
qed

lemma forked_replay:
  "skips empty_utxo_state [(1, forked_block, sample_coinbase), (1, forked_block, sample_conflict)] = [(1, forked_block, sample_conflict)]"
  "us_utxos (foldl atomic_step empty_utxo_state [(1, forked_block, sample_coinbase), (1, forked_block, sample_conflict)])
    = [(OutPoint ''cb'' 0, \<lparr>u_outpoint = OutPoint ''cb'' 0, u_address = ''miner'', u_amount = 50, u_coinbase = True, u_height = 1\<rparr>)]"
  by (simp_all add: atomic_step_def empty_utxo_state_def applicable_def sample_coinbase_def sample_conflict_def previous_outputs_def
      forked_block_def apply_transaction_def insert_output_def or_default_def is_coinbase_def Let_def blank_state_def confirm_in_mempool_def)

lemma forked_root:
  "compute_state_root nonce_crypto (foldl atomic_step empty_utxo_state
     [(1, forked_block, sample_coinbase), (1, forked_block, sample_conflict)]) = Inr [CHR 0x01]" (is "_ (foldl _ _ ?xs) = _")
proof -
  have "utxo_wf empty_utxo_state" by (rule utxo_wfI) (simp_all add: empty_utxo_state_def distinct_keys_def)
  then have "utxo_wf (foldl atomic_step empty_utxo_state ?xs)" by (rule atomic_replay_wf)
  from nonce_state_root [OF this, of "[]"] show ?thesis
    unfolding forked_replay(2) by (simp add: len32_def le_byte_0 char_of_def bit_0)
qed

definition rewarded_state :: ChainState where
  "rewarded_state = fst (apply_transaction sample_coinbase blank_state 1)"

lemma live_replay_leaks:
  "\<exists>s' d'. rebuild_transactions forked_block [sample_conflict] rewarded_state d = Inr (s', d')
    \<and> total_value (us_utxos (cs_utxo s')) < total_value (us_utxos (cs_utxo rewarded_state))"
  by (simp add: rewarded_state_def ledger_eval forked_block_def is_conflict_def total_value_def)

section \<open>Properties\<close>

text \<open>
  C5. The authoritative replay is transaction-atomic. When the reserved order and the genesis state are
  available, the replay cannot fail on a transaction: it goes through the ordered blocks' transactions,
  each of which takes effect as a whole or, when it conflicts, leaves the UTXO set untouched and is
  reported, in order; applied and skipped transactions are counted exactly, and the resulting UTXO set has
  consistent indexes. The live replay of the development mode, in contrast, can lose value to a transaction
  that it skips.
\<close>

theorem replay_v2_atomic:
  assumes "distinct_keys (dag_blocks (cs_dag s))" "derive_ordered_dag_v2 C s = Some (Inr od)"
    and "replay_base_state_for_genesis C s = Inr base"
  defines "xs \<equiv> occurrences s 0 (od_blocks od)" and "u \<equiv> cs_utxo base"
  shows "utxo_wf (foldl atomic_step u xs)
    \<and> rebuild_authoritative_state_v2 C dbg s =
        Some (rbind (compute_state_root C (foldl atomic_step u xs)) (\<lambda>root. Inr \<lparr>
          sr_utxo = foldl atomic_step u xs, sr_ordered_dag = od,
          sr_diagnostics = \<lparr>sd_applied_transactions = length xs - length (skips u xs),
            sd_skipped_conflicting_transactions = length (skips u xs),
            sd_conflict_diagnostics = map skip_text (skips u xs), sd_state_root = root,
            sd_ordered_dag_tip = last_of (od_blocks od), sd_ordered_dag_digest = od_digest od\<rparr>\<rparr>))
    \<and> (\<exists>b tx w w' d'. rebuild_transactions b [tx] w d = Inr (w', d') \<and> \<not> applicable tx (cs_utxo w)
        \<and> total_value (us_utxos (cs_utxo w')) < total_value (us_utxos (cs_utxo w)))"
proof (intro conjI)
  show "utxo_wf (foldl atomic_step u xs)" unfolding u_def by (rule atomic_replay_wf [OF base_wf [OF assms(3)]])
  show "rebuild_authoritative_state_v2 C dbg s =
        Some (rbind (compute_state_root C (foldl atomic_step u xs)) (\<lambda>root. Inr \<lparr>
          sr_utxo = foldl atomic_step u xs, sr_ordered_dag = od,
          sr_diagnostics = \<lparr>sd_applied_transactions = length xs - length (skips u xs),
            sd_skipped_conflicting_transactions = length (skips u xs),
            sd_conflict_diagnostics = map skip_text (skips u xs), sd_state_root = root,
            sd_ordered_dag_tip = last_of (od_blocks od), sd_ordered_dag_digest = od_digest od\<rparr>\<rparr>))"
    using rebuild_v2_spec [OF assms(1-3), of dbg] unfolding replay_result_def xs_def u_def .
  have "\<not> applicable sample_conflict (cs_utxo rewarded_state)"
    by (simp add: rewarded_state_def ledger_eval applicable_def previous_outputs_def)
  then show "\<exists>b tx w w' d'. rebuild_transactions b [tx] w d = Inr (w', d') \<and> \<not> applicable tx (cs_utxo w)
        \<and> total_value (us_utxos (cs_utxo w')) < total_value (us_utxos (cs_utxo w))"
    using live_replay_leaks [of d] by blast
qed

theorem replay_v2_atomic_witness:
  "\<exists>s r. rebuild_authoritative_state_v2 nonce_crypto (\<lambda>_. []) s = Some (Inr r)
    \<and> sd_applied_transactions (sr_diagnostics r) = 1 \<and> sd_skipped_conflicting_transactions (sr_diagnostics r) = 1"
proof -
  obtain s g where s: "init_chain_state_v3 nonce_crypto ''pulse'' 1 = Inr s" "dag_blocks (cs_dag s) = [([CHR 0x00], g)]"
    "dag_genesis_hash (cs_dag s) = [CHR 0x00]" "b_transactions g = []" "h_version (b_header g) = 2" "h_timestamp (b_header g) = 1"
    "cs_utxo s = empty_utxo_state" "cs_chain_id s = ''pulse''" "h_parents (b_header g) = []" "h_height (b_header g) = 0"
    "h_blue_score (b_header g) = 0" by (rule example_v3)
  note forked = forked_parts [OF s(2,3,1,4,5,6,8,9,10,11)]
  define xs where "xs = [(1 :: nat, forked_block, sample_coinbase), (1, forked_block, sample_conflict)]"
  note atomic = replay_v2_atomic [OF forked(1,3,2), unfolded OrderedDagV2.select_convs forked(4) s(7), folded xs_def]
  have "compute_state_root nonce_crypto (foldl atomic_step empty_utxo_state xs) = Inr [CHR 0x01]"
    unfolding xs_def by (rule forked_root)
  moreover have "length xs = 2" "length (skips empty_utxo_state xs) = 1" unfolding xs_def forked_replay(1) by simp_all
  ultimately show ?thesis using conjunct1 [OF conjunct2 [OF atomic], of "\<lambda>_. []"]
    by (intro exI [of _ "forked_state s"]) simp
qed

text \<open>
  C6. Snapshots. Materialising a state from the authoritative replay gives a snapshot that the verifier
  accepts with the diagnostics of that replay, and materialising it again changes nothing. Conversely, when
  the verifier accepts any snapshot that still has its genesis block, the recorded order, tip, root and
  conflicts are those of the authoritative replay, and its UTXO map is the replayed one, unless their
  two encodings are a SHA-256 collision.
\<close>

theorem snapshot_v2_roundtrip:
  assumes "materialize_authoritative_state_v2 C dbg s = Some (Inr s')"
  shows "(\<exists>r. rebuild_authoritative_state_v2 C dbg s = Some (Inr r) \<and> cs_utxo s' = sr_utxo r
      \<and> verify_authoritative_state_snapshot_v2 C dbg s' = Some (Inr (sr_diagnostics r))
      \<and> materialize_authoritative_state_v2 C dbg s' = Some (Inr s'))
    \<and> (\<forall>t d. hex_roundtrip C \<and> distinct_keys (dag_blocks (cs_dag t)) \<and> maps_ok (cs_utxo t)
        \<and> contains_key (dag_blocks (cs_dag t)) (dag_genesis_hash (cs_dag t))
        \<and> verify_authoritative_state_snapshot_v2 C dbg t = Some (Inr d) \<longrightarrow>
        (\<exists>r. rebuild_authoritative_state_v2 C dbg t = Some (Inr r) \<and> d = sr_diagnostics r
          \<and> dag_ordered_dag (cs_dag t) = od_blocks (sr_ordered_dag r)
          \<and> dag_ordered_dag_tip (cs_dag t) = sd_ordered_dag_tip d
          \<and> dag_ordered_dag_state_root (cs_dag t) = Some (sd_state_root d)
          \<and> dag_ordered_dag_conflict_diagnostics (cs_dag t) = sd_conflict_diagnostics d
          \<and> (map_of (us_utxos (cs_utxo t)) = map_of (us_utxos (sr_utxo r))
            \<or> (\<exists>b b'. state_root_bytes (cs_utxo t) = Some b \<and> state_root_bytes (sr_utxo r) = Some b'
                 \<and> b \<noteq> b' \<and> sha256 C b = sha256 C b'))))"
proof (intro conjI allI impI)
  obtain r where r: "rebuild_authoritative_state_v2 C dbg s = Some (Inr r)" and s': "s' = materialize_with s r"
    using assms by (auto simp: materialize_authoritative_state_v2_def result_simps)
  have again: "rebuild_authoritative_state_v2 C dbg s' = Some (Inr r)" unfolding s' materialize_rebuild by (rule r)
  have fields: "cs_utxo s' = sr_utxo r" "dag_ordered_dag (cs_dag s') = od_blocks (sr_ordered_dag r)"
    "dag_ordering_version (cs_dag s') = GHOSTDAG_V1_ORDERING_VERSION"
    "dag_ordered_dag_tip (cs_dag s') = sd_ordered_dag_tip (sr_diagnostics r)"
    "dag_ordered_dag_state_root (cs_dag s') = Some (sd_state_root (sr_diagnostics r))"
    "dag_ordered_dag_conflict_diagnostics (cs_dag s') = sd_conflict_diagnostics (sr_diagnostics r)"
    by (simp_all add: s' materialize_with_def)
  have "verify_authoritative_state_snapshot_v2 C dbg s' = Some (Inr (sr_diagnostics r))"
    unfolding verify_full [OF rebuild_v2_root(2) [OF again]] again
    using rebuild_v2_root(1) [OF r] by (simp add: fields check_snapshot_v2_def Let_def)
  moreover have "materialize_authoritative_state_v2 C dbg s' = Some (Inr s')"
    using again by (simp add: materialize_authoritative_state_v2_def s' materialize_with_def)
  ultimately show "\<exists>r. rebuild_authoritative_state_v2 C dbg s = Some (Inr r) \<and> cs_utxo s' = sr_utxo r
      \<and> verify_authoritative_state_snapshot_v2 C dbg s' = Some (Inr (sr_diagnostics r))
      \<and> materialize_authoritative_state_v2 C dbg s' = Some (Inr s')"
    using r fields(1) by blast
next
  fix t d
  assume t: "hex_roundtrip C \<and> distinct_keys (dag_blocks (cs_dag t)) \<and> maps_ok (cs_utxo t)
        \<and> contains_key (dag_blocks (cs_dag t)) (dag_genesis_hash (cs_dag t))
        \<and> verify_authoritative_state_snapshot_v2 C dbg t = Some (Inr d)"
  then have genesis: "contains_key (dag_blocks (cs_dag t)) (dag_genesis_hash (cs_dag t))"
    and verified: "verify_authoritative_state_snapshot_v2 C dbg t = Some (Inr d)" and hex: "hex_roundtrip C"
    and dk: "distinct_keys (dag_blocks (cs_dag t))" and maps: "maps_ok (cs_utxo t)" by simp_all
  obtain r root where r: "rebuild_authoritative_state_v2 C dbg t = Some (Inr r)"
    and root: "compute_state_root C (cs_utxo t) = Inr root" and check: "check_snapshot_v2 t r root = Inr d"
    using verified unfolding verify_full [OF genesis] by (auto simp: result_simps)
  have fields: "d = sr_diagnostics r" "dag_ordered_dag (cs_dag t) = od_blocks (sr_ordered_dag r)"
    "dag_ordered_dag_tip (cs_dag t) = sd_ordered_dag_tip d" "dag_ordered_dag_state_root (cs_dag t) = Some (sd_state_root d)"
    "dag_ordered_dag_conflict_diagnostics (cs_dag t) = sd_conflict_diagnostics d" "root = sd_state_root d"
    using check by (auto simp: check_snapshot_v2_def Let_def split: if_splits)
  obtain od base where p: "derive_ordered_dag_v2 C t = Some (Inr od)" "replay_base_state_for_genesis C t = Inr base"
    by (rule rebuild_v2_parts [OF r])
  have wf: "utxo_wf (sr_utxo r)"
    using rebuild_v2_spec [OF dk p, of dbg] r atomic_replay_wf [OF base_wf [OF p(2)]]
    by (cases "compute_state_root C (foldl atomic_step (cs_utxo base) (occurrences t 0 (od_blocks od)))")
      (auto simp: replay_result_def)
  have "map_of (us_utxos (cs_utxo t)) = map_of (us_utxos (sr_utxo r))
      \<or> (\<exists>b b'. state_root_bytes (cs_utxo t) = Some b \<and> state_root_bytes (sr_utxo r) = Some b'
           \<and> b \<noteq> b' \<and> sha256 C b = sha256 C b')"
    by (rule equal_roots [OF hex maps _ _ root]) (use wf rebuild_v2_root(1) [OF r] fields in \<open>simp_all add: utxo_wf_def\<close>)
  with r fields show "\<exists>r. rebuild_authoritative_state_v2 C dbg t = Some (Inr r) \<and> d = sr_diagnostics r
          \<and> dag_ordered_dag (cs_dag t) = od_blocks (sr_ordered_dag r)
          \<and> dag_ordered_dag_tip (cs_dag t) = sd_ordered_dag_tip d
          \<and> dag_ordered_dag_state_root (cs_dag t) = Some (sd_state_root d)
          \<and> dag_ordered_dag_conflict_diagnostics (cs_dag t) = sd_conflict_diagnostics d
          \<and> (map_of (us_utxos (cs_utxo t)) = map_of (us_utxos (sr_utxo r))
            \<or> (\<exists>b b'. state_root_bytes (cs_utxo t) = Some b \<and> state_root_bytes (sr_utxo r) = Some b'
                 \<and> b \<noteq> b' \<and> sha256 C b = sha256 C b'))" by blast
qed

theorem snapshot_v2_roundtrip_witness:
  "\<exists>s s' d. materialize_authoritative_state_v2 nonce_crypto (\<lambda>_. []) s = Some (Inr s')
    \<and> verify_authoritative_state_snapshot_v2 nonce_crypto (\<lambda>_. []) s' = Some (Inr d)
    \<and> sd_skipped_conflicting_transactions d = 1"
proof -
  obtain s g where s: "init_chain_state_v3 nonce_crypto ''pulse'' 1 = Inr s" "dag_blocks (cs_dag s) = [([CHR 0x00], g)]"
    "dag_genesis_hash (cs_dag s) = [CHR 0x00]" "b_transactions g = []" "h_version (b_header g) = 2" "h_timestamp (b_header g) = 1"
    "cs_utxo s = empty_utxo_state" "cs_chain_id s = ''pulse''" "h_parents (b_header g) = []" "h_height (b_header g) = 0"
    "h_blue_score (b_header g) = 0" by (rule example_v3)
  note forked = forked_parts [OF s(2,3,1,4,5,6,8,9,10,11)]
  obtain r where r: "rebuild_authoritative_state_v2 nonce_crypto (\<lambda>_. []) (forked_state s) = Some (Inr r)"
    "sd_skipped_conflicting_transactions (sr_diagnostics r) = 1"
    using rebuild_v2_spec [OF forked(1,3,2), unfolded OrderedDagV2.select_convs forked(4) s(7) forked_root replay_result_def forked_replay(1)]
    by simp
  then have "materialize_authoritative_state_v2 nonce_crypto (\<lambda>_. []) (forked_state s) = Some (Inr (materialize_with (forked_state s) r))"
    by (simp add: materialize_authoritative_state_v2_def)
  from conjunct1 [OF snapshot_v2_roundtrip [OF this]] this r show ?thesis by fastforce
qed

end
