(* ===== verification/Spec2Isabelle.thy ===== *)
theory Spec2Isabelle
  imports Pulse_Monetary Pulse_Denomination Pulse_Ledger Pulse_Retarget Pulse_Ordering Pulse_Pow Pulse_Replay
begin

text \<open>
  Verification development for PulseDAG, a proof-of-work ledger over a DAG of blocks.  It models the
  consensus core, \<open>src/crates/pulsedag-core/src/\<close>; file names below are relative to that directory.

  \<^bold>\<open>The program.\<close>  A node holds a \<open>ChainState\<close>: the accepted blocks with their DAG metadata, the set of
  unspent outputs (UTXOs) with an address index, and the mempool.  A block is validated against the
  state of its selected parent (\<open>validation.rs\<close>: parents, height, difficulty, proof of work, hash, Merkle
  root, reward, state root) and committed (\<open>apply.rs\<close>): its metadata is stored, the selected chain and the
  DAG order are derived again, the UTXO set is rebuilt by replay, and the mempool is reconciled and
  brought under its resource limits.  Difficulty follows from recent timestamps; rewards follow from
  the height, or in the reserved third version from a decaying issuance curve.

  \<^bold>\<open>Conventions.\<close>  Machine integers are words of their width, \<open>usize\<close> is \<open>nat\<close>; checked, saturating and
  wrapping operations are those of \<open>Pulse_Prelude\<close>.  Fallible code returns \<open>error + value\<close>, a panic is an
  error value of its own (\<open>Panic\<close>, \<open>OrderingPanic\<close>), and a loop that need not end is a \<open>partial_function\<close>
  whose outer \<open>None\<close> is non-termination.  Hash maps are association lists; theorems that depend on the
  absence of duplicate keys say so (\<open>distinct_keys\<close>, \<open>maps_ok\<close>, \<open>keyed\<close>), and results are shown not to
  depend on the iteration order where the code promises that.  Strings are lists of bytes.  SHA-256,
  hexadecimal coding and Ed25519 are the fields of a record \<open>C :: crypto\<close>, the proof-of-work digest is a
  function \<open>H\<close>, JSON encoding a function \<open>J\<close>, the clock and the configured drift are arguments: the theorems
  hold for all of them, under the named hypotheses \<open>hex_roundtrip\<close> and \<open>hex_canonical\<close> where decoding matters.
  Commitment theorems end in an explicit collision of two given encodings instead of assuming that the
  hash is injective.

  \<^bold>\<open>Theories, bottom up.\<close>
  \<^item> \<open>Pulse_Prelude\<close>, \<open>Pulse_Bytes\<close>, \<open>Pulse_Compare\<close>: machine arithmetic, results, byte strings, the locale
    \<open>codec\<close> of self-delimiting encodings (interpreted for every encoding of the code) and the locale
    \<open>comparison\<close> of comparison functions (interpreted for every comparator of the code).
  \<^item> \<open>Pulse_Monetary\<close> (\<open>monetary_v3.rs\<close>), \<open>Pulse_Denomination\<close> (\<open>denomination_v3.rs\<close>): the issuance curve in
    64-bit fixed point is total, monotone, capped and accurate to a stated number of units; subsidies sum
    exactly to the reported supply for every valid cadence (locales \<open>supply_schedule\<close>, \<open>valid_cadence\<close>);
    formatting and parsing amounts is a round trip.
  \<^item> \<open>Pulse_PowTarget\<close>, \<open>Pulse_Pow\<close> (\<open>pow.rs\<close>): compact targets on every branch, agreement of all evaluation
    paths, exactness of the nonce search.
  \<^item> \<open>Pulse_Types\<close> (\<open>types.rs\<close>, \<open>errors.rs\<close>), \<open>Pulse_State\<close> (\<open>state.rs\<close>), \<open>Pulse_Tx\<close> (\<open>tx.rs\<close>), \<open>Pulse_Pqc\<close>
    (\<open>pqc.rs\<close>, \<open>tx_v3.rs\<close>): data types, canonical encodings and what hashes, Merkle roots, state roots and
    signing messages commit to; exact conditions of the index check and of signature verification.
  \<^item> \<open>Pulse_Ledger\<close> (\<open>apply_transaction\<close> of \<open>apply.rs\<close>, transactions and rewards of \<open>validation.rs\<close>): when a
    transaction applies and what it does, the index invariant, conservation of value, bounded supply,
    agreement of the two confirmation tests.
  \<^item> \<open>Pulse_Retarget\<close> (\<open>retarget.rs\<close>, \<open>retarget_v3.rs\<close>): exact 256-bit target scaling on limbs, bounds of one
    retarget step, the nanosecond rule, termination of the window walk.
  \<^item> \<open>Pulse_Selection\<close> (\<open>selection.rs\<close>, \<open>selection_v2.rs\<close>), \<open>Pulse_Ghostdag\<close> (\<open>ghostdag.rs\<close>, \<open>ghostdag_v1.rs\<close>),
    \<open>Pulse_Ordering\<close> (\<open>ordering.rs\<close>, \<open>ordering_v2.rs\<close>): parent and tip selection as maxima, merge sets as
    differences of pasts, the bounded classification as the greedy rule, and the reserved order as the
    unique greedy topological order, decided without panic on every state.
  \<^item> \<open>Pulse_Mempool\<close> (\<open>mempool.rs\<close>), \<open>Pulse_FeePolicy\<close> (\<open>mempool_v3.rs\<close>), \<open>Pulse_MempoolResource\<close>
    (\<open>mempool_resource_v1.rs\<close>): reconciliation keeps a maximal admissible set, the fee assessment is exact, and
    normalisation establishes the resource invariant while removing packages with their descendants.
  \<^item> \<open>Pulse_Chain\<close> (\<open>genesis.rs\<close>, \<open>mining.rs\<close>, block validation of \<open>validation.rs\<close>, commit of \<open>apply.rs\<close>): block
    validation and commit composed from the parts above.  \<open>reachable\<close> is the transition system of a node
    from genesis.  Its invariant \<open>chain_inv\<close> says that every known block has a complete selected-parent walk
    whose replay gives a UTXO set that the block commits to; it yields that the live ledger is committed to
    by the tip, replayable and within the emission, and that \<open>apply_block\<close> is atomic and fails only when
    validation reports an error.
  \<^item> \<open>Pulse_Replay\<close> (\<open>header_v2.rs\<close>, \<open>genesis_v2.rs\<close>, \<open>genesis_v3.rs\<close>, \<open>state_replay_v2.rs\<close>): the chain-bound second
    version and the authoritative replay of the reserved order: a refinement to an atomic fold, and the
    round trip of snapshots.

  \<^bold>\<open>Fuel and bounds.\<close>  No definition runs on fuel.  Work-list loops terminate by a measure proved with the
  definition (unvisited blocks, remaining transactions); \<open>recent_blocks_loop\<close> (retargeting) and \<open>emit_loop\<close>
  (ordering) are partial, and their termination is proved: for the first when the selected parents form a
  finite walk, as in every reachable state, for the second whenever the block map has distinct keys.

  \<^bold>\<open>Scope of the chain theorems.\<close>  They concern the legacy consensus mode, in which a node starts; the
  development mode's commit (\<open>commit_ghostdag\<close>) is modelled as well, and \<open>Pulse_Replay\<close> shows that its
  replay can lose value to a skipped transaction, which the authoritative replay avoids.  Pruning is not a
  step of \<open>reachable\<close>; the compact-snapshot branch of the commit and the checks of pruned checkpoints are
  modelled but outside the chain theorems.

  \<^bold>\<open>Not modelled.\<close>  Intake queues, orphans and caches around \<open>apply_block\<close> (\<open>accept.rs\<close>, \<open>orphans.rs\<close>: locks,
  atomics, wall-clock time, metrics); network staging, wire formats and synchronisation; mining templates;
  protocol identities and persistence; the dormant third-version envelopes, trials, settlement and
  finality records; the script machine and contract templates, which are switched off in the chain state;
  the other crates (peer-to-peer, storage, RPC, wallet, API) and the two programs, which are input and
  output around the core.  In the modelled files: fingerprints of constant policies, environment reads,
  debug strings, serialisation derives, and the surrogate proof-of-work of development builds.
\<close>

end
